(* ===== verification/Prelude.thy ===== *)
theory Prelude
  imports
    Main
    "HOL-Library.Char_ord"
    "HOL-Library.List_Lexorder"
    "HOL-Library.Multiset"
    "HOL-Library.AList"
    "HOL-Library.Word"
begin

section \<open>Prelude\<close>

text \<open>
  What the component theories share: the types of the model (a C++ \<open>char\<close> buffer and a
  \<open>std::string\<close> are both lists of 8-bit characters, ordered as unsigned bytes, first by
  the first difference and then by length), the errors a call can end with, sequencing of
  calls that may fail, the loop over an iterator, and lemmas on lists.
\<close>

named_theorems sdb_simps \<open>unfolding rules of the model's operations\<close>
named_theorems codec_simps \<open>how each value is laid out in a buffer\<close>

type_synonym bytes = string

subsection \<open>Errors as values\<close>

text \<open>
  Every exception the modelled code raises, and every call whose behaviour the C++
  standard leaves undefined: \<open>OutOfBounds\<close> is a read past the end of a buffer or of a
  vector, \<open>AssertionFailed\<close> a failed \<open>assert\<close>.
\<close>

datatype error =
    EndOfFile
  | CurraptedSSTable
  | OutOfBounds
  | LengthError
  | OutOfRange
  | AssertionFailed
  | NoSuchFile
  | InvalidArgument string
  | RuntimeError string
  | DatabaseException string

type_synonym 'a result = "error + 'a"

definition bindE :: "'a result \<Rightarrow> ('a \<Rightarrow> 'b result) \<Rightarrow> 'b result" where
  "bindE m f = (case m of Inl e \<Rightarrow> Inl e | Inr x \<Rightarrow> f x)"

lemma bindE_simps [simp]:
  "bindE (Inl e) f = Inl e"
  "bindE (Inr x) f = f x"
  by (simp_all add: bindE_def)

lemma bindE_Inr_conv: "bindE m f = Inr y \<longleftrightarrow> (\<exists>x. m = Inr x \<and> f x = Inr y)"
  by (cases m) auto

lemma bindE_cong [fundef_cong]:
  "m = m' \<Longrightarrow> (\<And>x. m' = Inr x \<Longrightarrow> f x = f' x) \<Longrightarrow> bindE m f = bindE m' f'"
  by (cases m') auto

lemma bindE_assoc: "bindE (bindE m f) g = bindE m (\<lambda>x. bindE (f x) g)"
  by (cases m) auto

subsection \<open>Association lists\<close>

lemma length_AList_update: "map_of xs k = None \<Longrightarrow> length (AList.update k v xs) = Suc (length xs)"
  by (induction xs) (auto split: if_splits)

lemma filter_other_keys_length:
  "distinct (map fst l) \<Longrightarrow> k \<in> fst ` set l \<Longrightarrow> Suc (length (filter (\<lambda>e. fst e \<noteq> k) l)) = length l"
proof (induction l)
  case (Cons e l)
  show ?case
  proof (cases "fst e = k")
    case True
    with Cons.prems(1) have "filter (\<lambda>e. fst e \<noteq> k) l = l" by (auto simp: filter_id_conv image_iff)
    with True show ?thesis by simp
  next
    case False
    with Cons show ?thesis by auto
  qed
qed simp

lemma length_AList_delete:
  assumes "distinct (map fst l)" "map_of l k = Some v"
  shows "Suc (length (AList.delete k l)) = length l"
proof -
  have "AList.delete k l = filter (\<lambda>e. fst e \<noteq> k) l"
    by (auto simp: AList.delete_eq intro!: filter_cong)
  moreover have "k \<in> fst ` set l" using assms(2) by (metis map_of_eq_None_iff option.distinct(1))
  ultimately show ?thesis using filter_other_keys_length [OF assms(1)] by simp
qed

subsection \<open>Lists\<close>

lemma length_concat_const: "(\<And>x. x \<in> set xss \<Longrightarrow> length x = n) \<Longrightarrow> length (concat xss) = length xss * n"
  by (induction xss) auto

lemma concat_split_nth: "k < length xss \<Longrightarrow> concat xss = concat (take k xss) @ xss ! k @ concat (drop (Suc k) xss)"
  by (metis concat.simps(2) concat_append id_take_nth_drop)

lemma sorted_append_le: "sorted (xs @ ys) \<Longrightarrow> x \<in> set xs \<Longrightarrow> y \<in> set ys \<Longrightarrow> x \<le> y"
  by (simp add: sorted_append)

lemma sorted_le_last: "sorted xs \<Longrightarrow> x \<in> set xs \<Longrightarrow> x \<le> last xs"
  by (induction xs) auto

lemma sorted_concatD: "sorted (concat xss) \<Longrightarrow> xs \<in> set xss \<Longrightarrow> sorted xs"
  by (induction xss) (auto simp: sorted_append)

lemma length_takeWhile_less: "x \<in> set xs \<Longrightarrow> \<not> P x \<Longrightarrow> length (takeWhile P xs) < length xs"
  by (induction xs) auto

lemma length_le_concat: "\<forall>x \<in> set xss. x \<noteq> [] \<Longrightarrow> length xss \<le> length (concat xss)"
proof (induction xss)
  case (Cons x xss)
  then show ?case by (cases x) auto
qed simp

end
