(* ===== verification/Sdb_Format.thy ===== *)
theory Sdb_Format
  imports Prelude
begin

section \<open>The sdb format: buffers\<close>

text \<open>
  \<open>src/src/server/sdb\<close>: \<open>BufferWriter\<close> appends integers, booleans, strings and raw bytes
  to a growing buffer, \<open>BufferReader\<close> reads them back from a cursor. An \<open>int64_t\<close> is
  written as the eight bytes of its little-endian two's complement. The locale \<open>sdb_codec\<close>
  is the contract between a pair of \<open>Write\<close> and \<open>Read\<close> overloads; it is
  interpreted here for the primitive types and in later theories for every structure that
  is stored on disk or in the log.
\<close>

subsection \<open>Integers\<close>

abbreviation is_int64 :: "int \<Rightarrow> bool" where
  "is_int64 v \<equiv> - (2 ^ 63) \<le> v \<and> v < 2 ^ 63"

text \<open>\<open>char_of\<close> takes the low eight bits of its argument.\<close>

definition int64_bytes :: "int \<Rightarrow> bytes" where
  "int64_bytes v = map (\<lambda>i. char_of (v div 256 ^ i)) [0..<8]"

definition bytes_uint64 :: "bytes \<Rightarrow> int" where
  "bytes_uint64 bs = horner_sum of_char 256 bs"

definition bytes_int64 :: "bytes \<Rightarrow> int" where
  "bytes_int64 bs = (let n = bytes_uint64 bs in if n < 2 ^ 63 then n else n - 2 ^ 64)"

lemma length_int64_bytes [simp]: "length (int64_bytes v) = 8"
  by (simp add: int64_bytes_def)

lemma horner_sum_digits:
  fixes v :: int
  shows "horner_sum of_char 256 (map (\<lambda>i. char_of (v div 256 ^ i)) [0..<k]) = v mod 256 ^ k"
proof (induction k arbitrary: v)
  case 0
  then show ?case by simp
next
  case (Suc k)
  have "map (\<lambda>i. char_of (v div 256 ^ i) :: char) [0..<Suc k]
      = char_of v # map (\<lambda>i. char_of ((v div 256) div 256 ^ i)) [0..<k]"
    by (simp add: map_upt_Suc zdiv_zmult2_eq [symmetric] del: upt_Suc)
  then have "horner_sum of_char 256 (map (\<lambda>i. char_of (v div 256 ^ i)) [0..<Suc k])
      = v mod 256 + 256 * ((v div 256) mod 256 ^ k)"
    by (simp add: Suc.IH of_char_of del: upt_Suc)
  also have "\<dots> = v mod 256 ^ Suc k"
    by (simp add: zmod_zmult2_eq)
  finally show ?case .
qed

lemma bytes_uint64_int64_bytes: "bytes_uint64 (int64_bytes v) = v mod 2 ^ 64"
  unfolding bytes_uint64_def int64_bytes_def horner_sum_digits by simp

lemma bytes_int64_int64_bytes [simp]:
  assumes "is_int64 v"
  shows "bytes_int64 (int64_bytes v) = v"
proof (cases "0 \<le> v")
  case True
  with assms have "v mod 2 ^ 64 = v" by (intro mod_pos_pos_trivial) auto
  with assms True show ?thesis
    by (simp add: bytes_int64_def bytes_uint64_int64_bytes)
next
  case False
  with assms have "(v + 2 ^ 64) mod 2 ^ 64 = v + 2 ^ 64" by (intro mod_pos_pos_trivial) auto
  then have "v mod 2 ^ 64 = v + 2 ^ 64" by simp
  with assms False show ?thesis
    by (simp add: bytes_int64_def bytes_uint64_int64_bytes)
qed

subsection \<open>BufferWriter\<close>

record buffer_writer =
  bw_data :: bytes

definition BufferWriter :: buffer_writer where
  "BufferWriter = \<lparr>bw_data = []\<rparr>"

definition bw_Write :: "buffer_writer \<Rightarrow> bytes \<Rightarrow> buffer_writer" where
  "bw_Write w buffer = w\<lparr>bw_data := bw_data w @ buffer\<rparr>"

definition bw_WriteInt :: "buffer_writer \<Rightarrow> int \<Rightarrow> buffer_writer" where
  "bw_WriteInt w value = w\<lparr>bw_data := bw_data w @ int64_bytes value\<rparr>"

definition bw_WriteString :: "buffer_writer \<Rightarrow> string \<Rightarrow> buffer_writer" where
  "bw_WriteString w value = bw_Write (bw_WriteInt w (int (length value))) value"

definition bw_WriteBool :: "buffer_writer \<Rightarrow> bool \<Rightarrow> buffer_writer" where
  "bw_WriteBool w value = w\<lparr>bw_data := bw_data w @ [char_of (of_bool value :: nat)]\<rparr>"

definition bw_Extract :: "buffer_writer \<Rightarrow> bytes" where
  "bw_Extract w = bw_data w"

subsection \<open>BufferReader\<close>

text \<open>
  The cursor \<open>buf_\<close> is an offset into the data. \<open>BufferReader::Read\<close> copies without a
  bounds check, so a read that would run past the end of the data is the error
  \<open>OutOfBounds\<close> of the model. \<open>ReadString\<close> resizes the result to the length it has
  read; a negative length becomes a huge unsigned size, which \<open>resize\<close> refuses.
\<close>

record buffer_reader =
  br_data :: bytes
  br_buf :: nat

definition BufferReader :: "bytes \<Rightarrow> buffer_reader" where
  "BufferReader data = \<lparr>br_data = data, br_buf = 0\<rparr>"

definition br_Read :: "buffer_reader \<Rightarrow> nat \<Rightarrow> (bytes \<times> buffer_reader) result" where
  "br_Read r n =
     (if br_buf r + n \<le> length (br_data r)
      then Inr (take n (drop (br_buf r) (br_data r)), r\<lparr>br_buf := br_buf r + n\<rparr>)
      else Inl OutOfBounds)"

definition br_ReadInt :: "buffer_reader \<Rightarrow> (int \<times> buffer_reader) result" where
  "br_ReadInt r = bindE (br_Read r 8) (\<lambda>(bs, r). Inr (bytes_int64 bs, r))"

definition br_ReadString :: "buffer_reader \<Rightarrow> (string \<times> buffer_reader) result" where
  "br_ReadString r =
     bindE (br_ReadInt r) (\<lambda>(n, r).
       if n < 0 then Inl LengthError else br_Read r (nat n))"

definition br_ReadBool :: "buffer_reader \<Rightarrow> (bool \<times> buffer_reader) result" where
  "br_ReadBool r = bindE (br_Read r 1) (\<lambda>(bs, r). Inr (of_char (hd bs) \<noteq> (0 :: nat), r))"

definition br_HasMore :: "buffer_reader \<Rightarrow> bool" where
  "br_HasMore r \<longleftrightarrow> br_buf r < length (br_data r)"

text \<open>What is left to read, and the reader after \<open>n\<close> more bytes.\<close>

definition br_rest :: "buffer_reader \<Rightarrow> bytes" where
  "br_rest r = drop (br_buf r) (br_data r)"

definition br_advance :: "nat \<Rightarrow> buffer_reader \<Rightarrow> buffer_reader" where
  "br_advance n r = r\<lparr>br_buf := br_buf r + n\<rparr>"

lemma br_rest_advance [simp]: "br_rest (br_advance n r) = drop n (br_rest r)"
  by (simp add: br_rest_def br_advance_def add.commute)

lemma br_advance_advance [simp]: "br_advance n (br_advance m r) = br_advance (m + n) r"
  by (simp add: br_advance_def add.assoc)

lemma br_advance_0 [simp]: "br_advance 0 r = r"
  by (simp add: br_advance_def)

lemma br_rest_BufferReader [simp]: "br_rest (BufferReader data) = data"
  by (simp add: br_rest_def BufferReader_def)

lemma br_HasMore_iff_rest: "br_HasMore r \<longleftrightarrow> br_rest r \<noteq> []"
  by (auto simp: br_HasMore_def br_rest_def)

lemma br_Read_rest:
  "br_Read r n = (if n \<le> length (br_rest r) \<and> (n = 0 \<longrightarrow> br_buf r \<le> length (br_data r))
                  then Inr (take n (br_rest r), br_advance n r) else Inl OutOfBounds)"
  by (auto simp: br_Read_def br_rest_def br_advance_def)

lemma br_Read_append:
  "br_rest r = bs @ rest \<Longrightarrow> bs \<noteq> [] \<Longrightarrow> br_Read r (length bs) = Inr (bs, br_advance (length bs) r)"
  by (auto simp: br_Read_rest)

lemma br_Read_after:
  assumes r: "br_rest r = pre @ bs @ rest" and ne: "pre \<noteq> []"
  shows "br_Read (br_advance (length pre) r) (length bs) = Inr (bs, br_advance (length pre + length bs) r)"
proof -
  have "length (br_data r) - br_buf r = length pre + length bs + length rest"
    using r by (metis add.assoc br_rest_def length_append length_drop)
  with ne have "br_buf r + length pre + length bs \<le> length (br_data r)"
    by (cases pre) auto
  moreover have "take (length bs) (drop (length pre) (br_rest r)) = bs"
    using r by simp
  ultimately show ?thesis
    by (simp add: br_Read_def br_rest_def br_advance_def add.commute add.left_commute)
qed

subsection \<open>The contract of a Write and Read pair\<close>

text \<open>
  \<open>enc\<close> is what a \<open>Write\<close> appends, \<open>valid\<close> the values for which it is lossless
  (integers within 64 bits, lengths within 64 bits). Reading from a buffer that starts with
  the encoding of a valid value returns the value and leaves the rest.
\<close>

locale sdb_codec =
  fixes put :: "buffer_writer \<Rightarrow> 'a \<Rightarrow> buffer_writer"
    and get :: "buffer_reader \<Rightarrow> ('a \<times> buffer_reader) result"
    and enc :: "'a \<Rightarrow> bytes"
    and valid :: "'a \<Rightarrow> bool"
  assumes put_enc: "bw_data (put w x) = bw_data w @ enc x"
    and enc_nonempty: "valid x \<Longrightarrow> enc x \<noteq> []"
    and get_enc: "valid x \<Longrightarrow> br_rest r = enc x @ rest \<Longrightarrow> get r = Inr (x, br_advance (length (enc x)) r)"
begin

lemma extract_put: "bw_Extract (put BufferWriter x) = enc x"
  by (simp add: bw_Extract_def put_enc BufferWriter_def)

lemma roundtrip: "valid x \<Longrightarrow> bindE (get (BufferReader (enc x @ rest))) (\<lambda>(y, r). Inr (y, br_rest r)) = Inr (x, rest)"
  by (simp add: get_enc)

lemma enc_inj: "valid x \<Longrightarrow> valid y \<Longrightarrow> enc x @ us = enc y @ vs \<Longrightarrow> x = y \<and> us = vs"
proof -
  assume v: "valid x" "valid y" and eq: "enc x @ us = enc y @ vs"
  have "get (BufferReader (enc x @ us)) = Inr (x, br_advance (length (enc x)) (BufferReader (enc x @ us)))"
    using v(1) by (simp add: get_enc)
  moreover have "get (BufferReader (enc x @ us)) = Inr (y, br_advance (length (enc y)) (BufferReader (enc x @ us)))"
    using v(2) eq by (simp add: get_enc)
  ultimately have "x = y" by simp
  with eq show ?thesis by simp
qed

text \<open>Reading \<open>n\<close> values one after the other, as the loop of a page does.\<close>

lemma enc_list_split:
  "br_rest r = concat (map enc (x # xs)) @ rest \<Longrightarrow> valid x \<Longrightarrow>
   get r = Inr (x, br_advance (length (enc x)) r) \<and>
   br_rest (br_advance (length (enc x)) r) = concat (map enc xs) @ rest"
  by (simp add: get_enc)

end

lemma bw_data_Write [codec_simps]: "bw_data (bw_Write w bs) = bw_data w @ bs"
  by (simp add: bw_Write_def)

lemma bw_data_WriteInt [codec_simps]: "bw_data (bw_WriteInt w v) = bw_data w @ int64_bytes v"
  by (simp add: bw_WriteInt_def)

definition string_bytes :: "string \<Rightarrow> bytes" where
  "string_bytes s = int64_bytes (int (length s)) @ s"

definition bool_bytes :: "bool \<Rightarrow> bytes" where
  "bool_bytes b = [char_of (of_bool b :: nat)]"

lemma bw_data_WriteString [codec_simps]: "bw_data (bw_WriteString w s) = bw_data w @ string_bytes s"
  by (simp add: bw_WriteString_def string_bytes_def codec_simps)

lemma bw_data_WriteBool [codec_simps]: "bw_data (bw_WriteBool w b) = bw_data w @ bool_bytes b"
  by (simp add: bw_WriteBool_def bool_bytes_def)

lemma length_string_bytes [simp]: "length (string_bytes s) = 8 + length s"
  by (simp add: string_bytes_def)

lemma length_bool_bytes [simp]: "length (bool_bytes b) = 1"
  by (simp add: bool_bytes_def)

abbreviation is_string64 :: "string \<Rightarrow> bool" where
  "is_string64 s \<equiv> length s < 2 ^ 63"

interpretation int_codec: sdb_codec bw_WriteInt br_ReadInt int64_bytes is_int64
proof unfold_locales
  fix r rest v
  assume "is_int64 v" "br_rest r = int64_bytes v @ rest"
  then show "br_ReadInt r = Inr (v, br_advance (length (int64_bytes v)) r)"
    using br_Read_append [of r "int64_bytes v" rest]
    by (auto simp: br_ReadInt_def int64_bytes_def [of v, symmetric] simp flip: length_0_conv)
qed (auto simp: codec_simps simp flip: length_0_conv)

interpretation string_codec: sdb_codec bw_WriteString br_ReadString string_bytes is_string64
proof unfold_locales
  fix r rest s
  assume v: "is_string64 s" and r: "br_rest r = string_bytes s @ rest"
  have "br_ReadInt r = Inr (int (length s), br_advance 8 r)"
    using int_codec.get_enc [of "int (length s)" r "s @ rest"] v r
    by (simp add: string_bytes_def)
  moreover have "br_Read (br_advance 8 r) (length s) = Inr (s, br_advance (length s) (br_advance 8 r))"
    using br_Read_after [of r "int64_bytes (int (length s))" s rest] r
    by (simp add: string_bytes_def flip: length_0_conv)
  ultimately show "br_ReadString r = Inr (s, br_advance (length (string_bytes s)) r)"
    by (simp add: br_ReadString_def)
qed (auto simp: codec_simps simp flip: length_0_conv)

interpretation bool_codec: sdb_codec bw_WriteBool br_ReadBool bool_bytes "\<lambda>_. True"
proof unfold_locales
  fix r rest b
  assume "br_rest r = bool_bytes b @ rest"
  then show "br_ReadBool r = Inr (b, br_advance (length (bool_bytes b)) r)"
    using br_Read_append [of r "bool_bytes b" rest]
    by (auto simp: br_ReadBool_def bool_bytes_def)
qed (auto simp: codec_simps simp flip: length_0_conv)

end
