(* ===== verification/Lsm_Types.thy ===== *)
theory Lsm_Types
  imports Sdb_Format
begin

section \<open>Records of the LSM tree\<close>

text \<open>
  \<open>src/src/server/lsm/types.cpp\<close>, \<open>types.hpp\<close>, \<open>options.hpp\<close>: the record of a key, the
  sequence number of the write and the value; the order of records (by key, newest write
  first, then by value), which is total and therefore makes a record a \<open>linorder\<close>; the
  encoding of a record; ranges of keys. A \<open>Sequence\<close> is an \<open>int64_t\<close>, modelled as an
  \<open>int\<close>; where the width matters a theorem says so (\<open>is_int64\<close>).
\<close>

subsection \<open>Records and their order\<close>

definition kMaxSequence :: int where
  "kMaxSequence = 2 ^ 63 - 1"

datatype lsm_record = Record (rec_key: string) (rec_seq: int) (rec_value: string)

definition record_less :: "lsm_record \<Rightarrow> lsm_record \<Rightarrow> bool" where
  "record_less lhs rhs \<longleftrightarrow>
     (if rec_key lhs \<noteq> rec_key rhs then rec_key lhs < rec_key rhs
      else if rec_seq lhs \<noteq> rec_seq rhs then rec_seq lhs > rec_seq rhs
      else rec_value lhs < rec_value rhs)"

instantiation lsm_record :: linorder
begin

definition less_lsm_record :: "lsm_record \<Rightarrow> lsm_record \<Rightarrow> bool" where
  "less_lsm_record = record_less"

definition less_eq_lsm_record :: "lsm_record \<Rightarrow> lsm_record \<Rightarrow> bool" where
  "less_eq_lsm_record a b \<longleftrightarrow> record_less a b \<or> a = b"

instance
proof
  fix x y z :: lsm_record
  show "(x < y) = (x \<le> y \<and> \<not> y \<le> x)"
    by (cases x; cases y) (auto simp: less_lsm_record_def less_eq_lsm_record_def record_less_def)
  show "x \<le> x" by (simp add: less_eq_lsm_record_def)
  show "x \<le> y \<Longrightarrow> y \<le> z \<Longrightarrow> x \<le> z"
    by (cases x; cases y; cases z) (auto simp: less_eq_lsm_record_def record_less_def split: if_splits)
  show "x \<le> y \<Longrightarrow> y \<le> x \<Longrightarrow> x = y"
    by (cases x; cases y) (auto simp: less_eq_lsm_record_def record_less_def split: if_splits)
  show "x \<le> y \<or> y \<le> x"
    by (cases x; cases y) (auto simp: less_eq_lsm_record_def record_less_def)
qed

end

lemma record_less_eq_iff:
  "a \<le> b \<longleftrightarrow>
     rec_key a < rec_key b \<or>
     rec_key a = rec_key b \<and> (rec_seq a > rec_seq b \<or> rec_seq a = rec_seq b \<and> rec_value a \<le> rec_value b)"
  by (cases a; cases b) (auto simp: less_eq_lsm_record_def record_less_def)

lemma record_le_key: "a \<le> b \<Longrightarrow> rec_key a \<le> rec_key b"
  by (auto simp: record_less_eq_iff)

lemma record_le_seq: "a \<le> b \<Longrightarrow> rec_key a = rec_key b \<Longrightarrow> rec_seq b \<le> rec_seq a"
  by (auto simp: record_less_eq_iff)

lemma sorted_records_keys: "sorted rs \<Longrightarrow> sorted (map rec_key rs)"
  by (induction rs) (auto dest: record_le_key)

subsection \<open>Encoding\<close>

definition record_Write :: "buffer_writer \<Rightarrow> lsm_record \<Rightarrow> buffer_writer" where
  "record_Write w r =
     bw_WriteString (bw_WriteInt (bw_WriteString w (rec_key r)) (rec_seq r)) (rec_value r)"

definition record_Read :: "buffer_reader \<Rightarrow> (lsm_record \<times> buffer_reader) result" where
  "record_Read rd =
     bindE (br_ReadString rd) (\<lambda>(key, rd).
     bindE (br_ReadInt rd) (\<lambda>(seq, rd).
     bindE (br_ReadString rd) (\<lambda>(val, rd).
       Inr (Record key seq val, rd))))"

definition record_bytes :: "lsm_record \<Rightarrow> bytes" where
  "record_bytes r = string_bytes (rec_key r) @ int64_bytes (rec_seq r) @ string_bytes (rec_value r)"

definition valid_record :: "lsm_record \<Rightarrow> bool" where
  "valid_record r \<longleftrightarrow> is_string64 (rec_key r) \<and> is_int64 (rec_seq r) \<and> is_string64 (rec_value r)"

lemma length_record_bytes: "length (record_bytes r) = 24 + length (rec_key r) + length (rec_value r)"
  by (simp add: record_bytes_def)

interpretation record_codec: sdb_codec record_Write record_Read record_bytes valid_record
proof unfold_locales
  fix w r show "bw_data (record_Write w r) = bw_data w @ record_bytes r"
    by (simp add: record_Write_def record_bytes_def codec_simps)
next
  fix r :: lsm_record show "record_bytes r \<noteq> []"
    by (simp add: length_record_bytes flip: length_0_conv)
next
  fix rd r rest
  assume v: "valid_record r" and rest: "br_rest rd = record_bytes r @ rest"
  from v have v': "is_string64 (rec_key r)" "is_int64 (rec_seq r)" "is_string64 (rec_value r)"
    by (simp_all add: valid_record_def)
  note key = string_codec.get_enc [OF v'(1), of rd "int64_bytes (rec_seq r) @ string_bytes (rec_value r) @ rest"]
  note seq = int_codec.get_enc [OF v'(2), of "br_advance (length (string_bytes (rec_key r))) rd"
      "string_bytes (rec_value r) @ rest"]
  note val = string_codec.get_enc [OF v'(3),
      of "br_advance (length (string_bytes (rec_key r)) + 8) rd" rest]
  show "record_Read rd = Inr (r, br_advance (length (record_bytes r)) rd)"
    using key seq val rest
    by (simp add: record_Read_def record_bytes_def)
qed

subsection \<open>Scan ranges\<close>

record scan_range =
  lower_bound :: "string option"
  upper_bound :: "string option"

definition FullScan :: scan_range where
  "FullScan = \<lparr>lower_bound = None, upper_bound = None\<rparr>"

definition above_lower :: "scan_range \<Rightarrow> string \<Rightarrow> bool" where
  "above_lower rng k \<longleftrightarrow> (case lower_bound rng of None \<Rightarrow> True | Some l \<Rightarrow> l \<le> k)"

definition below_upper :: "scan_range \<Rightarrow> string \<Rightarrow> bool" where
  "below_upper rng k \<longleftrightarrow> (case upper_bound rng of None \<Rightarrow> True | Some u \<Rightarrow> k \<le> u)"

definition in_range :: "scan_range \<Rightarrow> lsm_record \<Rightarrow> bool" where
  "in_range rng r \<longleftrightarrow> above_lower rng (rec_key r) \<and> below_upper rng (rec_key r)"

lemma in_range_FullScan [simp]: "in_range FullScan r"
  by (simp add: in_range_def above_lower_def below_upper_def FullScan_def)

text \<open>
  An iterator over sorted records starts at the first key at or above the lower bound and
  stops at the first key above the upper bound: it yields exactly the records in range.
\<close>

lemma scan_sorted:
  assumes "sorted rs"
  shows "takeWhile (\<lambda>r. below_upper rng (rec_key r))
           (dropWhile (\<lambda>r. \<not> above_lower rng (rec_key r)) rs) = filter (in_range rng) rs"
  using assms
proof (induction rs)
  case (Cons r rs)
  have le: "rec_key r \<le> rec_key x" if "x \<in> set rs" for x
    using Cons.prems that by (auto dest: record_le_key)
  show ?case
  proof (cases "above_lower rng (rec_key r)")
    case True
    then have up: "above_lower rng (rec_key x)" if "x \<in> set rs" for x
      using le [OF that] by (auto simp: above_lower_def split: option.splits)
    then have drop: "dropWhile (\<lambda>r. \<not> above_lower rng (rec_key r)) rs = rs"
      by (cases rs) auto
    show ?thesis
    proof (cases "below_upper rng (rec_key r)")
      case True
      with drop Cons up show ?thesis using \<open>above_lower rng (rec_key r)\<close> by (simp add: in_range_def)
    next
      case False
      then have "\<not> below_upper rng (rec_key x)" if "x \<in> set rs" for x
        using le [OF that] by (auto simp: below_upper_def split: option.splits)
      with False True show ?thesis by (auto simp: in_range_def filter_empty_conv)
    qed
  next
    case False
    with Cons show ?thesis by (simp add: in_range_def)
  qed
qed simp

subsection \<open>Options\<close>

record lsm_options =
  max_records_in_mem_table :: nat
  max_ro_mem_tables :: nat
  page_size :: int
  page_cache_capacity :: nat

definition default_options :: lsm_options where
  "default_options =
     \<lparr>max_records_in_mem_table = 10000, max_ro_mem_tables = 1, page_size = 4096, page_cache_capacity = 1024\<rparr>"

end
