(* ===== verification/Page.thy ===== *)
theory Page
  imports Lsm_Types
begin

section \<open>Pages of an SSTable\<close>

text \<open>
  \<open>src/src/server/lsm/disk/page*\<close>: the page header, the checksum of a page, \<open>PageBuilder\<close>
  and \<open>Page\<close>. The CRC of \<open>boost::crc_32_type\<close> is a parameter \<open>crc\<close> of the definitions
  that use it; no property of it is assumed.
\<close>

type_synonym crc32 = "bytes \<Rightarrow> 32 word"

subsection \<open>Header and checksum\<close>

record page_header =
  ph_count :: int
  ph_checksum :: int

definition PageHeader_SdbSize :: nat where
  "PageHeader_SdbSize = 8 + 8"

definition PageHeader_Write :: "buffer_writer \<Rightarrow> page_header \<Rightarrow> buffer_writer" where
  "PageHeader_Write w h = bw_WriteInt (bw_WriteInt w (ph_count h)) (ph_checksum h)"

definition PageHeader_Read :: "buffer_reader \<Rightarrow> (page_header \<times> buffer_reader) result" where
  "PageHeader_Read rd =
     bindE (br_ReadInt rd) (\<lambda>(count, rd).
     bindE (br_ReadInt rd) (\<lambda>(checksum, rd).
       Inr (\<lparr>ph_count = count, ph_checksum = checksum\<rparr>, rd)))"

definition page_header_bytes :: "page_header \<Rightarrow> bytes" where
  "page_header_bytes h = int64_bytes (ph_count h) @ int64_bytes (ph_checksum h)"

lemma length_page_header_bytes [simp]: "length (page_header_bytes h) = 16"
  by (simp add: page_header_bytes_def)

interpretation page_header_codec: sdb_codec PageHeader_Write PageHeader_Read page_header_bytes
  "\<lambda>h. is_int64 (ph_count h) \<and> is_int64 (ph_checksum h)"
proof unfold_locales
  fix rd rest and h :: page_header
  assume v: "is_int64 (ph_count h) \<and> is_int64 (ph_checksum h)" and rest: "br_rest rd = page_header_bytes h @ rest"
  show "PageHeader_Read rd = Inr (h, br_advance (length (page_header_bytes h)) rd)"
    using int_codec.get_enc [of "ph_count h" rd "int64_bytes (ph_checksum h) @ rest"]
      int_codec.get_enc [of "ph_checksum h" "br_advance 8 rd" rest] v rest
    by (simp add: PageHeader_Read_def page_header_bytes_def)
qed (auto simp: PageHeader_Write_def page_header_bytes_def codec_simps simp flip: length_0_conv)

text \<open>
  \<open>Crc::Result\<close> casts the 32-bit checksum to \<open>int32_t\<close>, \<open>GetPageChecksum\<close> widens it. A
  buffer shorter than a header makes the size of the checksummed part wrap around.
\<close>

definition GetPageChecksum :: "crc32 \<Rightarrow> bytes \<Rightarrow> int result" where
  "GetPageChecksum crc page_buffer =
     (if length page_buffer < PageHeader_SdbSize then Inl OutOfBounds
      else Inr (sint (crc (drop PageHeader_SdbSize page_buffer))))"

subsection \<open>PageBuilder\<close>

record page_builder =
  pb_page_size :: int
  pb_current_page :: bytes
  pb_header :: page_header

definition pb_Clear :: "page_builder \<Rightarrow> page_builder" where
  "pb_Clear pb =
     pb\<lparr>pb_header := \<lparr>ph_count = 0, ph_checksum = 0\<rparr>,
        pb_current_page := replicate PageHeader_SdbSize (CHR 0x00)\<rparr>"

definition PageBuilder :: "int \<Rightarrow> page_builder" where
  "PageBuilder psize =
     pb_Clear \<lparr>pb_page_size = psize, pb_current_page = [], pb_header = \<lparr>ph_count = 0, ph_checksum = 0\<rparr>\<rparr>"

text \<open>\<open>static_cast<size_t>\<close> of a negative page size is a huge number: every record fits.\<close>

definition as_size_t :: "int \<Rightarrow> int" where
  "as_size_t v = v mod 2 ^ 64"

definition pb_IsEnoughSpace :: "page_builder \<Rightarrow> nat \<Rightarrow> bool" where
  "pb_IsEnoughSpace pb record_size \<longleftrightarrow>
     int (length (pb_current_page pb) + record_size) \<le> as_size_t (pb_page_size pb)"

definition pb_AddRecord :: "page_builder \<Rightarrow> bytes \<Rightarrow> page_builder" where
  "pb_AddRecord pb raw =
     pb\<lparr>pb_current_page := pb_current_page pb @ raw,
        pb_header := (pb_header pb)\<lparr>ph_count := ph_count (pb_header pb) + 1\<rparr>\<rparr>"

definition pb_Empty :: "page_builder \<Rightarrow> bool" where
  "pb_Empty pb \<longleftrightarrow> ph_count (pb_header pb) = 0"

definition pb_FlushHeader :: "page_builder \<Rightarrow> page_builder" where
  "pb_FlushHeader pb =
     (let raw = bw_Extract (PageHeader_Write BufferWriter (pb_header pb))
      in pb\<lparr>pb_current_page := raw @ drop (length raw) (pb_current_page pb)\<rparr>)"

definition pb_pad :: "page_builder \<Rightarrow> page_builder" where
  "pb_pad pb =
     (if int (length (pb_current_page pb)) < as_size_t (pb_page_size pb)
      then pb\<lparr>pb_current_page := pb_current_page pb @
             replicate (nat (as_size_t (pb_page_size pb)) - length (pb_current_page pb)) (CHR 0x00)\<rparr>
      else pb)"

definition pb_Extract :: "crc32 \<Rightarrow> page_builder \<Rightarrow> (bytes \<times> page_builder) result" where
  "pb_Extract crc pb =
     (let pb = pb_pad pb
      in bindE (GetPageChecksum crc (pb_current_page pb)) (\<lambda>checksum.
         let pb = pb_FlushHeader (pb\<lparr>pb_header := (pb_header pb)\<lparr>ph_checksum := checksum\<rparr>\<rparr>)
         in Inr (pb_current_page pb, pb\<lparr>pb_current_page := []\<rparr>)))"

subsection \<open>Page\<close>

record page =
  pg_keys :: "string list"
  pg_seq_nos :: "int list"
  pg_values :: "string list"

definition empty_page :: page where
  "empty_page = \<lparr>pg_keys = [], pg_seq_nos = [], pg_values = []\<rparr>"

definition pg_push_back :: "page \<Rightarrow> lsm_record \<Rightarrow> page" where
  "pg_push_back p r =
     p\<lparr>pg_keys := pg_keys p @ [rec_key r],
       pg_seq_nos := pg_seq_nos p @ [rec_seq r],
       pg_values := pg_values p @ [rec_value r]\<rparr>"

fun read_records :: "nat \<Rightarrow> buffer_reader \<Rightarrow> page \<Rightarrow> page result" where
  "read_records 0 rd p = Inr p"
| "read_records (Suc n) rd p =
     bindE (record_Read rd) (\<lambda>(r, rd). read_records n rd (pg_push_back p r))"

text \<open>
  \<open>reserve\<close> refuses a negative count (it is converted to a huge size); the loop of
  \<open>Page::Load\<close> runs \<open>header.count\<close> times.
\<close>

definition Page_Load :: "crc32 \<Rightarrow> bytes \<Rightarrow> page result" where
  "Page_Load crc buffer =
     bindE (GetPageChecksum crc buffer) (\<lambda>checksum.
     bindE (PageHeader_Read (BufferReader buffer)) (\<lambda>(header, reader).
       if checksum \<noteq> ph_checksum header then Inl CurraptedSSTable
       else if ph_count header < 0 then Inl LengthError
       else read_records (nat (ph_count header)) reader empty_page))"

text \<open>\<open>std::ranges::lower_bound\<close> on the keys: the first position whose key is not below.\<close>

definition Page_Find :: "page \<Rightarrow> string \<Rightarrow> int" where
  "Page_Find p key = int (length (takeWhile (\<lambda>k. k < key) (pg_keys p)))"

definition Page_At :: "page \<Rightarrow> int \<Rightarrow> lsm_record result" where
  "Page_At p pos =
     (if 0 \<le> pos \<and> pos < int (length (pg_keys p))
      then Inr (Record (pg_keys p ! nat pos) (pg_seq_nos p ! nat pos) (pg_values p ! nat pos))
      else Inl OutOfBounds)"

definition Page_MinKey :: "page \<Rightarrow> string result" where
  "Page_MinKey p = (if pg_keys p = [] then Inl OutOfBounds else Inr (hd (pg_keys p)))"

definition Page_MaxKey :: "page \<Rightarrow> string result" where
  "Page_MaxKey p = (if pg_keys p = [] then Inl OutOfBounds else Inr (last (pg_keys p)))"

definition Page_Size :: "page \<Rightarrow> int" where
  "Page_Size p = int (length (pg_keys p))"

subsection \<open>The page of a list of records\<close>

definition page_of :: "lsm_record list \<Rightarrow> page" where
  "page_of rs = \<lparr>pg_keys = map rec_key rs, pg_seq_nos = map rec_seq rs, pg_values = map rec_value rs\<rparr>"

definition records_bytes :: "lsm_record list \<Rightarrow> bytes" where
  "records_bytes rs = concat (map record_bytes rs)"

lemma records_bytes_simps [simp]:
  "records_bytes [] = []"
  "records_bytes (r # rs) = record_bytes r @ records_bytes rs"
  "records_bytes (rs @ rs') = records_bytes rs @ records_bytes rs'"
  by (simp_all add: records_bytes_def)

definition page_padding :: "int \<Rightarrow> lsm_record list \<Rightarrow> bytes" where
  "page_padding psize rs = replicate (nat (as_size_t psize) - (16 + length (records_bytes rs))) (CHR 0x00)"

definition page_image :: "crc32 \<Rightarrow> int \<Rightarrow> lsm_record list \<Rightarrow> bytes" where
  "page_image crc psize rs =
     (let payload = records_bytes rs @ page_padding psize rs
      in page_header_bytes \<lparr>ph_count = int (length rs), ph_checksum = sint (crc payload)\<rparr> @ payload)"

lemma length_page_image:
  "length (page_image crc psize rs) = max (nat (as_size_t psize)) (16 + length (records_bytes rs))"
  by (simp add: page_image_def page_padding_def Let_def)

lemma page_of_push_back: "pg_push_back (page_of rs) r = page_of (rs @ [r])"
  by (simp add: pg_push_back_def page_of_def)

lemma page_of_Nil: "page_of [] = empty_page"
  by (simp add: page_of_def empty_page_def)

lemma page_of_simps [simp]:
  "Page_Size (page_of rs) = int (length rs)"
  "rs \<noteq> [] \<Longrightarrow> Page_MaxKey (page_of rs) = Inr (rec_key (last rs))"
  "rs \<noteq> [] \<Longrightarrow> Page_MinKey (page_of rs) = Inr (rec_key (hd rs))"
  "i < length rs \<Longrightarrow> Page_At (page_of rs) (int i) = Inr (rs ! i)"
  by (simp_all add: Page_Size_def Page_MaxKey_def Page_MinKey_def Page_At_def page_of_def last_map hd_map)

lemma Page_Find_page_of: "Page_Find (page_of rs) key = int (length (takeWhile (\<lambda>r. rec_key r < key) rs))"
  by (simp add: Page_Find_def page_of_def takeWhile_map comp_def)

lemma read_records_rest:
  "br_rest rd = records_bytes rs @ rest \<Longrightarrow> list_all valid_record rs \<Longrightarrow>
   read_records (length rs) rd (page_of ps) = Inr (page_of (ps @ rs))"
proof (induction rs arbitrary: rd ps)
  case (Cons r rs)
  from Cons.prems have "record_Read rd = Inr (r, br_advance (length (record_bytes r)) rd)"
    by (intro record_codec.get_enc [where rest = "records_bytes rs @ rest"]) auto
  with Cons show ?case by (simp add: page_of_push_back)
qed simp

lemma is_int64_sint32: "is_int64 (sint (w :: 32 word))"
  using sint_ge [of w] sint_lt [of w] by simp

lemma Page_Load_image:
  assumes valid: "list_all valid_record rs" and len: "length rs < 2 ^ 63"
  shows "Page_Load crc (page_image crc psize rs) = Inr (page_of rs)"
proof -
  let ?payload = "records_bytes rs @ page_padding psize rs"
  let ?h = "\<lparr>ph_count = int (length rs), ph_checksum = sint (crc ?payload)\<rparr>"
  have img: "page_image crc psize rs = page_header_bytes ?h @ ?payload"
    by (simp add: page_image_def Let_def)
  have sum: "GetPageChecksum crc (page_image crc psize rs) = Inr (ph_checksum ?h)"
    by (simp add: GetPageChecksum_def PageHeader_SdbSize_def img)
  have head: "PageHeader_Read (BufferReader (page_image crc psize rs))
      = Inr (?h, br_advance 16 (BufferReader (page_image crc psize rs)))"
    using page_header_codec.get_enc [of ?h "BufferReader (page_image crc psize rs)" ?payload] len
      is_int64_sint32 [of "crc ?payload"]
    by (simp add: img)
  have "read_records (length rs) (br_advance 16 (BufferReader (page_image crc psize rs))) (page_of []) = Inr (page_of rs)"
    using valid by (subst read_records_rest [where rest = "page_padding psize rs"]) (simp_all add: img)
  with sum head show ?thesis by (simp add: Page_Load_def page_of_Nil)
qed

subsection \<open>What PageBuilder builds\<close>

definition pb_rep :: "page_builder \<Rightarrow> int \<Rightarrow> lsm_record list \<Rightarrow> bool" where
  "pb_rep pb psize rs \<longleftrightarrow>
     pb_page_size pb = psize \<and>
     pb_current_page pb = replicate 16 (CHR 0x00) @ records_bytes rs \<and>
     ph_count (pb_header pb) = int (length rs)"

lemma pb_rep_PageBuilder: "pb_rep (PageBuilder psize) psize []"
  by (simp add: pb_rep_def PageBuilder_def pb_Clear_def PageHeader_SdbSize_def)

lemma pb_rep_Clear: "pb_page_size pb = psize \<Longrightarrow> pb_rep (pb_Clear pb) psize []"
  by (simp add: pb_rep_def pb_Clear_def PageHeader_SdbSize_def)

lemma pb_rep_AddRecord:
  "pb_rep pb psize rs \<Longrightarrow> pb_rep (pb_AddRecord pb (record_bytes r)) psize (rs @ [r])"
  by (simp add: pb_rep_def pb_AddRecord_def)

lemma pb_rep_Empty: "pb_rep pb psize rs \<Longrightarrow> pb_Empty pb \<longleftrightarrow> rs = []"
  by (simp add: pb_rep_def pb_Empty_def)

lemma pb_rep_IsEnoughSpace:
  "pb_rep pb psize rs \<Longrightarrow> pb_IsEnoughSpace pb n \<longleftrightarrow> 16 + length (records_bytes rs) + n \<le> nat (as_size_t psize)"
  by (auto simp: pb_rep_def pb_IsEnoughSpace_def le_nat_iff as_size_t_def)

lemma pb_rep_Extract:
  assumes "pb_rep pb psize rs"
  obtains pb' where "pb_Extract crc pb = Inr (page_image crc psize rs, pb')" and "pb_page_size pb' = psize"
proof -
  let ?h = "\<lparr>ph_count = int (length rs), ph_checksum = sint (crc (records_bytes rs @ page_padding psize rs))\<rparr>"
  have pad: "pb_pad pb = pb\<lparr>pb_current_page := replicate 16 (CHR 0x00) @ records_bytes rs @ page_padding psize rs\<rparr>"
    using assms by (auto simp: pb_pad_def pb_rep_def page_padding_def as_size_t_def)
  have hdr: "bw_Extract (PageHeader_Write BufferWriter h) = page_header_bytes h" for h
    by (rule page_header_codec.extract_put)
  show ?thesis
    by (rule that [of "pb\<lparr>pb_header := ((pb_header pb)\<lparr>ph_checksum := ph_checksum ?h\<rparr>), pb_current_page := []\<rparr>"])
      (use assms in \<open>simp_all add: pb_Extract_def pad GetPageChecksum_def PageHeader_SdbSize_def pb_FlushHeader_def
          hdr page_image_def pb_rep_def page_header_bytes_def Let_def\<close>)
qed

end
