(* ===== verification/Io.thy ===== *)
theory Io
  imports Prelude
begin

section \<open>Files\<close>

text \<open>
  \<open>src/src/server/io\<close>: \<open>FileReader\<close>, \<open>FileWriter\<close> and the file operations of \<open>Manager\<close>.
  The disk is an association list from paths to contents. An open reader owns the contents
  it was opened on: files are replaced by unlinking the path and creating a new file
  (\<open>FileWriter::Open\<close> without \<open>append\<close>), which does not touch readers that are already
  open. A write to a regular file is taken to be complete and a read to return as much as
  the file holds, as POSIX has it for regular files. What a writer has written is entered
  under its path by \<open>fw_Close\<close>, which is where the destructor closes the file.
\<close>

type_synonym disk = "(string \<times> bytes) list"

subsection \<open>FileReader\<close>

record file_reader =
  fr_path :: string
  fr_content :: bytes
  fr_pos :: nat

definition fr_Open :: "disk \<Rightarrow> string \<Rightarrow> file_reader result" where
  "fr_Open d path =
     (case map_of d path of
        None \<Rightarrow> Inl NoSuchFile
      | Some content \<Rightarrow> Inr \<lparr>fr_path = path, fr_content = content, fr_pos = 0\<rparr>)"

definition fr_Read :: "file_reader \<Rightarrow> nat \<Rightarrow> (bytes \<times> file_reader) result" where
  "fr_Read fr n =
     (let bs = take n (drop (fr_pos fr) (fr_content fr))
      in if bs = [] \<and> n \<noteq> 0 then Inl EndOfFile
         else Inr (bs, fr\<lparr>fr_pos := fr_pos fr + length bs\<rparr>))"

definition fr_Seek :: "file_reader \<Rightarrow> nat \<Rightarrow> file_reader" where
  "fr_Seek fr pos = fr\<lparr>fr_pos := pos\<rparr>"

lemma fr_Read_at:
  assumes "fr_content fr = pre @ bs @ post" "fr_pos fr = length pre" "bs \<noteq> []" "n = length bs"
  shows "fr_Read fr n = Inr (bs, fr\<lparr>fr_pos := fr_pos fr + n\<rparr>)"
  using assms by (simp add: fr_Read_def)

subsection \<open>FileWriter\<close>

record file_writer =
  fw_path :: string
  fw_content :: bytes
  fw_pos :: nat
  fw_append :: bool

definition fw_Open :: "disk \<Rightarrow> string \<Rightarrow> bool \<Rightarrow> disk \<times> file_writer" where
  "fw_Open d path app =
     (let content = (if app then (case map_of d path of None \<Rightarrow> [] | Some c \<Rightarrow> c) else [])
      in (AList.update path content d,
          \<lparr>fw_path = path, fw_content = content, fw_pos = 0, fw_append = app\<rparr>))"

definition fw_Write :: "file_writer \<Rightarrow> bytes \<Rightarrow> file_writer" where
  "fw_Write fw bs =
     (let pos = (if fw_append fw then length (fw_content fw) else fw_pos fw)
      in fw\<lparr>fw_content := take pos (fw_content fw) @ bs @ drop (pos + length bs) (fw_content fw),
            fw_pos := pos + length bs\<rparr>)"

definition fw_Rewind :: "file_writer \<Rightarrow> file_writer" where
  "fw_Rewind fw = fw\<lparr>fw_pos := 0\<rparr>"

definition fw_Close :: "file_writer \<Rightarrow> disk \<Rightarrow> disk" where
  "fw_Close fw d = AList.update (fw_path fw) (fw_content fw) d"

text \<open>
  A log file is read by others while its writer is still open: after \<open>FSync\<close> what has been
  written is in the file. A file that has been removed in the meantime has no path any more
  and stays removed.
\<close>

definition fw_FSync :: "file_writer \<Rightarrow> disk \<Rightarrow> disk" where
  "fw_FSync fw d = (if fw_path fw \<in> fst ` set d then AList.update (fw_path fw) (fw_content fw) d else d)"

lemma fw_Write_end:
  "fw_pos fw = length (fw_content fw) \<Longrightarrow>
   fw_Write fw bs = fw\<lparr>fw_content := fw_content fw @ bs, fw_pos := fw_pos fw + length bs\<rparr>"
  by (simp add: fw_Write_def)

lemma fw_Write_append:
  "fw_append fw \<Longrightarrow> fw_content (fw_Write fw bs) = fw_content fw @ bs"
  by (simp add: fw_Write_def)

lemma fw_Write_rewound:
  "fw_append fw = False \<Longrightarrow> length bs \<le> length (fw_content fw) \<Longrightarrow>
   fw_content (fw_Write (fw_Rewind fw) bs) = bs @ drop (length bs) (fw_content fw)"
  by (simp add: fw_Write_def fw_Rewind_def)

subsection \<open>Manager\<close>

definition io_Remove :: "disk \<Rightarrow> string \<Rightarrow> disk" where
  "io_Remove d path = AList.delete path d"

definition io_FileSize :: "disk \<Rightarrow> string \<Rightarrow> int" where
  "io_FileSize d path = (case map_of d path of None \<Rightarrow> -1 | Some content \<Rightarrow> int (length content))"

definition in_directory :: "string \<Rightarrow> string \<Rightarrow> bool" where
  "in_directory dir path \<longleftrightarrow>
     take (Suc (length dir)) path = dir @ ''/'' \<and> CHR ''/'' \<notin> set (drop (Suc (length dir)) path)"

definition io_ListDirectory :: "disk \<Rightarrow> string \<Rightarrow> string list" where
  "io_ListDirectory d dir = map (drop (Suc (length dir))) (filter (in_directory dir) (map fst d))"

text \<open>
  Directories are kept apart from files. Inside a table's directory and the log's there are
  only files; the directory of a database also has directories in it.
\<close>

definition io_CreateDirectory :: "string list \<Rightarrow> string \<Rightarrow> string list" where
  "io_CreateDirectory dirs path = List.insert path dirs"

definition io_ListEntries :: "disk \<Rightarrow> string list \<Rightarrow> string \<Rightarrow> string list" where
  "io_ListEntries d dirs dir =
     io_ListDirectory d dir @ map (drop (Suc (length dir))) (filter (in_directory dir) dirs)"

lemma map_of_Close [simp]: "map_of (fw_Close fw d) = (map_of d)(fw_path fw \<mapsto> fw_content fw)"
  unfolding fw_Close_def by (rule update_conv')

lemma map_of_Remove [simp]: "map_of (io_Remove d path) = (map_of d)(path := None)"
  unfolding io_Remove_def by (rule delete_conv')

lemma fw_Open_create:
  "snd (fw_Open d path False) = \<lparr>fw_path = path, fw_content = [], fw_pos = 0, fw_append = False\<rparr>"
  by (simp add: fw_Open_def)

lemma set_ListDirectory:
  "set (io_ListDirectory d dir) = {name. CHR ''/'' \<notin> set name \<and> dir @ ''/'' @ name \<in> fst ` set d}"
proof (intro set_eqI iffI)
  fix name
  assume "name \<in> set (io_ListDirectory d dir)"
  then obtain p where p: "p \<in> fst ` set d" "in_directory dir p" "name = drop (Suc (length dir)) p"
    by (auto simp: io_ListDirectory_def)
  then have "dir @ ''/'' @ name = p" and noslash: "CHR ''/'' \<notin> set name"
    using append_take_drop_id [of "Suc (length dir)" p] by (simp_all add: in_directory_def)
  with p(1) show "name \<in> {name. CHR ''/'' \<notin> set name \<and> dir @ ''/'' @ name \<in> fst ` set d}"
    by simp
next
  fix name
  assume "name \<in> {name. CHR ''/'' \<notin> set name \<and> dir @ ''/'' @ name \<in> fst ` set d}"
  then have "in_directory dir (dir @ ''/'' @ name)" "dir @ ''/'' @ name \<in> set (map fst d)"
    by (auto simp: in_directory_def)
  then show "name \<in> set (io_ListDirectory d dir)"
    by (force simp: io_ListDirectory_def image_iff intro!: bexI [of _ "dir @ ''/'' @ name"])
qed

end
