(* ===== verification/Lru_Cache.thy ===== *)
theory Lru_Cache
  imports Prelude
begin

section \<open>The LRU cache\<close>

text \<open>
  \<open>src/src/server/cache/lru_cache.hpp\<close>. The doubly linked list \<open>entries_\<close> is a store of
  nodes with the order of their addresses (most recently used first), and the hash map
  \<open>index_\<close> an association list from keys to node addresses: a list iterator is the address
  of its node, which \<open>splice\<close> keeps. The abstract cache is the list of entries in order of
  use; \<open>Get\<close>, \<open>Put\<close> and \<open>Clear\<close> refine the operations on that list.
\<close>

record ('k, 'v) lru_cache =
  entries :: "nat list"
  nodes :: "nat \<rightharpoonup> 'k \<times> 'v"
  fresh :: nat
  index :: "('k \<times> nat) list"
  capacity :: nat

definition LruCache :: "nat \<Rightarrow> ('k, 'v) lru_cache" where
  "LruCache cap = \<lparr>entries = [], nodes = Map.empty, fresh = 0, index = [], capacity = cap\<rparr>"

definition splice_front :: "nat \<Rightarrow> ('k, 'v) lru_cache \<Rightarrow> ('k, 'v) lru_cache" where
  "splice_front n c = c\<lparr>entries := n # remove1 n (entries c)\<rparr>"

definition lru_Get :: "('k, 'v) lru_cache \<Rightarrow> 'k \<Rightarrow> 'v option \<times> ('k, 'v) lru_cache" where
  "lru_Get c key =
     (case map_of (index c) key of
        None \<Rightarrow> (None, c)
      | Some it \<Rightarrow> (map_option snd (nodes c it), splice_front it c))"

definition emplace_front :: "'k \<Rightarrow> 'v \<Rightarrow> ('k, 'v) lru_cache \<Rightarrow> ('k, 'v) lru_cache" where
  "emplace_front key v c =
     c\<lparr>entries := fresh c # entries c,
       nodes := (nodes c)(fresh c \<mapsto> (key, v)),
       fresh := Suc (fresh c),
       index := AList.update key (fresh c) (index c)\<rparr>"

definition evict_back :: "('k, 'v) lru_cache \<Rightarrow> ('k, 'v) lru_cache" where
  "evict_back c =
     (case nodes c (last (entries c)) of
        None \<Rightarrow> c
      | Some (key, _) \<Rightarrow>
          c\<lparr>index := AList.delete key (index c),
            nodes := (nodes c)(last (entries c) := None),
            entries := butlast (entries c)\<rparr>)"

definition lru_Put :: "('k, 'v) lru_cache \<Rightarrow> 'k \<Rightarrow> 'v \<Rightarrow> ('k, 'v) lru_cache" where
  "lru_Put c key v =
     (if capacity c = 0 then c
      else case map_of (index c) key of
        Some it \<Rightarrow>
          splice_front it (c\<lparr>nodes := (nodes c)(it := map_option (\<lambda>(k, _). (k, v)) (nodes c it))\<rparr>)
      | None \<Rightarrow>
          let c = emplace_front key v c
          in if length (index c) > capacity c then evict_back c else c)"

definition lru_Contains :: "('k, 'v) lru_cache \<Rightarrow> 'k \<Rightarrow> bool" where
  "lru_Contains c key \<longleftrightarrow> map_of (index c) key \<noteq> None"

definition lru_Size :: "('k, 'v) lru_cache \<Rightarrow> nat" where
  "lru_Size c = length (index c)"

definition lru_Clear :: "('k, 'v) lru_cache \<Rightarrow> ('k, 'v) lru_cache" where
  "lru_Clear c = c\<lparr>entries := [], nodes := Map.empty, index := []\<rparr>"

subsection \<open>The abstract cache and the invariant\<close>

definition lru_abs :: "('k, 'v) lru_cache \<Rightarrow> ('k \<times> 'v) list" where
  "lru_abs c = map (\<lambda>n. the (nodes c n)) (entries c)"

definition lru_inv :: "('k, 'v) lru_cache \<Rightarrow> bool" where
  "lru_inv c \<longleftrightarrow>
     distinct (entries c) \<and>
     dom (nodes c) = set (entries c) \<and>
     (\<forall>n \<in> set (entries c). n < fresh c) \<and>
     distinct (map fst (index c)) \<and>
     (\<forall>k n. map_of (index c) k = Some n \<longleftrightarrow> (\<exists>v. nodes c n = Some (k, v))) \<and>
     length (index c) = length (entries c) \<and>
     length (entries c) \<le> capacity c"

definition spec_get :: "'k \<Rightarrow> ('k \<times> 'v) list \<Rightarrow> 'v option \<times> ('k \<times> 'v) list" where
  "spec_get k l =
     (case map_of l k of
        None \<Rightarrow> (None, l)
      | Some v \<Rightarrow> (Some v, (k, v) # filter (\<lambda>e. fst e \<noteq> k) l))"

definition spec_put :: "nat \<Rightarrow> 'k \<Rightarrow> 'v \<Rightarrow> ('k \<times> 'v) list \<Rightarrow> ('k \<times> 'v) list" where
  "spec_put cap k v l = take cap ((k, v) # filter (\<lambda>e. fst e \<noteq> k) l)"

lemma lru_inv_LruCache [simp]: "lru_inv (LruCache cap)"
  by (simp add: lru_inv_def LruCache_def)

lemma lru_abs_LruCache [simp]: "lru_abs (LruCache cap) = []"
  by (simp add: lru_abs_def LruCache_def)

lemma length_lru_abs: "length (lru_abs c) = length (entries c)"
  by (simp add: lru_abs_def)

lemma lru_inv_Clear: "lru_inv (lru_Clear c)"
  by (simp add: lru_inv_def lru_Clear_def)

lemma lru_inv_nodesD:
  assumes "lru_inv c" "n \<in> set (entries c)"
  obtains k v where "nodes c n = Some (k, v)" "map_of (index c) k = Some n"
  using assms unfolding lru_inv_def by (metis domIff old.prod.exhaust option.exhaust)

lemma lru_inv_indexD:
  assumes "lru_inv c" "map_of (index c) k = Some n"
  obtains v where "nodes c n = Some (k, v)" "n \<in> set (entries c)"
  using assms unfolding lru_inv_def by (metis domI)

lemma lru_inv_index_iff:
  "lru_inv c \<Longrightarrow> map_of (index c) k = Some n \<longleftrightarrow> (\<exists>v. nodes c n = Some (k, v))"
  unfolding lru_inv_def by blast

lemma lru_distinct_keys:
  assumes "lru_inv c"
  shows "distinct (map fst (lru_abs c))"
proof -
  have "inj_on (\<lambda>n. fst (the (nodes c n))) (set (entries c))"
  proof (rule inj_onI)
    fix n m
    assume nm: "n \<in> set (entries c)" "m \<in> set (entries c)"
      and eq: "fst (the (nodes c n)) = fst (the (nodes c m))"
    from assms nm(1) obtain k v where n: "nodes c n = Some (k, v)" "map_of (index c) k = Some n"
      by (rule lru_inv_nodesD)
    from assms nm(2) obtain k' v' where m: "nodes c m = Some (k', v')" "map_of (index c) k' = Some m"
      by (rule lru_inv_nodesD)
    from eq n m show "n = m" by simp
  qed
  with assms show ?thesis
    by (simp add: lru_abs_def distinct_map lru_inv_def comp_def)
qed

text \<open>The entries with another key are the entries of the other nodes.\<close>

lemma lru_other_entries:
  assumes "lru_inv c" "nodes c n = Some (k, v)"
  shows "map (\<lambda>m. the (nodes c m)) (remove1 n (entries c)) = filter (\<lambda>e. fst e \<noteq> k) (lru_abs c)"
proof -
  have key: "fst (the (nodes c m)) \<noteq> k \<longleftrightarrow> m \<noteq> n" if "m \<in> set (entries c)" for m
  proof -
    from assms(1) that obtain k' v' where m: "nodes c m = Some (k', v')" "map_of (index c) k' = Some m"
      by (rule lru_inv_nodesD)
    have "map_of (index c) k = Some n" using assms by (simp only: lru_inv_index_iff) blast
    with m assms(2) show ?thesis by auto
  qed
  have "remove1 n (entries c) = filter (\<lambda>m. m \<noteq> n) (entries c)"
    using assms(1)
    by (auto simp: lru_inv_def distinct_remove1_removeAll removeAll_filter_not_eq intro: filter_cong)
  also have "\<dots> = filter (\<lambda>m. fst (the (nodes c m)) \<noteq> k) (entries c)"
    using key by (intro filter_cong) auto
  finally show ?thesis by (simp add: lru_abs_def filter_map comp_def)
qed

lemma lru_lookup:
  assumes "lru_inv c"
  shows "map_of (lru_abs c) k = (case map_of (index c) k of None \<Rightarrow> None | Some n \<Rightarrow> map_option snd (nodes c n))"
proof (cases "map_of (index c) k")
  case None
  have "k \<notin> fst ` set (lru_abs c)"
  proof
    assume "k \<in> fst ` set (lru_abs c)"
    then obtain n where "n \<in> set (entries c)" "k = fst (the (nodes c n))"
      by (auto simp: lru_abs_def)
    with None show False by (auto elim!: lru_inv_nodesD [OF assms])
  qed
  then have "map_of (lru_abs c) k = None" by (simp add: map_of_eq_None_iff)
  then show ?thesis by (simp only: None option.case)
next
  case (Some n)
  from assms Some obtain v where v: "nodes c n = Some (k, v)" "n \<in> set (entries c)"
    by (rule lru_inv_indexD)
  then have "(k, v) \<in> set (lru_abs c)" by (force simp: lru_abs_def)
  with lru_distinct_keys [OF assms] have "map_of (lru_abs c) k = Some v" by (rule map_of_is_SomeI)
  with Some v show ?thesis by simp
qed

lemma lru_Contains_iff: "lru_inv c \<Longrightarrow> lru_Contains c k \<longleftrightarrow> k \<in> fst ` set (lru_abs c)"
proof -
  assume inv: "lru_inv c"
  have "lru_Contains c k \<longleftrightarrow> map_of (lru_abs c) k \<noteq> None"
    by (auto simp: lru_Contains_def lru_lookup [OF inv] split: option.split
        dest: lru_inv_index_iff [OF inv, THEN iffD1])
  then show ?thesis by (simp add: map_of_eq_None_iff)
qed

lemma lru_Size_abs: "lru_inv c \<Longrightarrow> lru_Size c = length (lru_abs c)"
  by (simp add: lru_Size_def lru_abs_def lru_inv_def)

subsection \<open>Refinement\<close>

lemma lru_inv_splice_front:
  assumes inv: "lru_inv c" and n: "n \<in> set (entries c)"
  shows "lru_inv (splice_front n c)"
  using assms distinct_remove1 [of "entries c" n]
  by (auto simp: lru_inv_def splice_front_def length_remove1 Suc_diff_le dest: length_pos_if_in_set)

lemma lru_abs_splice_front:
  assumes "lru_inv c" "nodes c n = Some (k, v)"
  shows "lru_abs (splice_front n c) = (k, v) # filter (\<lambda>e. fst e \<noteq> k) (lru_abs c)"
  using lru_other_entries [OF assms] assms(2) by (simp add: lru_abs_def splice_front_def)

lemma lru_Get_refines:
  assumes inv: "lru_inv c"
  shows "fst (lru_Get c k) = fst (spec_get k (lru_abs c))"
    and "lru_abs (snd (lru_Get c k)) = snd (spec_get k (lru_abs c))"
    and "lru_inv (snd (lru_Get c k))"
    and "capacity (snd (lru_Get c k)) = capacity c"
proof -
  have "fst (lru_Get c k) = fst (spec_get k (lru_abs c)) \<and>
    lru_abs (snd (lru_Get c k)) = snd (spec_get k (lru_abs c)) \<and>
    lru_inv (snd (lru_Get c k)) \<and> capacity (snd (lru_Get c k)) = capacity c"
  proof (cases "map_of (index c) k")
    case None
    then have "map_of (lru_abs c) k = None" by (simp only: lru_lookup [OF inv] option.case)
    then show ?thesis using inv by (simp only: lru_Get_def spec_get_def None option.case fst_conv snd_conv simp_thms)
  next
    case (Some n)
    from inv Some obtain v where v: "nodes c n = Some (k, v)" "n \<in> set (entries c)"
      by (rule lru_inv_indexD)
    with Some have "map_of (lru_abs c) k = Some v"
      by (simp only: lru_lookup [OF inv] option.case) simp
    with Some v show ?thesis
      by (simp add: lru_Get_def spec_get_def lru_abs_splice_front [OF inv v(1)] lru_inv_splice_front [OF inv v(2)]
          del: map_of_eq_Some_iff) (simp add: splice_front_def)
  qed
  then show "fst (lru_Get c k) = fst (spec_get k (lru_abs c))"
    and "lru_abs (snd (lru_Get c k)) = snd (spec_get k (lru_abs c))"
    and "lru_inv (snd (lru_Get c k))" and "capacity (snd (lru_Get c k)) = capacity c"
    by blast+
qed

text \<open>Overwriting the value of a node, as \<open>Put\<close> does on a key it holds.\<close>

lemma lru_overwrite:
  fixes c :: "('k, 'v) lru_cache" and v :: 'v
  assumes inv: "lru_inv c" and n: "nodes c n = Some (k, w)"
  defines "c' \<equiv> c\<lparr>nodes := (nodes c)(n \<mapsto> (k, v))\<rparr>"
  shows "lru_inv c'" and "filter (\<lambda>e. fst e \<noteq> k) (lru_abs c') = filter (\<lambda>e. fst e \<noteq> k) (lru_abs c)"
proof -
  show inv': "lru_inv c'"
    using inv n unfolding lru_inv_def c'_def by (auto simp: fun_upd_def dom_def)
  have "nodes c' n = Some (k, v)" by (simp add: c'_def)
  from lru_other_entries [OF inv' this] lru_other_entries [OF inv n]
  have "filter (\<lambda>e. fst e \<noteq> k) (lru_abs c') = map (\<lambda>m. the (nodes c' m)) (remove1 n (entries c))"
    and "filter (\<lambda>e. fst e \<noteq> k) (lru_abs c) = map (\<lambda>m. the (nodes c m)) (remove1 n (entries c))"
    by (simp_all add: c'_def)
  moreover have "n \<notin> set (remove1 n (entries c))"
    using inv by (simp add: lru_inv_def)
  ultimately show "filter (\<lambda>e. fst e \<noteq> k) (lru_abs c') = filter (\<lambda>e. fst e \<noteq> k) (lru_abs c)"
    by (auto simp: c'_def intro!: map_cong)
qed

text \<open>A new node at the front, before the eviction: the invariant but for the capacity.\<close>

definition lru_inv_upto :: "nat \<Rightarrow> ('k, 'v) lru_cache \<Rightarrow> bool" where
  "lru_inv_upto cap c \<longleftrightarrow> lru_inv (c\<lparr>capacity := cap\<rparr>)"

lemma emplace_front_props:
  assumes inv: "lru_inv c" and new: "map_of (index c) k = None"
  shows "lru_inv_upto (Suc (capacity c)) (emplace_front k v c)"
    and "lru_abs (emplace_front k v c) = (k, v) # lru_abs c"
    and "length (index (emplace_front k v c)) = Suc (length (lru_abs c))"
proof -
  have fr: "fresh c \<notin> set (entries c)" using inv by (auto simp: lru_inv_def)
  then have nn: "nodes c (fresh c) = None" using inv by (auto simp: lru_inv_def)
  have nk: "nodes c n \<noteq> Some (k, w)" for n w
    using new lru_inv_index_iff [OF inv] by (metis option.distinct(1))
  have len: "length (AList.update k (fresh c) (index c)) = Suc (length (index c))"
    using new by (rule length_AList_update)
  have idx: "map_of (AList.update k (fresh c) (index c)) = (map_of (index c))(k \<mapsto> fresh c)"
    by (rule update_conv')
  have "map_of (AList.update k (fresh c) (index c)) k' = Some m
      \<longleftrightarrow> (\<exists>w. ((nodes c)(fresh c \<mapsto> (k, v))) m = Some (k', w))" for k' m
    using nn nk lru_inv_index_iff [OF inv, of k' m] by (cases "k' = k"; cases "m = fresh c") (auto simp: idx)
  moreover have "distinct (map fst (AList.update k (fresh c) (index c)))"
    using inv by (simp add: lru_inv_def distinct_update)
  moreover have "\<forall>n \<in> set (entries c). n < Suc (fresh c)"
    using inv by (auto simp: lru_inv_def less_SucI)
  ultimately show "lru_inv_upto (Suc (capacity c)) (emplace_front k v c)"
    using inv fr len by (simp add: lru_inv_upto_def lru_inv_def emplace_front_def)
  show "lru_abs (emplace_front k v c) = (k, v) # lru_abs c"
    using fr by (auto simp: lru_abs_def emplace_front_def)
  show "length (index (emplace_front k v c)) = Suc (length (lru_abs c))"
    using inv len by (simp add: emplace_front_def lru_abs_def lru_inv_def)
qed

lemma evict_back_props:
  assumes inv: "lru_inv_upto cap c" and ne: "entries c \<noteq> []"
  shows "lru_inv_upto (cap - 1) (evict_back c)"
    and "lru_abs (evict_back c) = butlast (lru_abs c)"
proof -
  let ?n = "last (entries c)" and ?c = "c\<lparr>capacity := cap\<rparr>"
  have inv': "lru_inv ?c" using inv by (simp add: lru_inv_upto_def)
  have "?n \<in> set (entries ?c)" using ne by simp
  with inv' obtain k v where n: "nodes c ?n = Some (k, v)" "map_of (index c) k = Some ?n"
    by (auto elim!: lru_inv_nodesD)
  have ev: "evict_back c = c\<lparr>index := AList.delete k (index c),
      nodes := (nodes c)(?n := None), entries := butlast (entries c)\<rparr>"
    using n by (simp add: evict_back_def)
  have split: "butlast (entries c) @ [?n] = entries c" using ne by simp
  have "distinct (butlast (entries c) @ [?n])" using inv' by (simp only: split) (simp add: lru_inv_def)
  then have last: "?n \<notin> set (butlast (entries c))" and dist: "distinct (butlast (entries c))" by auto
  have "set (entries c) = insert ?n (set (butlast (entries c)))"
    by (subst split [symmetric]) simp
  with last have ent: "set (butlast (entries c)) = set (entries c) - {?n}" by auto
  have nk: "m = ?n" if "nodes c m = Some (k, w)" for m w
    using n(2) that lru_inv_index_iff [OF inv', of k m] by simp
  have len: "Suc (length (AList.delete k (index c))) = length (entries c)"
    using length_AList_delete [OF _ n(2)] inv' by (simp add: lru_inv_def)
  have idx: "map_of (AList.delete k (index c)) = (map_of (index c))(k := None)"
    by (rule delete_conv')
  have "map_of (AList.delete k (index c)) k' = Some m \<longleftrightarrow> (\<exists>w. ((nodes c)(?n := None)) m = Some (k', w))" for k' m
    using n lru_inv_index_iff [OF inv', of k' m]
    by (cases "k' = k"; cases "m = ?n") (auto simp: idx dest: nk)
  moreover have "dom ((nodes c)(?n := None)) = set (butlast (entries c))"
    using inv' ent by (simp add: lru_inv_def)
  moreover have "distinct (map fst (AList.delete k (index c)))"
    using inv' by (simp add: lru_inv_def distinct_delete)
  ultimately show "lru_inv_upto (cap - 1) (evict_back c)"
    using inv' ent len dist by (simp add: lru_inv_upto_def lru_inv_def ev) arith
  show "lru_abs (evict_back c) = butlast (lru_abs c)"
    using last by (auto simp: ev lru_abs_def simp flip: map_butlast intro!: map_cong)
qed

lemma lru_Put_new:
  assumes inv: "lru_inv c" and pos: "capacity c \<noteq> 0" and new: "map_of (index c) k = None"
  shows "lru_abs (lru_Put c k v) = spec_put (capacity c) k v (lru_abs c) \<and> lru_inv (lru_Put c k v)
    \<and> capacity (lru_Put c k v) = capacity c"
proof -
  let ?c = "emplace_front k v c"
  note e = emplace_front_props [OF inv new, of v]
  have cap: "capacity ?c = capacity c" by (simp add: emplace_front_def)
  have "k \<notin> fst ` set (lru_abs c)"
    using new lru_Contains_iff [OF inv, of k] by (simp add: lru_Contains_def)
  then have others: "filter (\<lambda>e. fst e \<noteq> k) (lru_abs c) = lru_abs c"
    by (auto simp: filter_id_conv image_iff)
  show ?thesis
  proof (cases "length (lru_abs c) < capacity c")
    case True
    then have "lru_Put c k v = ?c" using pos new e(3) cap by (simp add: lru_Put_def)
    moreover have "length (entries ?c) \<le> capacity ?c"
      using True cap by (simp add: length_lru_abs [symmetric] e(2))
    then have "lru_inv ?c" using e(1) by (simp add: lru_inv_upto_def lru_inv_def)
    ultimately show ?thesis using e(2) True cap by (simp add: spec_put_def others)
  next
    case False
    then have full: "length (lru_abs c) = capacity c"
      using inv by (simp add: lru_inv_def lru_abs_def)
    then have put: "lru_Put c k v = evict_back ?c" using pos new e(3) cap by (simp add: lru_Put_def)
    have "entries ?c \<noteq> []" by (simp add: emplace_front_def)
    note ev = evict_back_props [OF e(1) this]
    have cap': "capacity (evict_back ?c) = capacity c"
      using cap by (simp add: evict_back_def split: option.split prod.split)
    then have "lru_inv (evict_back ?c)" using ev(1) by (simp add: lru_inv_upto_def lru_inv_def)
    then show ?thesis using ev(2) e(2) full pos cap'
      by (simp add: put spec_put_def others butlast_conv_take take_Cons')
  qed
qed

lemma lru_Put_held:
  assumes inv: "lru_inv c" and pos: "capacity c \<noteq> 0" and held: "map_of (index c) k = Some n"
  shows "lru_abs (lru_Put c k v) = spec_put (capacity c) k v (lru_abs c) \<and> lru_inv (lru_Put c k v)
    \<and> capacity (lru_Put c k v) = capacity c"
proof -
  from inv held obtain w where w: "nodes c n = Some (k, w)" "n \<in> set (entries c)"
    by (rule lru_inv_indexD)
  let ?c = "c\<lparr>nodes := (nodes c)(n \<mapsto> (k, v))\<rparr>"
  note over = lru_overwrite [OF inv w(1), of v]
  have put: "lru_Put c k v = splice_front n ?c"
    using pos held w by (simp add: lru_Put_def del: map_of_eq_Some_iff)
  have len: "length (lru_abs c) \<le> capacity c" using inv by (simp add: lru_inv_def lru_abs_def)
  have "k \<in> fst ` set (lru_abs c)"
    using held lru_Contains_iff [OF inv, of k] by (simp add: lru_Contains_def del: map_of_eq_Some_iff)
  from filter_other_keys_length [OF lru_distinct_keys [OF inv] this] len
  have "length ((k, v) # filter (\<lambda>e. fst e \<noteq> k) (lru_abs c)) \<le> capacity c" by simp
  moreover have "lru_abs (splice_front n ?c) = (k, v) # filter (\<lambda>e. fst e \<noteq> k) (lru_abs c)"
    using lru_abs_splice_front [OF over(1), of n k v] over(2) by simp
  moreover have "lru_inv (splice_front n ?c)" using lru_inv_splice_front [OF over(1)] w(2) by simp
  moreover have "capacity (splice_front n ?c) = capacity c" by (simp add: splice_front_def)
  ultimately show ?thesis by (simp add: put spec_put_def)
qed

lemma lru_Put_refines:
  assumes inv: "lru_inv c"
  shows "lru_abs (lru_Put c k v) = spec_put (capacity c) k v (lru_abs c) \<and> lru_inv (lru_Put c k v)
    \<and> capacity (lru_Put c k v) = capacity c"
proof (cases "capacity c = 0")
  case True
  with inv show ?thesis by (simp add: lru_Put_def spec_put_def lru_inv_def lru_abs_def)
next
  case False
  then show ?thesis
    using lru_Put_new [OF inv False] lru_Put_held [OF inv False] by (cases "map_of (index c) k") blast+
qed

subsection \<open>The contract of a cache in front of a loader\<close>

text \<open>
  What \<open>SSTable::GetPage\<close> relies on: \<open>get\<close> answers with what is cached and caches nothing
  else, \<open>put\<close> adds at most the new entry. A cache is coherent with a loader when everything
  it holds is what the loader returns.
\<close>

locale read_cache =
  fixes get :: "'c \<Rightarrow> 'k \<Rightarrow> 'v option \<times> 'c"
    and put :: "'c \<Rightarrow> 'k \<Rightarrow> 'v \<Rightarrow> 'c"
    and lookup :: "'c \<Rightarrow> 'k \<rightharpoonup> 'v"
    and invar :: "'c \<Rightarrow> bool"
  assumes get_result: "invar c \<Longrightarrow> fst (get c k) = lookup c k"
    and get_lookup: "invar c \<Longrightarrow> lookup (snd (get c k)) = lookup c"
    and get_invar: "invar c \<Longrightarrow> invar (snd (get c k))"
    and put_lookup: "invar c \<Longrightarrow> lookup (put c k v) \<subseteq>\<^sub>m (lookup c)(k \<mapsto> v)"
    and put_invar: "invar c \<Longrightarrow> invar (put c k v)"
begin

definition coherent :: "('k \<Rightarrow> 'v result) \<Rightarrow> 'c \<Rightarrow> bool" where
  "coherent load c \<longleftrightarrow> invar c \<and> (\<forall>k v. lookup c k = Some v \<longrightarrow> load k = Inr v)"

lemma get_coherent:
  assumes "coherent load c" "get c k = (r, c')"
  shows "coherent load c'" and "r = Some v \<Longrightarrow> load k = Inr v"
proof -
  have inv: "invar c" using assms(1) by (simp add: coherent_def)
  from get_result [OF inv, of k] get_lookup [OF inv, of k] get_invar [OF inv, of k] assms
  show "coherent load c'" and "r = Some v \<Longrightarrow> load k = Inr v"
    by (auto simp: coherent_def)
qed

lemma put_coherent:
  assumes "coherent load c" "load k = Inr v"
  shows "coherent load (put c k v)"
proof -
  have inv: "invar c" using assms(1) by (simp add: coherent_def)
  have "load k' = Inr v'" if "lookup (put c k v) k' = Some v'" for k' v'
  proof -
    have "((lookup c)(k \<mapsto> v)) k' = Some v'"
      using put_lookup [OF inv, of k v] that unfolding map_le_def by (metis domI)
    with assms show ?thesis by (auto simp: coherent_def split: if_splits)
  qed
  with put_invar [OF inv] show ?thesis by (simp add: coherent_def)
qed

end

lemma spec_get_lookup: "map_of (snd (spec_get k l)) = map_of l"
proof (rule ext)
  fix j
  have "map_of (filter (\<lambda>e. fst e \<noteq> k) l) j = map_of l j" if "j \<noteq> k"
    using that by (induction l) auto
  then show "map_of (snd (spec_get k l)) j = map_of l j"
    by (auto simp: spec_get_def split: option.split)
qed

lemma map_of_take_le: "distinct (map fst l) \<Longrightarrow> map_of (take n l) \<subseteq>\<^sub>m map_of l"
proof -
  assume d: "distinct (map fst l)"
  then have "distinct (map fst (take n l))" by (simp add: take_map [symmetric])
  with d show ?thesis
    by (auto simp: map_le_def dom_def dest: in_set_takeD)
qed

lemma distinct_keys_filter: "distinct (map fst l) \<Longrightarrow> distinct (map fst ((k, v) # filter (\<lambda>e. fst e \<noteq> k) l))"
  by (induction l) auto

lemma spec_put_lookup:
  assumes "distinct (map fst l)"
  shows "map_of (spec_put cap k v l) \<subseteq>\<^sub>m (map_of l)(k \<mapsto> v)"
proof -
  have "map_of (filter (\<lambda>e. fst e \<noteq> k) l) j = map_of l j" if "j \<noteq> k" for j
    using that by (induction l) auto
  then have "map_of ((k, v) # filter (\<lambda>e. fst e \<noteq> k) l) = (map_of l)(k \<mapsto> v)" by auto
  then show ?thesis
    using map_of_take_le [OF distinct_keys_filter [OF assms], of cap k v] by (simp add: spec_put_def)
qed

interpretation lru: read_cache lru_Get lru_Put "\<lambda>c. map_of (lru_abs c)" lru_inv
proof unfold_locales
  fix c :: "('k, 'v) lru_cache" and k v
  assume inv: "lru_inv c"
  show "fst (lru_Get c k) = map_of (lru_abs c) k"
    by (simp add: lru_Get_refines [OF inv] spec_get_def split: option.split)
  show "map_of (lru_abs (snd (lru_Get c k))) = map_of (lru_abs c)"
    by (simp add: lru_Get_refines [OF inv] spec_get_lookup)
  show "lru_inv (snd (lru_Get c k))" by (rule lru_Get_refines [OF inv])
  show "map_of (lru_abs (lru_Put c k v)) \<subseteq>\<^sub>m (map_of (lru_abs c))(k \<mapsto> v)"
    using lru_Put_refines [OF inv, of k v] spec_put_lookup [OF lru_distinct_keys [OF inv]] by metis
  show "lru_inv (lru_Put c k v)" using lru_Put_refines [OF inv] by blast
qed

subsection \<open>Runs\<close>

datatype ('k, 'v) cache_op = OpGet 'k | OpPut 'k 'v | OpClear

fun lru_step :: "('k, 'v) lru_cache \<Rightarrow> ('k, 'v) cache_op \<Rightarrow> 'v option \<times> ('k, 'v) lru_cache" where
  "lru_step c (OpGet k) = lru_Get c k"
| "lru_step c (OpPut k v) = (None, lru_Put c k v)"
| "lru_step c OpClear = (None, lru_Clear c)"

fun spec_step :: "nat \<Rightarrow> ('k \<times> 'v) list \<Rightarrow> ('k, 'v) cache_op \<Rightarrow> 'v option \<times> ('k \<times> 'v) list" where
  "spec_step cap l (OpGet k) = spec_get k l"
| "spec_step cap l (OpPut k v) = (None, spec_put cap k v l)"
| "spec_step cap l OpClear = (None, [])"

fun run :: "('s \<Rightarrow> 'op \<Rightarrow> 'r \<times> 's) \<Rightarrow> 's \<Rightarrow> 'op list \<Rightarrow> 'r list \<times> 's" where
  "run step s [] = ([], s)"
| "run step s (x # xs) = (let (r, s') = step s x; (rs, s'') = run step s' xs in (r # rs, s''))"

lemma lru_step_refines:
  assumes "lru_inv c"
  shows "fst (lru_step c x) = fst (spec_step (capacity c) (lru_abs c) x) \<and>
    lru_abs (snd (lru_step c x)) = snd (spec_step (capacity c) (lru_abs c) x) \<and>
    lru_inv (snd (lru_step c x)) \<and> capacity (snd (lru_step c x)) = capacity c"
  using lru_Get_refines [OF assms] lru_Put_refines [OF assms]
  by (cases x) (auto simp: lru_inv_Clear, auto simp: lru_Clear_def lru_abs_def)

lemma lru_run_refines:
  assumes "lru_inv c"
  shows "fst (run lru_step c ops) = fst (run (spec_step (capacity c)) (lru_abs c) ops) \<and>
    lru_abs (snd (run lru_step c ops)) = snd (run (spec_step (capacity c)) (lru_abs c) ops) \<and>
    lru_inv (snd (run lru_step c ops)) \<and> capacity (snd (run lru_step c ops)) = capacity c"
  using assms
proof (induction ops arbitrary: c)
  case (Cons x ops)
  note s = lru_step_refines [OF Cons.prems, of x]
  then show ?case
    using Cons.IH [of "snd (lru_step c x)"] by (simp add: split_beta Let_def)
qed simp

text \<open>
  C22. Whatever sequence of \<open>Get\<close>, \<open>Put\<close> and \<open>Clear\<close> a fresh cache sees, the linked
  list with its hash index answers as the list of entries in order of use does, ends with
  the same entries in the same order, and never holds more than its capacity.
\<close>

theorem lru_cache_refines_usage_list:
  "fst (run lru_step (LruCache cap) ops) = fst (run (spec_step cap) [] ops) \<and>
   lru_abs (snd (run lru_step (LruCache cap) ops)) = snd (run (spec_step cap) [] ops) \<and>
   lru_Size (snd (run lru_step (LruCache cap) ops)) \<le> cap"
proof -
  have cap: "capacity (LruCache cap) = cap" by (simp add: LruCache_def)
  note r = lru_run_refines [OF lru_inv_LruCache, of cap ops]
  then have "lru_Size (snd (run lru_step (LruCache cap) ops)) \<le> cap"
    unfolding lru_Size_def lru_inv_def cap by simp
  with r show ?thesis by (simp add: cap)
qed

end
