(* ===== verification/SSTable.thy ===== *)
theory SSTable
  imports Page Io Lru_Cache
begin

section \<open>SSTables\<close>

text \<open>
  \<open>src/src/server/lsm/disk/ss_table_header\<close>, \<open>disk/ss_table_builder\<close> and \<open>ss_table\<close>: the
  header of an SSTable file, the builder that writes a file page by page, and the open table
  with its page cache and the binary search over its pages. A failed \<open>assert\<close> is the error
  \<open>AssertionFailed\<close>.
\<close>

subsection \<open>Header\<close>

record ss_table_header =
  sh_page_size :: int
  sh_page_count :: int
  sh_max_seq_no :: int

definition SSTableHeader_SdbSize :: nat where
  "SSTableHeader_SdbSize = 8 + 8 + 8"

definition SSTableHeader_Write :: "buffer_writer \<Rightarrow> ss_table_header \<Rightarrow> buffer_writer" where
  "SSTableHeader_Write w h =
     bw_WriteInt (bw_WriteInt (bw_WriteInt w (sh_page_size h)) (sh_page_count h)) (sh_max_seq_no h)"

definition SSTableHeader_Read :: "buffer_reader \<Rightarrow> (ss_table_header \<times> buffer_reader) result" where
  "SSTableHeader_Read rd =
     bindE (br_ReadInt rd) (\<lambda>(psize, rd).
     bindE (br_ReadInt rd) (\<lambda>(pcount, rd).
     bindE (br_ReadInt rd) (\<lambda>(seq, rd).
       Inr (\<lparr>sh_page_size = psize, sh_page_count = pcount, sh_max_seq_no = seq\<rparr>, rd))))"

definition ss_table_header_bytes :: "ss_table_header \<Rightarrow> bytes" where
  "ss_table_header_bytes h =
     int64_bytes (sh_page_size h) @ int64_bytes (sh_page_count h) @ int64_bytes (sh_max_seq_no h)"

definition valid_ss_table_header :: "ss_table_header \<Rightarrow> bool" where
  "valid_ss_table_header h \<longleftrightarrow>
     is_int64 (sh_page_size h) \<and> is_int64 (sh_page_count h) \<and> is_int64 (sh_max_seq_no h)"

lemma length_ss_table_header_bytes [simp]: "length (ss_table_header_bytes h) = 24"
  by (simp add: ss_table_header_bytes_def)

interpretation ss_table_header_codec: sdb_codec SSTableHeader_Write SSTableHeader_Read
  ss_table_header_bytes valid_ss_table_header
proof unfold_locales
  fix rd rest and h :: ss_table_header
  assume v: "valid_ss_table_header h" and rest: "br_rest rd = ss_table_header_bytes h @ rest"
  show "SSTableHeader_Read rd = Inr (h, br_advance (length (ss_table_header_bytes h)) rd)"
    using int_codec.get_enc [of "sh_page_size h" rd "int64_bytes (sh_page_count h) @ int64_bytes (sh_max_seq_no h) @ rest"]
      int_codec.get_enc [of "sh_page_count h" "br_advance 8 rd" "int64_bytes (sh_max_seq_no h) @ rest"]
      int_codec.get_enc [of "sh_max_seq_no h" "br_advance 16 rd" rest] v rest
    by (simp add: SSTableHeader_Read_def ss_table_header_bytes_def valid_ss_table_header_def)
qed (auto simp: SSTableHeader_Write_def ss_table_header_bytes_def codec_simps simp flip: length_0_conv)

subsection \<open>SSTableBuilder\<close>

record ss_table_builder =
  sb_is_initialized :: bool
  sb_header :: ss_table_header
  sb_page_builder :: page_builder
  sb_file_writer :: file_writer

definition sb_FlushHeader :: "ss_table_builder \<Rightarrow> ss_table_builder" where
  "sb_FlushHeader sb =
     (let raw = bw_Extract (SSTableHeader_Write BufferWriter (sb_header sb))
      in sb\<lparr>sb_file_writer := fw_Write (sb_file_writer sb) raw\<rparr>)"

definition sb_Init :: "ss_table_builder \<Rightarrow> ss_table_builder" where
  "sb_Init sb = (sb_FlushHeader sb)\<lparr>sb_is_initialized := True\<rparr>"

definition SSTableBuilder_Create :: "file_writer \<Rightarrow> int \<Rightarrow> ss_table_builder" where
  "SSTableBuilder_Create fw psize =
     sb_Init \<lparr>sb_is_initialized = False,
       sb_header = \<lparr>sh_page_size = psize, sh_page_count = 0, sh_max_seq_no = 0\<rparr>,
       sb_page_builder = PageBuilder psize, sb_file_writer = fw\<rparr>"

definition sb_FlushPage :: "crc32 \<Rightarrow> ss_table_builder \<Rightarrow> ss_table_builder result" where
  "sb_FlushPage crc sb =
     (if pb_Empty (sb_page_builder sb) then Inl AssertionFailed
      else bindE (pb_Extract crc (sb_page_builder sb)) (\<lambda>(raw, pb).
        Inr (sb\<lparr>sb_file_writer := fw_Write (sb_file_writer sb) raw,
               sb_page_builder := pb_Clear pb,
               sb_header := (sb_header sb)\<lparr>sh_page_count := sh_page_count (sb_header sb) + 1\<rparr>\<rparr>)))"

definition sb_Add :: "crc32 \<Rightarrow> ss_table_builder \<Rightarrow> lsm_record \<Rightarrow> ss_table_builder result" where
  "sb_Add crc sb r =
     (if \<not> sb_is_initialized sb then Inl AssertionFailed
      else
        let raw = bw_Extract (record_Write BufferWriter r)
        in bindE (if \<not> pb_IsEnoughSpace (sb_page_builder sb) (length raw) then sb_FlushPage crc sb else Inr sb)
          (\<lambda>sb. Inr (sb\<lparr>sb_page_builder := pb_AddRecord (sb_page_builder sb) raw,
             sb_header := (sb_header sb)\<lparr>sh_max_seq_no := max (sh_max_seq_no (sb_header sb)) (rec_seq r)\<rparr>\<rparr>)))"

definition sb_Finish :: "crc32 \<Rightarrow> ss_table_builder \<Rightarrow> ss_table_builder result" where
  "sb_Finish crc sb =
     bindE (if \<not> pb_Empty (sb_page_builder sb) then sb_FlushPage crc sb else Inr sb)
       (\<lambda>sb. Inr (sb_FlushHeader (sb\<lparr>sb_file_writer := fw_Rewind (sb_file_writer sb)\<rparr>)))"

fun sb_AddAll :: "crc32 \<Rightarrow> ss_table_builder \<Rightarrow> lsm_record list \<Rightarrow> ss_table_builder result" where
  "sb_AddAll crc sb [] = Inr sb"
| "sb_AddAll crc sb (r # rs) = bindE (sb_Add crc sb r) (\<lambda>sb. sb_AddAll crc sb rs)"

subsection \<open>SSTable\<close>

record ss_table =
  st_file_reader :: file_reader
  st_header :: ss_table_header
  st_header_size :: int
  st_page_cache :: "(nat, page) lru_cache"

text \<open>\<open>Read\<close> into a zero-initialised buffer of \<open>n\<close> bytes, ignoring how many were read.\<close>

definition read_buffer :: "file_reader \<Rightarrow> nat \<Rightarrow> (bytes \<times> file_reader) result" where
  "read_buffer fr n =
     bindE (fr_Read fr n) (\<lambda>(bs, fr). Inr (bs @ replicate (n - length bs) (CHR 0x00), fr))"

definition st_Init :: "ss_table \<Rightarrow> ss_table result" where
  "st_Init t =
     bindE (read_buffer (st_file_reader t) SSTableHeader_SdbSize) (\<lambda>(buffer, fr).
     bindE (SSTableHeader_Read (BufferReader buffer)) (\<lambda>(h, _).
       Inr (t\<lparr>st_header_size := int SSTableHeader_SdbSize, st_file_reader := fr, st_header := h\<rparr>)))"

definition SSTable_Create :: "file_reader \<Rightarrow> nat \<Rightarrow> ss_table result" where
  "SSTable_Create fr cap =
     st_Init \<lparr>st_file_reader = fr,
       st_header = \<lparr>sh_page_size = 0, sh_page_count = 0, sh_max_seq_no = 0\<rparr>,
       st_header_size = 0, st_page_cache = LruCache cap\<rparr>"

definition st_GetMaxSeqNo :: "ss_table \<Rightarrow> int" where
  "st_GetMaxSeqNo t = sh_max_seq_no (st_header t)"

definition st_GetFilePath :: "ss_table \<Rightarrow> string" where
  "st_GetFilePath t = fr_path (st_file_reader t)"

definition st_LoadPage :: "crc32 \<Rightarrow> ss_table \<Rightarrow> int \<Rightarrow> (page \<times> file_reader) result" where
  "st_LoadPage crc t page_num =
     (let psize = sh_page_size (st_header t);
          fr = fr_Seek (st_file_reader t) (nat (as_size_t (st_header_size t + page_num * psize)))
      in if psize < 0 then Inl LengthError
         else bindE (read_buffer fr (nat psize)) (\<lambda>(buffer, fr).
              bindE (Page_Load crc buffer) (\<lambda>page. Inr (page, fr))))"

definition st_GetPage :: "crc32 \<Rightarrow> ss_table \<Rightarrow> int \<Rightarrow> (page \<times> ss_table) result" where
  "st_GetPage crc t page_num =
     (if \<not> page_num < sh_page_count (st_header t) then Inl AssertionFailed
      else
        let key = nat (as_size_t page_num)
        in case lru_Get (st_page_cache t) key of
             (Some cached, cache) \<Rightarrow> Inr (cached, t\<lparr>st_page_cache := cache\<rparr>)
           | (None, cache) \<Rightarrow>
               bindE (st_LoadPage crc t page_num) (\<lambda>(page, fr).
                 Inr (page, t\<lparr>st_file_reader := fr, st_page_cache := lru_Put cache key page\<rparr>)))"

function lower_bound_loop ::
    "crc32 \<Rightarrow> string \<Rightarrow> ss_table \<Rightarrow> int \<Rightarrow> int \<Rightarrow> (int \<times> ss_table) result" where
  "lower_bound_loop crc key t lo hi =
     (if lo < hi then
        let mid = lo + (hi - lo) div 2
        in bindE (st_GetPage crc t mid) (\<lambda>(page, t).
           bindE (Page_MaxKey page) (\<lambda>max_key.
             if key \<le> max_key then lower_bound_loop crc key t lo mid
             else lower_bound_loop crc key t (mid + 1) hi))
      else Inr (lo, t))"
  by pat_completeness auto
termination
  by (relation "measure (\<lambda>(_, _, _, lo, hi). nat (hi - lo))") auto

declare lower_bound_loop.simps [simp del]

definition st_LowerBound :: "crc32 \<Rightarrow> ss_table \<Rightarrow> string \<Rightarrow> (int \<times> ss_table) result" where
  "st_LowerBound crc t key = lower_bound_loop crc key t 0 (sh_page_count (st_header t))"

subsection \<open>The file of a list of pages\<close>

definition good_page_size :: "int \<Rightarrow> bool" where
  "good_page_size psize \<longleftrightarrow> 16 < psize \<and> psize < 2 ^ 63"

text \<open>A record that fits into a page of its own, with a sequence number of 64 bits.\<close>

definition storable :: "int \<Rightarrow> lsm_record \<Rightarrow> bool" where
  "storable psize r \<longleftrightarrow> is_int64 (rec_seq r) \<and> 16 + length (record_bytes r) \<le> nat psize"

definition page_fits :: "int \<Rightarrow> lsm_record list \<Rightarrow> bool" where
  "page_fits psize rs \<longleftrightarrow> list_all valid_record rs \<and> 16 + length (records_bytes rs) \<le> nat psize"

definition max_seq :: "lsm_record list \<Rightarrow> int" where
  "max_seq rs = foldl (\<lambda>m r. max m (rec_seq r)) 0 rs"

definition sst_image :: "crc32 \<Rightarrow> int \<Rightarrow> lsm_record list list \<Rightarrow> bytes" where
  "sst_image crc psize pages =
     ss_table_header_bytes
       \<lparr>sh_page_size = psize, sh_page_count = int (length pages), sh_max_seq_no = max_seq (concat pages)\<rparr>
     @ concat (map (page_image crc psize) pages)"

lemma as_size_t_id: "good_page_size psize \<Longrightarrow> as_size_t psize = psize"
  by (simp add: good_page_size_def as_size_t_def)

lemma storable_valid: "good_page_size psize \<Longrightarrow> storable psize r \<Longrightarrow> valid_record r"
  by (auto simp: good_page_size_def storable_def valid_record_def length_record_bytes)

lemma storable_fits: "good_page_size psize \<Longrightarrow> storable psize r \<Longrightarrow> page_fits psize [r]"
  using storable_valid by (auto simp: page_fits_def storable_def)

lemma max_seq_simps [simp]: "max_seq [] = 0" "max_seq (rs @ [r]) = max (max_seq rs) (rec_seq r)"
  by (simp_all add: max_seq_def)

lemma max_seq_ge: "r \<in> set rs \<Longrightarrow> rec_seq r \<le> max_seq rs"
  by (induction rs rule: rev_induct) (auto simp: le_max_iff_disj)

lemma max_seq_least: "0 \<le> m \<Longrightarrow> (\<And>r. r \<in> set rs \<Longrightarrow> rec_seq r \<le> m) \<Longrightarrow> max_seq rs \<le> m"
  by (induction rs rule: rev_induct) auto

lemma max_seq_nonneg: "0 \<le> max_seq rs"
  by (induction rs rule: rev_induct) auto

lemma max_seq_append: "max_seq (rs @ rs') = max (max_seq rs) (max_seq rs')"
proof (induction rs' rule: rev_induct)
  case Nil
  then show ?case by (simp add: max_seq_nonneg max.absorb1)
next
  case (snoc r rs')
  then show ?case by (simp add: max.assoc flip: append_assoc)
qed

subsection \<open>What SSTableBuilder writes\<close>

definition sb_rep ::
    "crc32 \<Rightarrow> string \<Rightarrow> int \<Rightarrow> lsm_record list list \<Rightarrow> lsm_record list \<Rightarrow> ss_table_builder \<Rightarrow> bool" where
  "sb_rep crc path psize pages cur sb \<longleftrightarrow>
     sb_is_initialized sb \<and>
     sb_header sb = \<lparr>sh_page_size = psize, sh_page_count = int (length pages),
                     sh_max_seq_no = max_seq (concat pages @ cur)\<rparr> \<and>
     pb_rep (sb_page_builder sb) psize cur \<and>
     fw_path (sb_file_writer sb) = path \<and>
     \<not> fw_append (sb_file_writer sb) \<and>
     fw_pos (sb_file_writer sb) = length (fw_content (sb_file_writer sb)) \<and>
     length (fw_content (sb_file_writer sb)) \<ge> 24 \<and>
     drop 24 (fw_content (sb_file_writer sb)) = concat (map (page_image crc psize) pages) \<and>
     list_all (\<lambda>p. p \<noteq> [] \<and> page_fits psize p) pages \<and>
     page_fits psize cur"

lemma sb_rep_Create:
  assumes "good_page_size psize"
  shows "sb_rep crc path psize [] []
    (SSTableBuilder_Create \<lparr>fw_path = path, fw_content = [], fw_pos = 0, fw_append = False\<rparr> psize)"
  using assms pb_rep_PageBuilder [of psize]
  by (simp add: sb_rep_def SSTableBuilder_Create_def sb_Init_def sb_FlushHeader_def
      ss_table_header_codec.extract_put fw_Write_def Let_def page_fits_def good_page_size_def le_nat_iff)

lemma sb_rep_FlushPage:
  assumes rep: "sb_rep crc path psize pages cur sb" and ne: "cur \<noteq> []"
  obtains sb' where "sb_FlushPage crc sb = Inr sb'" and "sb_rep crc path psize (pages @ [cur]) [] sb'"
proof -
  have pb: "pb_rep (sb_page_builder sb) psize cur" using rep by (simp add: sb_rep_def)
  then obtain pb' where ext: "pb_Extract crc (sb_page_builder sb) = Inr (page_image crc psize cur, pb')"
    and pb': "pb_page_size pb' = psize" by (rule pb_rep_Extract)
  have "\<not> pb_Empty (sb_page_builder sb)" using pb ne by (simp add: pb_rep_Empty)
  with ext show ?thesis
    using rep ne pb_rep_Clear [OF pb']
    by (intro that) (auto simp: sb_FlushPage_def sb_rep_def fw_Write_end page_fits_def)
qed

lemma sb_rep_AddRecord:
  assumes rep: "sb_rep crc path psize pages cur sb" and fits: "page_fits psize (cur @ [r])"
  shows "sb_rep crc path psize pages (cur @ [r])
    (sb\<lparr>sb_page_builder := pb_AddRecord (sb_page_builder sb) (record_bytes r),
        sb_header := (sb_header sb)\<lparr>sh_max_seq_no := max (sh_max_seq_no (sb_header sb)) (rec_seq r)\<rparr>\<rparr>)"
  using rep fits pb_rep_AddRecord [of "sb_page_builder sb" psize cur r]
  by (simp add: sb_rep_def append_assoc [symmetric] del: append_assoc)

lemma sb_rep_Add:
  assumes rep: "sb_rep crc path psize pages cur sb" and good: "good_page_size psize" and st: "storable psize r"
  obtains sb' pages' cur' where "sb_Add crc sb r = Inr sb'" "sb_rep crc path psize pages' cur' sb'"
    "concat pages' @ cur' = (concat pages @ cur) @ [r]"
proof -
  have init: "sb_is_initialized sb" and pb: "pb_rep (sb_page_builder sb) psize cur"
    and cur: "page_fits psize cur" using rep by (simp_all add: sb_rep_def)
  have raw: "bw_Extract (record_Write BufferWriter r) = record_bytes r"
    by (rule record_codec.extract_put)
  note space = pb_rep_IsEnoughSpace [OF pb, unfolded as_size_t_id [OF good]]
  show ?thesis
  proof (cases "pb_IsEnoughSpace (sb_page_builder sb) (length (record_bytes r))")
    case True
    then have "page_fits psize (cur @ [r])"
      using cur storable_valid [OF good st] by (simp add: space page_fits_def)
    from sb_rep_AddRecord [OF rep this] show ?thesis
      using True init by (intro that [of _ pages "cur @ [r]"]) (auto simp: sb_Add_def raw Let_def)
  next
    case False
    then have "cur \<noteq> []" using st by (auto simp: space storable_def)
    with rep obtain sb' where flush: "sb_FlushPage crc sb = Inr sb'"
      and rep': "sb_rep crc path psize (pages @ [cur]) [] sb'" by (rule sb_rep_FlushPage)
    have "page_fits psize ([] @ [r])" using storable_fits [OF good st] by simp
    from sb_rep_AddRecord [OF rep' this] show ?thesis
      using False init flush
      by (intro that [of _ "pages @ [cur]" "[] @ [r]"]) (auto simp: sb_Add_def raw Let_def)
  qed
qed

lemma sb_rep_AddAll:
  assumes "good_page_size psize" "list_all (storable psize) rs" "sb_rep crc path psize pages cur sb"
  obtains sb' pages' cur' where "sb_AddAll crc sb rs = Inr sb'" "sb_rep crc path psize pages' cur' sb'"
    "concat pages' @ cur' = concat pages @ cur @ rs"
  using assms
proof (induction rs arbitrary: sb pages cur thesis)
  case (Cons r rs)
  from Cons.prems have "storable psize r" by simp
  with Cons.prems(4,2) obtain sb1 pages1 cur1 where add: "sb_Add crc sb r = Inr sb1"
    and rep1: "sb_rep crc path psize pages1 cur1 sb1"
    and cat1: "concat pages1 @ cur1 = (concat pages @ cur) @ [r]" by (rule sb_rep_Add)
  from Cons.prems(3) have "list_all (storable psize) rs" by simp
  from Cons.prems(2) this rep1 obtain sb2 pages2 cur2 where "sb_AddAll crc sb1 rs = Inr sb2"
    "sb_rep crc path psize pages2 cur2 sb2" "concat pages2 @ cur2 = concat pages1 @ cur1 @ rs"
    by (rule Cons.IH [rotated])
  with add cat1 show ?case by (intro Cons.prems(1)) (auto simp flip: append_assoc)
qed simp

lemma sb_FlushHeader_image:
  assumes "sb_rep crc path psize pages [] sb"
  shows "fw_content (sb_file_writer (sb_FlushHeader (sb\<lparr>sb_file_writer := fw_Rewind (sb_file_writer sb)\<rparr>)))
      = sst_image crc psize pages"
    and "fw_path (sb_file_writer (sb_FlushHeader (sb\<lparr>sb_file_writer := fw_Rewind (sb_file_writer sb)\<rparr>))) = path"
proof -
  have raw: "bw_Extract (SSTableHeader_Write BufferWriter h) = ss_table_header_bytes h" for h
    by (rule ss_table_header_codec.extract_put)
  show "fw_content (sb_file_writer (sb_FlushHeader (sb\<lparr>sb_file_writer := fw_Rewind (sb_file_writer sb)\<rparr>)))
      = sst_image crc psize pages"
    using assms by (simp add: sb_FlushHeader_def raw sb_rep_def fw_Write_rewound sst_image_def)
  show "fw_path (sb_file_writer (sb_FlushHeader (sb\<lparr>sb_file_writer := fw_Rewind (sb_file_writer sb)\<rparr>))) = path"
    using assms by (simp add: sb_FlushHeader_def raw sb_rep_def fw_Write_def fw_Rewind_def)
qed

lemma sb_rep_Finish:
  assumes rep: "sb_rep crc path psize pages cur sb"
  obtains sb' pages' where "sb_Finish crc sb = Inr sb'"
    "fw_content (sb_file_writer sb') = sst_image crc psize pages'" "fw_path (sb_file_writer sb') = path"
    "concat pages' = concat pages @ cur" "list_all (\<lambda>p. p \<noteq> [] \<and> page_fits psize p) pages'"
proof -
  have pb: "pb_rep (sb_page_builder sb) psize cur" using rep by (simp add: sb_rep_def)
  show ?thesis
  proof (cases "cur = []")
    case True
    with rep pb sb_FlushHeader_image [of crc path psize pages sb] show ?thesis
      by (intro that [of _ pages]) (auto simp: sb_Finish_def pb_rep_Empty [OF pb] sb_rep_def)
  next
    case False
    with rep obtain sb' where flush: "sb_FlushPage crc sb = Inr sb'"
      and rep': "sb_rep crc path psize (pages @ [cur]) [] sb'" by (rule sb_rep_FlushPage)
    from rep' have "list_all (\<lambda>p. p \<noteq> [] \<and> page_fits psize p) (pages @ [cur])" by (simp add: sb_rep_def)
    with False flush sb_FlushHeader_image [OF rep'] show ?thesis
      by (intro that [of _ "pages @ [cur]"]) (auto simp: sb_Finish_def pb_rep_Empty [OF pb])
  qed
qed

text \<open>
  Building a file from storable records: it is the image of some cut of the records into
  non-empty pages that fit.
\<close>

definition write_records :: "crc32 \<Rightarrow> file_writer \<Rightarrow> int \<Rightarrow> lsm_record list \<Rightarrow> ss_table_builder result" where
  "write_records crc fw psize rs =
     bindE (sb_AddAll crc (SSTableBuilder_Create fw psize) rs) (sb_Finish crc)"

lemma write_records_image:
  assumes "good_page_size psize" "list_all (storable psize) rs"
  obtains sb pages where
    "write_records crc \<lparr>fw_path = path, fw_content = [], fw_pos = 0, fw_append = False\<rparr> psize rs = Inr sb"
    "fw_content (sb_file_writer sb) = sst_image crc psize pages" "fw_path (sb_file_writer sb) = path"
    "concat pages = rs" "list_all (\<lambda>p. p \<noteq> [] \<and> page_fits psize p) pages"
proof -
  from assms sb_rep_Create [OF assms(1)] obtain sb1 pages1 cur1 where
    add: "sb_AddAll crc (SSTableBuilder_Create \<lparr>fw_path = path, fw_content = [], fw_pos = 0, fw_append = False\<rparr> psize) rs = Inr sb1"
    and rep: "sb_rep crc path psize pages1 cur1 sb1" and cat: "concat pages1 @ cur1 = concat [] @ [] @ rs"
    by (rule sb_rep_AddAll)
  from rep obtain sb2 pages2 where "sb_Finish crc sb1 = Inr sb2"
    "fw_content (sb_file_writer sb2) = sst_image crc psize pages2" "fw_path (sb_file_writer sb2) = path"
    "concat pages2 = concat pages1 @ cur1" "list_all (\<lambda>p. p \<noteq> [] \<and> page_fits psize p) pages2"
    by (rule sb_rep_Finish)
  with add cat show ?thesis by (intro that) (auto simp: write_records_def)
qed

subsection \<open>An open table\<close>

definition sst_rep :: "crc32 \<Rightarrow> int \<Rightarrow> lsm_record list list \<Rightarrow> ss_table \<Rightarrow> bool" where
  "sst_rep crc psize pages t \<longleftrightarrow>
     good_page_size psize \<and>
     list_all (\<lambda>p. p \<noteq> [] \<and> page_fits psize p) pages \<and>
     fr_content (st_file_reader t) = sst_image crc psize pages \<and>
     int (length (sst_image crc psize pages)) < 2 ^ 63 \<and>
     st_header t = \<lparr>sh_page_size = psize, sh_page_count = int (length pages), sh_max_seq_no = max_seq (concat pages)\<rparr> \<and>
     st_header_size t = 24 \<and>
     lru.coherent (\<lambda>k. if k < length pages then Inr (page_of (pages ! k)) else Inl OutOfBounds) (st_page_cache t)"

lemma length_page_image_fits:
  "good_page_size psize \<Longrightarrow> page_fits psize p \<Longrightarrow> length (page_image crc psize p) = nat psize"
  by (simp add: length_page_image as_size_t_id page_fits_def max.absorb1)

lemma length_sst_image:
  assumes "good_page_size psize" "list_all (\<lambda>p. p \<noteq> [] \<and> page_fits psize p) pages"
  shows "length (sst_image crc psize pages) = 24 + length pages * nat psize"
proof -
  have "length (concat (map (page_image crc psize) pages)) = length (map (page_image crc psize) pages) * nat psize"
    using assms by (intro length_concat_const) (auto simp: length_page_image_fits list_all_iff)
  then show ?thesis by (simp add: sst_image_def)
qed

lemma max_seq_int64:
  assumes "list_all valid_record rs"
  shows "is_int64 (max_seq rs)"
proof -
  have "max_seq rs \<le> 2 ^ 63 - 1"
    using assms by (intro max_seq_least) (auto simp: list_all_iff valid_record_def)
  with max_seq_nonneg [of rs] show ?thesis by simp
qed

lemma concat_pages_valid:
  "list_all (\<lambda>p. p \<noteq> [] \<and> page_fits psize p) pages \<Longrightarrow> list_all valid_record (concat pages)"
  by (induction pages) (auto simp: page_fits_def list_all_iff)

lemma page_count_bound:
  assumes good: "good_page_size psize" and pages: "list_all (\<lambda>p. p \<noteq> [] \<and> page_fits psize p) pages"
    and small: "int (length (sst_image crc psize pages)) < 2 ^ 63"
  shows "int (length pages) < 2 ^ 63"
proof -
  have "length pages \<le> length pages * nat psize" using good by (simp add: good_page_size_def Suc_le_eq)
  with small show ?thesis unfolding length_sst_image [OF good pages] by linarith
qed

text \<open>A file of at most one page per record stays within the range of file offsets.\<close>

definition file_fits :: "int \<Rightarrow> nat \<Rightarrow> bool" where
  "file_fits psize n \<longleftrightarrow> 24 + int n * psize < 2 ^ 63"

lemma sst_image_small:
  assumes good: "good_page_size psize" and pages: "list_all (\<lambda>p. p \<noteq> [] \<and> page_fits psize p) pages"
    and fits: "file_fits psize (length (concat pages))"
  shows "int (length (sst_image crc psize pages)) < 2 ^ 63"
proof -
  have "length pages \<le> length (concat pages)"
    using pages by (intro length_le_concat) (auto simp: list_all_iff)
  then have "int (length pages) * psize \<le> int (length (concat pages)) * psize"
    using good by (intro mult_right_mono) (auto simp: good_page_size_def)
  moreover have "int (length (sst_image crc psize pages)) = 24 + int (length pages) * psize"
    using good by (simp add: length_sst_image [OF good pages] good_page_size_def)
  ultimately show ?thesis using fits unfolding file_fits_def by linarith
qed

lemma SSTable_Create_rep:
  assumes good: "good_page_size psize" and pages: "list_all (\<lambda>p. p \<noteq> [] \<and> page_fits psize p) pages"
    and content: "fr_content fr = sst_image crc psize pages" "fr_pos fr = 0"
    and small: "int (length (sst_image crc psize pages)) < 2 ^ 63"
  obtains t where "SSTable_Create fr cap = Inr t" "sst_rep crc psize pages t" "st_GetFilePath t = fr_path fr"
proof -
  let ?h = "\<lparr>sh_page_size = psize, sh_page_count = int (length pages), sh_max_seq_no = max_seq (concat pages)\<rparr>"
  have "is_int64 (int (length pages))" using page_count_bound [OF good pages small] by simp
  then have valid: "valid_ss_table_header ?h"
    using good max_seq_int64 [OF concat_pages_valid [OF pages]]
    by (auto simp: valid_ss_table_header_def good_page_size_def)
  have read: "read_buffer fr 24 = Inr (ss_table_header_bytes ?h, fr\<lparr>fr_pos := 24\<rparr>)"
    using content by (simp add: read_buffer_def fr_Read_def sst_image_def Let_def flip: length_0_conv)
  have head: "SSTableHeader_Read (BufferReader (ss_table_header_bytes ?h))
      = Inr (?h, br_advance 24 (BufferReader (ss_table_header_bytes ?h)))"
    using ss_table_header_codec.get_enc [OF valid, of "BufferReader (ss_table_header_bytes ?h)" "[]"] by simp
  show ?thesis
    by (rule that [of "\<lparr>st_file_reader = fr\<lparr>fr_pos := 24\<rparr>, st_header = ?h, st_header_size = 24, st_page_cache = LruCache cap\<rparr>"])
      (use good pages content small in \<open>simp_all add: SSTable_Create_def st_Init_def read head sst_rep_def
        lru.coherent_def st_GetFilePath_def SSTableHeader_SdbSize_def\<close>)
qed

lemma sst_image_page:
  assumes good: "good_page_size psize" and pages: "list_all (\<lambda>p. p \<noteq> [] \<and> page_fits psize p) pages"
    and k: "k < length pages"
  obtains pre post where "sst_image crc psize pages = pre @ page_image crc psize (pages ! k) @ post"
    "length pre = 24 + k * nat psize"
proof -
  let ?imgs = "map (page_image crc psize) pages"
  have split: "concat ?imgs = concat (take k ?imgs) @ page_image crc psize (pages ! k) @ concat (drop (Suc k) ?imgs)"
    using k by (subst concat_split_nth [of k]) simp_all
  have "length (concat (take k ?imgs)) = length (take k ?imgs) * nat psize"
    using good pages by (intro length_concat_const) (auto simp: list_all_iff length_page_image_fits dest!: in_set_takeD)
  with k have "length (concat (take k ?imgs)) = k * nat psize" by simp
  with split show ?thesis
    by (intro that [of "ss_table_header_bytes _ @ concat (take k ?imgs)" "concat (drop (Suc k) ?imgs)"])
      (simp_all add: sst_image_def)
qed

lemma length_le_records_bytes: "length rs \<le> length (records_bytes rs)"
  by (induction rs) (auto simp: length_record_bytes)

lemma sst_rep_LoadPage:
  assumes rep: "sst_rep crc psize pages t" and k: "k < length pages"
  obtains fr where "st_LoadPage crc t (int k) = Inr (page_of (pages ! k), fr)"
    "fr_content fr = sst_image crc psize pages" "fr_path fr = st_GetFilePath t"
proof -
  have good: "good_page_size psize" and pages: "list_all (\<lambda>p. p \<noteq> [] \<and> page_fits psize p) pages"
    and small: "int (length (sst_image crc psize pages)) < 2 ^ 63"
    and content: "fr_content (st_file_reader t) = sst_image crc psize pages"
    and head: "sh_page_size (st_header t) = psize" "st_header_size t = 24"
    using rep by (simp_all add: sst_rep_def)
  from good pages k obtain pre post where img: "sst_image crc psize pages = pre @ page_image crc psize (pages ! k) @ post"
    and pre: "length pre = 24 + k * nat psize" by (rule sst_image_page)
  have pos: "0 < psize" using good by (simp add: good_page_size_def)
  have fits: "page_fits psize (pages ! k)" using pages k by (simp add: list_all_length)
  have len: "length (page_image crc psize (pages ! k)) = nat psize"
    by (rule length_page_image_fits [OF good fits])
  have off: "24 + int k * psize = int (length pre)" using pre pos by simp
  moreover have "int (length pre) < 2 ^ 63" using small unfolding img by simp
  ultimately have seek: "nat (as_size_t (24 + int k * psize)) = length pre" by (simp add: as_size_t_def)
  let ?fr = "fr_Seek (st_file_reader t) (length pre)"
  have ne: "page_image crc psize (pages ! k) \<noteq> []" using len pos by (metis length_0_conv nat_eq_iff zero_less_nat_eq less_irrefl)
  have "fr_Read ?fr (nat psize) = Inr (page_image crc psize (pages ! k), ?fr\<lparr>fr_pos := fr_pos ?fr + nat psize\<rparr>)"
    using img content len ne by (intro fr_Read_at [where pre = pre and post = post]) (simp_all add: fr_Seek_def)
  then have read: "read_buffer ?fr (nat psize) = Inr (page_image crc psize (pages ! k), ?fr\<lparr>fr_pos := fr_pos ?fr + nat psize\<rparr>)"
    by (simp add: read_buffer_def len)
  have "Page_Load crc (page_image crc psize (pages ! k)) = Inr (page_of (pages ! k))"
    using fits good length_le_records_bytes [of "pages ! k"]
    by (intro Page_Load_image) (auto simp: page_fits_def good_page_size_def)
  with read seek pos show ?thesis
    by (intro that [of "?fr\<lparr>fr_pos := fr_pos ?fr + nat psize\<rparr>"])
      (simp_all add: st_LoadPage_def head fr_Seek_def content st_GetFilePath_def)
qed

text \<open>
  The page cache is transparent: \<open>GetPage\<close> returns the page that is in the file, and the
  table it leaves is still the same table.
\<close>

lemma sst_rep_GetPage:
  assumes rep: "sst_rep crc psize pages t" and k: "k < length pages"
  obtains t' where "st_GetPage crc t (int k) = Inr (page_of (pages ! k), t')"
    "sst_rep crc psize pages t'" "st_GetFilePath t' = st_GetFilePath t"
proof -
  let ?load = "\<lambda>k. if k < length pages then Inr (page_of (pages ! k)) else Inl OutOfBounds"
  have coh: "lru.coherent ?load (st_page_cache t)" and cnt: "sh_page_count (st_header t) = int (length pages)"
    using rep by (simp_all add: sst_rep_def)
  have "int (length pages) < 2 ^ 63"
    using rep by (intro page_count_bound) (auto simp: sst_rep_def)
  with k have key: "nat (as_size_t (int k)) = k" by (simp add: as_size_t_def)
  obtain r cache where get: "lru_Get (st_page_cache t) k = (r, cache)" by (cases "lru_Get (st_page_cache t) k")
  note c = lru.get_coherent [OF coh get]
  show ?thesis
  proof (cases r)
    case None
    from rep k obtain fr where load: "st_LoadPage crc t (int k) = Inr (page_of (pages ! k), fr)"
      and fr: "fr_content fr = sst_image crc psize pages" "fr_path fr = st_GetFilePath t"
      by (rule sst_rep_LoadPage)
    have "lru.coherent ?load (lru_Put cache k (page_of (pages ! k)))"
      using k by (intro lru.put_coherent [OF c(1)]) simp
    with None get load fr rep k show ?thesis
      by (intro that [of "t\<lparr>st_file_reader := fr, st_page_cache := lru_Put cache k (page_of (pages ! k))\<rparr>"])
        (simp_all add: st_GetPage_def cnt key sst_rep_def st_GetFilePath_def)
  next
    case (Some p)
    then have "p = page_of (pages ! k)" using c(2) [of p] k by simp
    with Some get c(1) rep k show ?thesis
      by (intro that [of "t\<lparr>st_page_cache := cache\<rparr>"])
        (simp_all add: st_GetPage_def cnt key sst_rep_def st_GetFilePath_def)
  qed
qed

subsection \<open>Binary search\<close>

text \<open>The first page whose greatest key is not below the key searched for.\<close>

definition first_page :: "lsm_record list list \<Rightarrow> string \<Rightarrow> nat" where
  "first_page pages key = length (takeWhile (\<lambda>p. rec_key (last p) < key) pages)"

lemma sorted_pages_last:
  assumes "sorted (concat pages)" "\<forall>p \<in> set pages. p \<noteq> []" "i \<le> j" "j < length pages"
  shows "rec_key (last (pages ! i)) \<le> rec_key (last (pages ! j))"
proof (cases "i = j")
  case False
  then have ij: "i < j" using assms(3) by simp
  have "concat pages = concat (take j pages) @ pages ! j @ concat (drop (Suc j) pages)"
    using assms(4) by (rule concat_split_nth)
  with assms(1) have "sorted (concat (take j pages) @ (pages ! j @ concat (drop (Suc j) pages)))" by simp
  moreover have "pages ! i \<in> set (take j pages)"
    using ij assms(4) by (auto simp: in_set_conv_nth intro!: exI [of _ i])
  then have "last (pages ! i) \<in> set (concat (take j pages))"
    using ij assms(2,4) by (auto intro!: bexI [of _ "pages ! i"])
  moreover have "last (pages ! j) \<in> set (pages ! j @ concat (drop (Suc j) pages))"
    using assms(2,4) by simp
  ultimately show ?thesis by (intro record_le_key sorted_append_le)
qed simp

lemma first_page_eqI:
  assumes "lo \<le> length pages" "\<forall>i < lo. rec_key (last (pages ! i)) < key"
    "lo < length pages \<Longrightarrow> \<not> rec_key (last (pages ! lo)) < key"
  shows "first_page pages key = lo"
proof -
  have "takeWhile (\<lambda>p. rec_key (last p) < key) pages = take lo pages"
    using assms by (intro takeWhile_eq_take_P_nth) auto
  with assms(1) show ?thesis by (simp add: first_page_def)
qed

lemma lower_bound_loop_first_page:
  assumes "sst_rep crc psize pages t" and sorted: "sorted (concat pages)"
    and "lo \<le> hi" "hi \<le> length pages"
    and "\<forall>i < lo. rec_key (last (pages ! i)) < key"
    and "\<forall>i. hi \<le> i \<and> i < length pages \<longrightarrow> key \<le> rec_key (last (pages ! i))"
  shows "\<exists>t'. lower_bound_loop crc key t (int lo) (int hi) = Inr (int (first_page pages key), t')
    \<and> sst_rep crc psize pages t' \<and> st_GetFilePath t' = st_GetFilePath t"
  using assms
proof (induction "hi - lo" arbitrary: t lo hi rule: less_induct)
  case less
  have ne: "\<forall>p \<in> set pages. p \<noteq> []" using less.prems(1) by (auto simp: sst_rep_def list_all_iff)
  show ?case
  proof (cases "lo < hi")
    case False
    with less.prems have "lo = hi" by simp
    with less.prems have "first_page pages key = lo"
      by (intro first_page_eqI) auto
    with False less.prems show ?thesis by (subst lower_bound_loop.simps) auto
  next
    case True
    define mid where "mid = lo + (hi - lo) div 2"
    have mid: "int lo + (int hi - int lo) div 2 = int mid" "lo \<le> mid" "mid < hi" "mid < length pages"
      using True less.prems(4) by (auto simp: mid_def zdiv_int of_nat_diff)
    from less.prems(1) mid(4) obtain t1 where page: "st_GetPage crc t (int mid) = Inr (page_of (pages ! mid), t1)"
      and rep1: "sst_rep crc psize pages t1" and path1: "st_GetFilePath t1 = st_GetFilePath t" by (rule sst_rep_GetPage)
    have "pages ! mid \<noteq> []" using ne mid(4) by simp
    then have max_key: "Page_MaxKey (page_of (pages ! mid)) = Inr (rec_key (last (pages ! mid)))" by simp
    have le: "rec_key (last (pages ! i)) \<le> rec_key (last (pages ! j))" if "i \<le> j" "j < length pages" for i j
      using sorted ne that by (rule sorted_pages_last)
    show ?thesis
    proof (cases "key \<le> rec_key (last (pages ! mid))")
      case up: True
      have "\<forall>i. mid \<le> i \<and> i < length pages \<longrightarrow> key \<le> rec_key (last (pages ! i))"
        using up le by (auto intro: order_trans)
      with less.hyps [of mid lo t1] rep1 sorted mid less.prems True page max_key up path1 show ?thesis
        by (subst lower_bound_loop.simps) (simp add: Let_def)
    next
      case down: False
      have "\<forall>i < Suc mid. rec_key (last (pages ! i)) < key"
        using down le [OF _ mid(4)] by (auto simp: less_Suc_eq_le not_le intro: le_less_trans)
      with less.hyps [of hi "Suc mid" t1] rep1 sorted mid less.prems True page max_key down path1 show ?thesis
        by (subst lower_bound_loop.simps) (simp add: Let_def add.commute)
    qed
  qed
qed

lemma sst_rep_LowerBound:
  assumes rep: "sst_rep crc psize pages t" and sorted: "sorted (concat pages)"
  obtains t' where "st_LowerBound crc t key = Inr (int (first_page pages key), t')"
    "sst_rep crc psize pages t'" "st_GetFilePath t' = st_GetFilePath t"
proof -
  have cnt: "sh_page_count (st_header t) = int (length pages)" using rep by (simp add: sst_rep_def)
  have "\<exists>t'. lower_bound_loop crc key t (int 0) (int (length pages)) = Inr (int (first_page pages key), t')
    \<and> sst_rep crc psize pages t' \<and> st_GetFilePath t' = st_GetFilePath t"
    by (rule lower_bound_loop_first_page [OF rep sorted]) auto
  with that show ?thesis by (auto simp: st_LowerBound_def cnt)
qed

end
