(* ===== verification/Iterator.thy ===== *)
theory Iterator
  imports SSTable
begin

section \<open>Iterators\<close>

text \<open>
  The interface \<open>lsm::Iterator\<close> (\<open>src/src/server/lsm/iterators/iterator.hpp\<close>, and
  \<open>table::Iterator\<close>, which has the same two operations) is the locale \<open>iterator\<close>: an
  iterator stands for the list of what it still yields. Every iterator class of the program
  is an interpretation of it; the loops that consume iterators are instances of one loop,
  whose correctness is proved once inside the locale.
\<close>

datatype 's step = Continue 's | Break 's

text \<open>
  \<open>while (it.HasMore()) { r = it.Next(); body }\<close>: \<open>None\<close> if the loop does not end; the
  body leaves the loop with \<open>Break\<close> (a \<open>break\<close> or a \<open>return\<close> in the source).
\<close>

partial_function (option) iter_loop ::
    "('it \<Rightarrow> bool) \<Rightarrow> ('it \<Rightarrow> ('r \<times> 'it) result) \<Rightarrow> ('s \<Rightarrow> 'r \<Rightarrow> 's step result) \<Rightarrow> 'it \<Rightarrow> 's \<Rightarrow> 's result option" where
  "iter_loop has_more nxt body it s =
     (if has_more it then
        (case nxt it of
           Inl e \<Rightarrow> Some (Inl e)
         | Inr ri \<Rightarrow>
             (case body s (fst ri) of
                Inl e \<Rightarrow> Some (Inl e)
              | Inr (Break s') \<Rightarrow> Some (Inr s')
              | Inr (Continue s') \<Rightarrow> iter_loop has_more nxt body (snd ri) s'))
      else Some (Inr s))"

declare iter_loop.simps [code]

fun list_loop :: "('s \<Rightarrow> 'r \<Rightarrow> 's step result) \<Rightarrow> 'r list \<Rightarrow> 's \<Rightarrow> 's result" where
  "list_loop body [] s = Inr s"
| "list_loop body (r # rs) s =
     (case body s r of
        Inl e \<Rightarrow> Inl e
      | Inr (Break s') \<Rightarrow> Inr s'
      | Inr (Continue s') \<Rightarrow> list_loop body rs s')"

definition collect :: "'r list \<Rightarrow> 'r \<Rightarrow> 'r list step result" where
  "collect acc r = Inr (Continue (acc @ [r]))"

lemma list_loop_collect: "list_loop collect rs acc = Inr (acc @ rs)"
  by (induction rs arbitrary: acc) (simp_all add: collect_def)

locale iterator =
  fixes has_more :: "'it \<Rightarrow> bool"
    and nxt :: "'it \<Rightarrow> ('r \<times> 'it) result"
    and rep :: "'it \<Rightarrow> 'r list \<Rightarrow> bool"
  assumes has_more_rep: "rep it rs \<Longrightarrow> has_more it \<longleftrightarrow> rs \<noteq> []"
    and nxt_rep: "rep it (r # rs) \<Longrightarrow> \<exists>it'. nxt it = Inr (r, it') \<and> rep it' rs"
begin

lemma iter_loop_rep: "rep it rs \<Longrightarrow> iter_loop has_more nxt body it s = Some (list_loop body rs s)"
proof (induction rs arbitrary: it s)
  case Nil
  then show ?case by (subst iter_loop.simps) (simp add: has_more_rep)
next
  case (Cons r rs)
  from nxt_rep [OF Cons.prems] obtain it' where "nxt it = Inr (r, it')" "rep it' rs" by blast
  with Cons show ?case
    by (subst iter_loop.simps) (auto simp: has_more_rep [OF Cons.prems] split: sum.split step.split)
qed

lemma iter_collect: "rep it rs \<Longrightarrow> iter_loop has_more nxt collect it [] = Some (Inr rs)"
  by (simp add: iter_loop_rep list_loop_collect)

end

subsection \<open>SSTableIterator\<close>

text \<open>
  \<open>src/src/server/lsm/iterators/ss_table_iterator.cpp\<close>. The iterator refers to its table;
  here it carries the table, and with it the page cache its own reads fill, which by
  \<open>sst_rep_GetPage\<close> does not change what is read.
\<close>

record ss_table_iterator =
  si_ss_table :: ss_table
  si_range :: scan_range
  si_current_page :: int
  si_current_record :: int
  si_next :: "lsm_record option"

definition si_NextImpl :: "crc32 \<Rightarrow> ss_table_iterator \<Rightarrow> (lsm_record option \<times> ss_table_iterator) result" where
  "si_NextImpl crc it =
     (if si_current_page it \<ge> sh_page_count (st_header (si_ss_table it)) then Inr (None, it)
      else
        bindE (st_GetPage crc (si_ss_table it) (si_current_page it)) (\<lambda>(page, t).
        bindE (Page_At page (si_current_record it)) (\<lambda>r.
          let it = it\<lparr>si_ss_table := t, si_current_record := si_current_record it + 1\<rparr>
          in Inr (Some r,
               if si_current_record it \<ge> Page_Size page
               then it\<lparr>si_current_record := 0, si_current_page := si_current_page it + 1\<rparr>
               else it))))"

text \<open>The start of \<open>SSTableIterator::Create\<close>: the position of the lower bound.\<close>

definition si_Seek :: "crc32 \<Rightarrow> ss_table_iterator \<Rightarrow> ss_table_iterator result" where
  "si_Seek crc it =
     (case lower_bound (si_range it) of
        None \<Rightarrow> Inr it
      | Some lower \<Rightarrow>
          bindE (st_LowerBound crc (si_ss_table it) lower) (\<lambda>(page_no, t).
            let it = it\<lparr>si_ss_table := t, si_current_page := page_no\<rparr>
            in if si_current_page it < sh_page_count (st_header (si_ss_table it))
               then bindE (st_GetPage crc (si_ss_table it) (si_current_page it)) (\<lambda>(start_page, t).
                 Inr (it\<lparr>si_ss_table := t, si_current_record := Page_Find start_page lower\<rparr>))
               else Inr it))"

definition SSTableIterator_Create :: "crc32 \<Rightarrow> ss_table \<Rightarrow> scan_range \<Rightarrow> ss_table_iterator result" where
  "SSTableIterator_Create crc t rng =
     bindE (si_Seek crc \<lparr>si_ss_table = t, si_range = rng, si_current_page = 0, si_current_record = 0, si_next = None\<rparr>)
       (\<lambda>it. bindE (si_NextImpl crc it) (\<lambda>(r, it). Inr (it\<lparr>si_next := r\<rparr>)))"

definition si_HasMore :: "ss_table_iterator \<Rightarrow> bool" where
  "si_HasMore it \<longleftrightarrow>
     (case si_next it of
        None \<Rightarrow> False
      | Some r \<Rightarrow> (case upper_bound (si_range it) of None \<Rightarrow> True | Some upper \<Rightarrow> rec_key r \<le> upper))"

definition si_Next :: "crc32 \<Rightarrow> ss_table_iterator \<Rightarrow> (lsm_record \<times> ss_table_iterator) result" where
  "si_Next crc it =
     (case si_next it of
        None \<Rightarrow> Inl AssertionFailed
      | Some result \<Rightarrow> bindE (si_NextImpl crc it) (\<lambda>(r, it). Inr (result, it\<lparr>si_next := r\<rparr>)))"

text \<open>What is left of a table from a page and a position in it.\<close>

definition rest_of_pages :: "lsm_record list list \<Rightarrow> nat \<Rightarrow> nat \<Rightarrow> lsm_record list" where
  "rest_of_pages pages p i = (if p < length pages then drop i (pages ! p) @ concat (drop (Suc p) pages) else [])"

definition si_at :: "crc32 \<Rightarrow> ss_table_iterator \<Rightarrow> lsm_record list \<Rightarrow> bool" where
  "si_at crc it rs \<longleftrightarrow>
     (\<exists>psize pages p i. sst_rep crc psize pages (si_ss_table it) \<and>
        si_current_page it = int p \<and> si_current_record it = int i \<and>
        (p < length pages \<longrightarrow> i < length (pages ! p)) \<and> rs = rest_of_pages pages p i)"

definition si_rep :: "crc32 \<Rightarrow> ss_table_iterator \<Rightarrow> lsm_record list \<Rightarrow> bool" where
  "si_rep crc it rs \<longleftrightarrow>
     (\<exists>rest. si_at crc it rest \<and>
        rs = takeWhile (\<lambda>r. below_upper (si_range it) (rec_key r))
               (case si_next it of None \<Rightarrow> [] | Some r \<Rightarrow> r # rest) \<and>
        (si_next it = None \<longrightarrow> rest = []))"

lemma si_NextImpl_at_Cons:
  assumes "si_at crc it (r # rs)"
  shows "\<exists>it'. si_NextImpl crc it = Inr (Some r, it') \<and> si_at crc it' rs \<and> si_range it' = si_range it"
proof -
  from assms obtain psize pages p i where rep: "sst_rep crc psize pages (si_ss_table it)"
    and pos: "si_current_page it = int p" "si_current_record it = int i"
    and i: "p < length pages \<longrightarrow> i < length (pages ! p)" and rest: "r # rs = rest_of_pages pages p i"
    by (auto simp: si_at_def)
  have p: "p < length pages" using rest by (auto simp: rest_of_pages_def split: if_splits)
  have cnt: "sh_page_count (st_header (si_ss_table it)) = int (length pages)" using rep by (simp add: sst_rep_def)
  have ne: "pages ! q \<noteq> []" if "q < length pages" for q
    using rep that by (auto simp: sst_rep_def list_all_length)
  from rep p obtain t where page: "st_GetPage crc (si_ss_table it) (int p) = Inr (page_of (pages ! p), t)"
    and rep': "sst_rep crc psize pages t" by (rule sst_rep_GetPage)
  have split: "drop i (pages ! p) = pages ! p ! i # drop (Suc i) (pages ! p)"
    using i p by (simp add: Cons_nth_drop_Suc)
  then have r: "r = pages ! p ! i" and rs: "rs = drop (Suc i) (pages ! p) @ concat (drop (Suc p) pages)"
    using rest p by (simp_all add: rest_of_pages_def)
  show ?thesis
  proof (cases "Suc i < length (pages ! p)")
    case True
    with rep' p have "si_at crc (it\<lparr>si_ss_table := t, si_current_record := int (Suc i)\<rparr>) rs"
      unfolding si_at_def by (intro exI [of _ psize] exI [of _ pages] exI [of _ p] exI [of _ "Suc i"])
        (simp add: pos rs rest_of_pages_def)
    with True page i p show ?thesis
      by (auto simp: si_NextImpl_def pos cnt r Let_def add.commute)
  next
    case False
    then have last: "drop (Suc i) (pages ! p) = []" by simp
    have "concat (drop (Suc p) pages) = rest_of_pages pages (Suc p) 0"
      by (cases "Suc p < length pages") (simp_all add: rest_of_pages_def flip: Cons_nth_drop_Suc)
    with rep' ne have "si_at crc (it\<lparr>si_ss_table := t, si_current_record := 0, si_current_page := int (Suc p)\<rparr>) rs"
      unfolding si_at_def by (intro exI [of _ psize] exI [of _ pages] exI [of _ "Suc p"] exI [of _ 0])
        (auto simp: rs last)
    with False page i p show ?thesis
      by (auto simp: si_NextImpl_def pos cnt r Let_def add.commute)
  qed
qed

lemma si_NextImpl_at_Nil:
  assumes "si_at crc it []"
  shows "si_NextImpl crc it = Inr (None, it)"
proof -
  from assms obtain psize pages p i where rep: "sst_rep crc psize pages (si_ss_table it)"
    and pos: "si_current_page it = int p"
    and i: "p < length pages \<longrightarrow> i < length (pages ! p)" and rest: "[] = rest_of_pages pages p i"
    by (auto simp: si_at_def)
  from rest i have "\<not> p < length pages" by (auto simp: rest_of_pages_def split: if_splits)
  moreover have "sh_page_count (st_header (si_ss_table it)) = int (length pages)" using rep by (simp add: sst_rep_def)
  ultimately show ?thesis by (simp add: si_NextImpl_def pos)
qed

lemma si_at_next [simp]: "si_at crc (it\<lparr>si_next := r\<rparr>) rs = si_at crc it rs"
  by (simp add: si_at_def)

lemma si_NextImpl_rep:
  assumes "si_at crc it rest"
  shows "\<exists>r it'. si_NextImpl crc it = Inr (r, it') \<and>
    si_rep crc (it'\<lparr>si_next := r\<rparr>) (takeWhile (\<lambda>r. below_upper (si_range it) (rec_key r)) rest)"
proof (cases rest)
  case Nil
  with assms si_NextImpl_at_Nil [of crc it] show ?thesis by (auto simp: si_rep_def)
next
  case (Cons r rs)
  with assms si_NextImpl_at_Cons [of crc it r rs] obtain it' where
    "si_NextImpl crc it = Inr (Some r, it')" "si_at crc it' rs" "si_range it' = si_range it" by blast
  with Cons show ?thesis by (auto simp: si_rep_def)
qed

interpretation si: iterator si_HasMore "si_Next crc" "si_rep crc" for crc
proof unfold_locales
  fix it rs
  assume "si_rep crc it rs"
  then obtain rest where rs: "rs = takeWhile (\<lambda>r. below_upper (si_range it) (rec_key r))
      (case si_next it of None \<Rightarrow> [] | Some r \<Rightarrow> r # rest)" by (auto simp: si_rep_def)
  show "si_HasMore it \<longleftrightarrow> rs \<noteq> []"
    unfolding rs by (simp add: si_HasMore_def below_upper_def split: option.split)
next
  fix it r rs
  assume "si_rep crc it (r # rs)"
  then obtain rest where at: "si_at crc it rest" and eq: "r # rs = takeWhile (\<lambda>r. below_upper (si_range it) (rec_key r))
      (case si_next it of None \<Rightarrow> [] | Some r \<Rightarrow> r # rest)" by (auto simp: si_rep_def)
  from eq have sn: "si_next it = Some r" and rs: "rs = takeWhile (\<lambda>r. below_upper (si_range it) (rec_key r)) rest"
    by (simp_all split: option.split_asm if_split_asm)
  with si_NextImpl_rep [OF at] show "\<exists>it'. si_Next crc it = Inr (r, it') \<and> si_rep crc it' rs"
    by (auto simp: si_Next_def)
qed

lemma pages_before_first:
  assumes sorted: "sorted (concat pages)" and r: "r \<in> set (concat (take (first_page pages key) pages))"
  shows "rec_key r < key"
proof -
  from r obtain q where q: "q \<in> set (take (first_page pages key) pages)" "r \<in> set q" by auto
  have "take (first_page pages key) pages = takeWhile (\<lambda>p. rec_key (last p) < key) pages"
    by (simp add: first_page_def flip: takeWhile_eq_take)
  with q(1) have "rec_key (last q) < key" by (auto dest: set_takeWhileD)
  moreover have "sorted q" using sorted in_set_takeD [OF q(1)] by (rule sorted_concatD)
  then have "rec_key r \<le> rec_key (last q)" using q(2) by (intro record_le_key sorted_le_last)
  ultimately show ?thesis by simp
qed

lemma first_page_inside:
  assumes ne: "\<forall>p \<in> set pages. p \<noteq> []" and lt: "first_page pages key < length pages"
  shows "\<exists>r \<in> set (pages ! first_page pages key). \<not> rec_key r < key"
proof -
  have "\<not> rec_key (last (pages ! first_page pages key)) < key"
    using lt unfolding first_page_def by (rule nth_length_takeWhile)
  moreover have "last (pages ! first_page pages key) \<in> set (pages ! first_page pages key)" using ne lt by simp
  ultimately show ?thesis by blast
qed

lemma dropWhile_pages:
  assumes sorted: "sorted (concat pages)" and ne: "\<forall>p \<in> set pages. p \<noteq> []"
  shows "dropWhile (\<lambda>r. rec_key r < key) (concat pages) =
    rest_of_pages pages (first_page pages key)
      (length (takeWhile (\<lambda>r. rec_key r < key) (pages ! first_page pages key)))"
proof (cases "first_page pages key < length pages")
  case True
  let ?p = "first_page pages key" and ?P = "\<lambda>r. rec_key r < key"
  have "dropWhile ?P (concat pages) = dropWhile ?P (pages ! ?p @ concat (drop (Suc ?p) pages))"
    using pages_before_first [OF sorted] by (subst concat_split_nth [OF True]) (auto intro: dropWhile_append2)
  also have "\<dots> = dropWhile ?P (pages ! ?p) @ concat (drop (Suc ?p) pages)"
    using first_page_inside [OF ne True] by (auto intro: dropWhile_append1)
  finally show ?thesis using True by (simp add: rest_of_pages_def flip: dropWhile_eq_drop)
next
  case False
  then have "take (first_page pages key) pages = pages" by simp
  with False pages_before_first [OF sorted, of _ key] show ?thesis
    by (simp add: rest_of_pages_def dropWhile_eq_Nil_conv)
qed

lemma si_Seek_at:
  assumes rep: "sst_rep crc psize pages (si_ss_table it)" and sorted: "sorted (concat pages)"
    and start: "si_current_page it = 0" "si_current_record it = 0"
  shows "\<exists>it'. si_Seek crc it = Inr it' \<and> si_range it' = si_range it \<and>
    si_at crc it' (dropWhile (\<lambda>r. \<not> above_lower (si_range it) (rec_key r)) (concat pages))"
proof -
  have ne: "\<forall>p \<in> set pages. p \<noteq> []"
    and cnt: "\<And>t. sst_rep crc psize pages t \<Longrightarrow> sh_page_count (st_header t) = int (length pages)"
    using rep by (auto simp: sst_rep_def list_all_iff)
  show ?thesis
  proof (cases "lower_bound (si_range it)")
    case None
    have "si_at crc it (concat pages)"
      unfolding si_at_def using rep ne start
      by (intro exI [of _ psize] exI [of _ pages] exI [of _ 0]) (cases pages; auto simp: rest_of_pages_def)
    with None show ?thesis by (simp add: above_lower_def si_Seek_def)
  next
    case (Some lower)
    let ?p = "first_page pages lower"
    let ?i = "length (takeWhile (\<lambda>r. rec_key r < lower) (pages ! ?p))"
    have above: "(\<lambda>r. \<not> above_lower (si_range it) (rec_key r)) = (\<lambda>r. rec_key r < lower)"
      using Some by (auto simp: above_lower_def)
    from rep sorted obtain t1 where lb: "st_LowerBound crc (si_ss_table it) lower = Inr (int ?p, t1)"
      and rep1: "sst_rep crc psize pages t1" by (rule sst_rep_LowerBound)
    show ?thesis
    proof (cases "?p < length pages")
      case True
      with rep1 obtain t2 where page: "st_GetPage crc t1 (int ?p) = Inr (page_of (pages ! ?p), t2)"
        and rep2: "sst_rep crc psize pages t2" by (rule sst_rep_GetPage)
      have "?i < length (pages ! ?p)"
        using first_page_inside [OF ne True] by (auto intro: length_takeWhile_less)
      with rep2 have "si_at crc (it\<lparr>si_current_page := int ?p, si_ss_table := t2, si_current_record := int ?i\<rparr>)
          (dropWhile (\<lambda>r. rec_key r < lower) (concat pages))"
        unfolding si_at_def dropWhile_pages [OF sorted ne] by auto
      with Some lb page True rep1 show ?thesis by (simp add: si_Seek_def cnt Page_Find_page_of above)
    next
      case False
      with rep1 start have "si_at crc (it\<lparr>si_ss_table := t1, si_current_page := int ?p\<rparr>)
          (dropWhile (\<lambda>r. rec_key r < lower) (concat pages))"
        unfolding si_at_def dropWhile_pages [OF sorted ne]
        by (intro exI [of _ psize] exI [of _ pages] exI [of _ ?p] exI [of _ 0]) (simp add: rest_of_pages_def)
      with Some lb False rep1 show ?thesis by (simp add: si_Seek_def cnt above)
    qed
  qed
qed

text \<open>A new iterator yields exactly the records of the table that are in its range.\<close>

lemma SSTableIterator_Create_rep:
  assumes "sst_rep crc psize pages t" and sorted: "sorted (concat pages)"
  shows "\<exists>it. SSTableIterator_Create crc t rng = Inr it \<and> si_rep crc it (filter (in_range rng) (concat pages))"
proof -
  let ?it = "\<lparr>si_ss_table = t, si_range = rng, si_current_page = 0, si_current_record = 0, si_next = None\<rparr>"
  from si_Seek_at [of crc psize pages ?it] assms obtain it where it: "si_Seek crc ?it = Inr it" "si_range it = rng"
    and at: "si_at crc it (dropWhile (\<lambda>r. \<not> above_lower rng (rec_key r)) (concat pages))" by auto
  from si_NextImpl_rep [OF at] it show ?thesis
    by (auto simp: SSTableIterator_Create_def scan_sorted [OF sorted])
qed

end
