(* ===== verification/Mem_Table.thy ===== *)
theory Mem_Table
  imports Iterator
begin

section \<open>Mem tables\<close>

text \<open>
  \<open>src/src/server/lsm/mem_table\<close> and \<open>iterators/mem_table_iterator\<close>. The
  \<open>std::multiset<Record>\<close> is the sorted list of its records. An iterator into it is the
  list of the records from its position to the end.
\<close>

record mem_table =
  mt_impl :: "lsm_record list"

definition MemTable :: mem_table where
  "MemTable = \<lparr>mt_impl = []\<rparr>"

definition mt_Put :: "mem_table \<Rightarrow> lsm_record \<Rightarrow> mem_table" where
  "mt_Put m r = m\<lparr>mt_impl := insort r (mt_impl m)\<rparr>"

definition mt_Size :: "mem_table \<Rightarrow> nat" where
  "mt_Size m = length (mt_impl m)"

definition mt_Flush ::
    "crc32 \<Rightarrow> mem_table \<Rightarrow> disk \<Rightarrow> string \<Rightarrow> int \<Rightarrow> nat \<Rightarrow> (ss_table \<times> disk) result" where
  "mt_Flush crc m d file_path psize cap =
     (let (d, file_writer) = fw_Open d file_path False
      in bindE (sb_AddAll crc (SSTableBuilder_Create file_writer psize) (mt_impl m)) (\<lambda>builder.
         bindE (sb_Finish crc builder) (\<lambda>builder.
           let d = fw_Close (sb_file_writer builder) d
           in bindE (fr_Open d file_path) (\<lambda>file_reader.
              bindE (SSTable_Create file_reader cap) (\<lambda>ss_table.
                Inr (ss_table, d))))))"

subsection \<open>MemTableIterator\<close>

record mem_table_iterator =
  mi_range :: scan_range
  mi_it :: "lsm_record list"

text \<open>\<open>multiset::lower_bound\<close>: the first record that is not less than the start record.\<close>

definition MemTableIterator :: "mem_table \<Rightarrow> scan_range \<Rightarrow> mem_table_iterator" where
  "MemTableIterator m rng =
     \<lparr>mi_range = rng,
      mi_it = (case lower_bound rng of
                 Some lower \<Rightarrow>
                   let start_record = Record lower kMaxSequence []
                   in dropWhile (\<lambda>r. r < start_record) (mt_impl m)
               | None \<Rightarrow> mt_impl m)\<rparr>"

definition mi_HasMore :: "mem_table_iterator \<Rightarrow> bool" where
  "mi_HasMore it \<longleftrightarrow>
     (case mi_it it of
        [] \<Rightarrow> False
      | r # _ \<Rightarrow> (case upper_bound (mi_range it) of None \<Rightarrow> True | Some upper \<Rightarrow> rec_key r \<le> upper))"

definition mi_Next :: "mem_table_iterator \<Rightarrow> (lsm_record \<times> mem_table_iterator) result" where
  "mi_Next it =
     (case mi_it it of
        [] \<Rightarrow> Inl OutOfBounds
      | r # rs \<Rightarrow> Inr (r, it\<lparr>mi_it := rs\<rparr>))"

definition mt_Scan :: "mem_table \<Rightarrow> scan_range \<Rightarrow> mem_table_iterator" where
  "mt_Scan m rng = MemTableIterator m rng"

definition mi_rep :: "mem_table_iterator \<Rightarrow> lsm_record list \<Rightarrow> bool" where
  "mi_rep it rs \<longleftrightarrow> rs = takeWhile (\<lambda>r. below_upper (mi_range it) (rec_key r)) (mi_it it)"

interpretation mi: iterator mi_HasMore mi_Next mi_rep
proof unfold_locales
  fix it rs
  assume "mi_rep it rs"
  then show "mi_HasMore it \<longleftrightarrow> rs \<noteq> []"
    by (simp add: mi_rep_def mi_HasMore_def below_upper_def split: list.split option.split)
next
  fix it r rs
  assume "mi_rep it (r # rs)"
  then show "\<exists>it'. mi_Next it = Inr (r, it') \<and> mi_rep it' rs"
    by (auto simp: mi_rep_def mi_Next_def split: list.split if_split_asm)
qed

subsection \<open>Correctness\<close>

definition mt_inv :: "mem_table \<Rightarrow> bool" where
  "mt_inv m \<longleftrightarrow> sorted (mt_impl m) \<and> (\<forall>r \<in> set (mt_impl m). rec_seq r \<le> kMaxSequence)"

lemma mt_inv_MemTable [simp]: "mt_inv MemTable"
  by (simp add: mt_inv_def MemTable_def)

lemma mt_inv_Put: "mt_inv m \<Longrightarrow> rec_seq r \<le> kMaxSequence \<Longrightarrow> mt_inv (mt_Put m r)"
  by (auto simp: mt_inv_def mt_Put_def sorted_insort set_insort_key)

lemma mset_mt_Put: "mset (mt_impl (mt_Put m r)) = add_mset r (mset (mt_impl m))"
  by (simp add: mt_Put_def)

lemma mt_Size_Put [simp]: "mt_Size (mt_Put m r) = Suc (mt_Size m)"
  by (simp add: mt_Size_def mt_Put_def)

lemma start_record_less:
  "rec_seq r \<le> kMaxSequence \<Longrightarrow> r < Record lower kMaxSequence [] \<longleftrightarrow> rec_key r < lower"
  by (cases r) (auto simp: less_lsm_record_def record_less_def)

lemma mt_Scan_rep:
  assumes "mt_inv m"
  shows "mi_rep (mt_Scan m rng) (filter (in_range rng) (mt_impl m))"
proof -
  have "mi_it (mt_Scan m rng) = dropWhile (\<lambda>r. \<not> above_lower rng (rec_key r)) (mt_impl m)"
    using assms
    by (auto simp: mt_Scan_def MemTableIterator_def above_lower_def mt_inv_def start_record_less
        split: option.split intro!: dropWhile_cong)
  then show ?thesis
    using assms by (simp add: mi_rep_def mt_Scan_def MemTableIterator_def mt_inv_def scan_sorted)
qed

lemma mt_Flush_rep:
  assumes good: "good_page_size psize" and st: "list_all (storable psize) (mt_impl m)"
    and small: "file_fits psize (mt_Size m)"
  shows "\<exists>t d' pages. mt_Flush crc m d path psize cap = Inr (t, d') \<and>
    sst_rep crc psize pages t \<and> concat pages = mt_impl m \<and> st_GetFilePath t = path \<and>
    map_of d' = (map_of d)(path \<mapsto> sst_image crc psize pages)"
proof -
  from good st obtain sb pages where
    w: "write_records crc \<lparr>fw_path = path, fw_content = [], fw_pos = 0, fw_append = False\<rparr> psize (mt_impl m) = Inr sb"
    and content: "fw_content (sb_file_writer sb) = sst_image crc psize pages" "fw_path (sb_file_writer sb) = path"
    and cat: "concat pages = mt_impl m" and pages: "list_all (\<lambda>p. p \<noteq> [] \<and> page_fits psize p) pages"
    by (rule write_records_image)
  have sm: "int (length (sst_image crc psize pages)) < 2 ^ 63"
    using good pages small by (intro sst_image_small) (simp_all add: cat mt_Size_def)
  define d' where "d' = fw_Close (sb_file_writer sb) (fst (fw_Open d path False))"
  have d': "map_of d' = (map_of d)(path \<mapsto> sst_image crc psize pages)"
    by (simp add: d'_def content fw_Open_def update_conv')
  let ?fr = "\<lparr>fr_path = path, fr_content = sst_image crc psize pages, fr_pos = 0\<rparr>"
  obtain t where create: "SSTable_Create ?fr cap = Inr t" and t: "sst_rep crc psize pages t" "st_GetFilePath t = path"
    using SSTable_Create_rep [OF good pages _ _ sm, of ?fr cap] by auto
  have reopen: "fr_Open d' path = Inr ?fr" by (simp add: fr_Open_def d')
  from w obtain sb0 where "sb_AddAll crc (SSTableBuilder_Create
      \<lparr>fw_path = path, fw_content = [], fw_pos = 0, fw_append = False\<rparr> psize) (mt_impl m) = Inr sb0"
    "sb_Finish crc sb0 = Inr sb" by (auto simp: write_records_def bindE_Inr_conv)
  with create reopen have "mt_Flush crc m d path psize cap = Inr (t, d')"
    by (simp add: mt_Flush_def split_beta Let_def fw_Open_create flip: d'_def)
  with t cat d' show ?thesis by blast
qed

text \<open>
  C18. Flushing a mem table writes a file from which a scan of any range reads back exactly
  the records of the mem table in that range, in order: page cutting, checksums, headers,
  the page cache and the binary search over pages lose and invent nothing.
\<close>

theorem flush_then_scan:
  assumes "mt_inv m" and "good_page_size psize" and "list_all (storable psize) (mt_impl m)"
    and "file_fits psize (mt_Size m)"
  shows "\<exists>t d' it. mt_Flush crc m d path psize cap = Inr (t, d') \<and>
    SSTableIterator_Create crc t rng = Inr it \<and>
    iter_loop si_HasMore (si_Next crc) collect it [] = Some (Inr (filter (in_range rng) (mt_impl m)))"
proof -
  from mt_Flush_rep [OF assms(2-4)] obtain t d' pages where
    fl: "mt_Flush crc m d path psize cap = Inr (t, d')" and rep: "sst_rep crc psize pages t"
    and cat: "concat pages = mt_impl m" by blast
  have "sorted (concat pages)" using assms(1) by (simp add: cat mt_inv_def)
  from SSTableIterator_Create_rep [OF rep this] obtain it where
    "SSTableIterator_Create crc t rng = Inr it" "si_rep crc it (filter (in_range rng) (mt_impl m))"
    unfolding cat by blast
  with fl si.iter_collect show ?thesis by blast
qed

theorem flush_then_scan_witness:
  "\<exists>t d' it. mt_Flush (\<lambda>_. 0) \<lparr>mt_impl = [Record ''a'' 2 ''x'', Record ''a'' 1 ''y'', Record ''b'' 3 ''z'']\<rparr> [] ''f'' 64 1 = Inr (t, d') \<and>
    SSTableIterator_Create (\<lambda>_. 0) t \<lparr>lower_bound = Some ''b'', upper_bound = None\<rparr> = Inr it \<and>
    iter_loop si_HasMore (si_Next (\<lambda>_. 0)) collect it [] = Some (Inr [Record ''b'' 3 ''z''])"
  using flush_then_scan [of "\<lparr>mt_impl = [Record ''a'' 2 ''x'', Record ''a'' 1 ''y'', Record ''b'' 3 ''z'']\<rparr>" 64
      "\<lambda>_. 0" "[]" "''f''" 1 "\<lparr>lower_bound = Some ''b'', upper_bound = None\<rparr>"]
  by (simp add: mt_inv_def record_less_eq_iff kMaxSequence_def good_page_size_def storable_def length_record_bytes
      file_fits_def mt_Size_def in_range_def above_lower_def below_upper_def)

end
