(* ===== verification/Merge_Iterator.thy ===== *)
theory Merge_Iterator
  imports Mem_Table
begin

section \<open>Merging iterators\<close>

text \<open>
  \<open>src/src/server/lsm/iterators/merge_iterator.cpp\<close>. The iterators that are merged are
  held by \<open>Iterator::Ptr\<close>; the datatype \<open>lsm_iterator\<close> has one constructor for each class
  the program puts behind that pointer, and its operations are the virtual calls. The
  \<open>std::priority_queue\<close> is the list of its items, smallest record first: which of two
  items with equal records is on top is not specified by the library, and does not matter
  for what is yielded.
\<close>

subsection \<open>Iterator::Ptr\<close>

datatype lsm_iterator = MemIter mem_table_iterator | SSIter ss_table_iterator

fun li_HasMore :: "lsm_iterator \<Rightarrow> bool" where
  "li_HasMore (MemIter it) = mi_HasMore it"
| "li_HasMore (SSIter it) = si_HasMore it"

fun li_Next :: "crc32 \<Rightarrow> lsm_iterator \<Rightarrow> (lsm_record \<times> lsm_iterator) result" where
  "li_Next crc (MemIter it) = bindE (mi_Next it) (\<lambda>(r, it). Inr (r, MemIter it))"
| "li_Next crc (SSIter it) = bindE (si_Next crc it) (\<lambda>(r, it). Inr (r, SSIter it))"

fun li_rep :: "crc32 \<Rightarrow> lsm_iterator \<Rightarrow> lsm_record list \<Rightarrow> bool" where
  "li_rep crc (MemIter it) rs = mi_rep it rs"
| "li_rep crc (SSIter it) rs = si_rep crc it rs"

text \<open>\<open>SSTable::Scan\<close>.\<close>

definition st_Scan :: "crc32 \<Rightarrow> ss_table \<Rightarrow> scan_range \<Rightarrow> lsm_iterator result" where
  "st_Scan crc t rng = bindE (SSTableIterator_Create crc t rng) (\<lambda>it. Inr (SSIter it))"

interpretation li: iterator li_HasMore "li_Next crc" "li_rep crc" for crc
proof unfold_locales
  fix it rs
  assume "li_rep crc it rs"
  then show "li_HasMore it \<longleftrightarrow> rs \<noteq> []"
    by (cases it) (auto simp: mi.has_more_rep si.has_more_rep)
next
  fix it r rs
  assume "li_rep crc it (r # rs)"
  then show "\<exists>it'. li_Next crc it = Inr (r, it') \<and> li_rep crc it' rs"
    by (cases it) (auto dest!: mi.nxt_rep si.nxt_rep intro: exI [of _ "MemIter it" for it] exI [of _ "SSIter it" for it])
qed

lemma st_Scan_rep:
  assumes "sst_rep crc psize pages t" and "sorted (concat pages)"
  shows "\<exists>it. st_Scan crc t rng = Inr it \<and> li_rep crc it (filter (in_range rng) (concat pages))"
proof -
  from SSTableIterator_Create_rep [OF assms] obtain it where
    "SSTableIterator_Create crc t rng = Inr it" "si_rep crc it (filter (in_range rng) (concat pages))" by blast
  then show ?thesis by (intro exI [of _ "SSIter it"]) (simp add: st_Scan_def)
qed

subsection \<open>MergeIterator\<close>

record merge_iterator =
  mg_heap :: "(lsm_record \<times> lsm_iterator) list"

definition mg_Add :: "crc32 \<Rightarrow> merge_iterator \<Rightarrow> lsm_iterator \<Rightarrow> merge_iterator result" where
  "mg_Add crc mg iter =
     (if li_HasMore iter then
        bindE (li_Next crc iter) (\<lambda>(r, iter). Inr (mg\<lparr>mg_heap := insort_key fst (r, iter) (mg_heap mg)\<rparr>))
      else Inr mg)"

fun mg_AddAll :: "crc32 \<Rightarrow> merge_iterator \<Rightarrow> lsm_iterator list \<Rightarrow> merge_iterator result" where
  "mg_AddAll crc mg [] = Inr mg"
| "mg_AddAll crc mg (it # its) = bindE (mg_Add crc mg it) (\<lambda>mg. mg_AddAll crc mg its)"

definition MergeIterator_Create :: "crc32 \<Rightarrow> lsm_iterator list \<Rightarrow> merge_iterator result" where
  "MergeIterator_Create crc iterators = mg_AddAll crc \<lparr>mg_heap = []\<rparr> iterators"

definition mg_HasMore :: "merge_iterator \<Rightarrow> bool" where
  "mg_HasMore mg \<longleftrightarrow> mg_heap mg \<noteq> []"

definition mg_Next :: "crc32 \<Rightarrow> merge_iterator \<Rightarrow> (lsm_record \<times> merge_iterator) result" where
  "mg_Next crc mg =
     (case mg_heap mg of
        [] \<Rightarrow> Inl AssertionFailed
      | (r, it) # heap \<Rightarrow> bindE (mg_Add crc (mg\<lparr>mg_heap := heap\<rparr>) it) (\<lambda>mg. Inr (r, mg)))"

subsection \<open>Correctness\<close>

text \<open>The records a heap still has to yield.\<close>

fun heap_rep :: "crc32 \<Rightarrow> (lsm_record \<times> lsm_iterator) list \<Rightarrow> lsm_record multiset \<Rightarrow> bool" where
  "heap_rep crc [] M \<longleftrightarrow> M = {#}"
| "heap_rep crc ((r, it) # heap) M \<longleftrightarrow>
     (\<exists>rs M'. li_rep crc it rs \<and> sorted (r # rs) \<and> heap_rep crc heap M' \<and> M = mset (r # rs) + M')"

definition mg_rep :: "crc32 \<Rightarrow> merge_iterator \<Rightarrow> lsm_record list \<Rightarrow> bool" where
  "mg_rep crc mg rs \<longleftrightarrow> sorted rs \<and> sorted (map fst (mg_heap mg)) \<and> heap_rep crc (mg_heap mg) (mset rs)"

lemma heap_rep_insort:
  "heap_rep crc heap M \<Longrightarrow> li_rep crc it rs \<Longrightarrow> sorted (r # rs) \<Longrightarrow>
   heap_rep crc (insort_key fst (r, it) heap) (mset (r # rs) + M)"
proof (induction heap arbitrary: M)
  case (Cons i heap)
  obtain r' it' where i: "i = (r', it')" by (cases i)
  from Cons.prems(1) obtain rs' M' where i': "li_rep crc it' rs'" "sorted (r' # rs')"
    and h: "heap_rep crc heap M'" and M: "M = mset (r' # rs') + M'" by (auto simp: i)
  show ?case
  proof (cases "r \<le> r'")
    case True
    with Cons.prems show ?thesis by (fastforce simp: i)
  next
    case False
    have "mset (r # rs) + M = mset (r' # rs') + (mset (r # rs) + M')" by (simp add: M)
    with Cons.IH [OF h Cons.prems(2,3)] i' False show ?thesis
      by (simp only: i insort_key.simps fst_conv if_False heap_rep.simps) blast
  qed
qed auto

lemma heap_rep_le:
  "heap_rep crc heap M \<Longrightarrow> \<forall>i \<in> set heap. r \<le> fst i \<Longrightarrow> x \<in># M \<Longrightarrow> r \<le> x"
proof (induction heap arbitrary: M)
  case (Cons i heap)
  then show ?case by (cases i) (fastforce intro: order_trans)
qed simp

lemma mg_Add_rep:
  assumes mg: "mg_rep crc mg rs" and it: "li_rep crc it xs" and s: "sorted xs"
  shows "\<exists>mg'. mg_Add crc mg it = Inr mg' \<and> mg_rep crc mg' (sort (xs @ rs))"
proof (cases xs)
  case Nil
  with assms show ?thesis by (simp add: mg_Add_def li.has_more_rep mg_rep_def sorted_sort_id)
next
  case (Cons r ys)
  with it obtain it' where it': "li_Next crc it = Inr (r, it')" "li_rep crc it' ys" using li.nxt_rep by blast
  with mg s Cons have "heap_rep crc (insort_key fst (r, it') (mg_heap mg)) (mset (r # ys) + mset rs)"
    by (intro heap_rep_insort) (auto simp: mg_rep_def)
  with mg it it' Cons show ?thesis
    by (auto simp: mg_Add_def li.has_more_rep mg_rep_def sorted_insort_key sorted_insort)
qed

lemma mg_AddAll_rep:
  assumes "mg_rep crc mg rs" and "list_all2 (\<lambda>it xs. li_rep crc it xs \<and> sorted xs) its xss"
  shows "\<exists>mg'. mg_AddAll crc mg its = Inr mg' \<and> mg_rep crc mg' (sort (concat xss @ rs))"
  using assms(2,1)
proof (induction arbitrary: mg rs rule: list_all2_induct)
  case Nil
  then show ?case by (simp add: mg_rep_def sorted_sort_id)
next
  case (Cons it its xs xss)
  then obtain mg1 where mg1: "mg_Add crc mg it = Inr mg1" "mg_rep crc mg1 (sort (xs @ rs))"
    using mg_Add_rep by blast
  have "sort (concat xss @ sort (xs @ rs)) = sort (concat (xs # xss) @ rs)"
    by (rule properties_for_sort) simp_all
  with Cons.IH [OF mg1(2)] mg1(1) show ?case by auto
qed

lemma MergeIterator_Create_rep:
  assumes "list_all2 (\<lambda>it xs. li_rep crc it xs \<and> sorted xs) its xss"
  shows "\<exists>mg. MergeIterator_Create crc its = Inr mg \<and> mg_rep crc mg (sort (concat xss))"
  using mg_AddAll_rep [OF _ assms, of "\<lparr>mg_heap = []\<rparr>" "[]"]
  by (simp add: MergeIterator_Create_def mg_rep_def)

interpretation mg: iterator mg_HasMore "mg_Next crc" "mg_rep crc" for crc
proof unfold_locales
  fix mg rs
  assume "mg_rep crc mg rs"
  then show "mg_HasMore mg \<longleftrightarrow> rs \<noteq> []"
    by (cases "mg_heap mg") (auto simp: mg_rep_def mg_HasMore_def)
next
  fix mg r rs
  assume rep: "mg_rep crc mg (r # rs)"
  then obtain r' it heap where heap: "mg_heap mg = (r', it) # heap"
    by (cases "mg_heap mg") (auto simp: mg_rep_def)
  with rep obtain xs M where it: "li_rep crc it xs" "sorted (r' # xs)" and M: "heap_rep crc heap M"
    and eq: "mset (r # rs) = mset (r' # xs) + M" by (auto simp: mg_rep_def)
  have "r' \<le> r"
    using rep heap heap_rep_le [of crc "(r', it) # heap" "mset (r # rs)" r' r] by (auto simp: mg_rep_def)
  moreover have "r' \<in> set (r # rs)" using arg_cong [OF eq, of set_mset] by auto
  then have "r \<le> r'" using rep by (auto simp: mg_rep_def)
  ultimately have r: "r' = r" by simp
  have M': "mset (sorted_list_of_multiset M) = M" by simp
  have "mg_rep crc (mg\<lparr>mg_heap := heap\<rparr>) (sorted_list_of_multiset M)"
    using rep heap M by (simp add: mg_rep_def)
  from mg_Add_rep [OF this it(1)] it(2) obtain mg' where
    "mg_Add crc (mg\<lparr>mg_heap := heap\<rparr>) it = Inr mg'" "mg_rep crc mg' (sort (xs @ sorted_list_of_multiset M))" by auto
  moreover have "sort (xs @ sorted_list_of_multiset M) = rs"
    using rep eq r by (intro properties_for_sort) (simp_all add: mg_rep_def)
  ultimately show "\<exists>it'. mg_Next crc mg = Inr (r, it') \<and> mg_rep crc it' rs"
    by (simp add: mg_Next_def heap r)
qed

end
