(* ===== verification/Decimal.thy ===== *)
theory Decimal
  imports Prelude
begin

section \<open>Decimal numbers in file names\<close>

text \<open>
  The parts of the C++ standard library behind the names of ss tables and of WAL segments:
  \<open>std::format\<close> with \<open>{:04d}\<close> and \<open>std::stoll\<close>. The lemmas give the round trip of a
  number through a file name and the order of names, which the programs that list a
  directory and sort it by name rely on.
\<close>

definition digit :: "nat \<Rightarrow> char" where
  "digit n = char_of (48 + n)"

fun dec :: "nat \<Rightarrow> string" where
  "dec n = (if n < 10 then [digit n] else dec (n div 10) @ [digit (n mod 10)])"

declare dec.simps [simp del]

definition pad0 :: "nat \<Rightarrow> string \<Rightarrow> string" where
  "pad0 width s = replicate (width - length s) (CHR ''0'') @ s"

definition fmt04d :: "int \<Rightarrow> string" where
  "fmt04d i = (if i < 0 then CHR ''-'' # pad0 3 (dec (nat (- i))) else pad0 4 (dec (nat i)))"

definition is_digit :: "char \<Rightarrow> bool" where
  "is_digit c \<longleftrightarrow> 48 \<le> (of_char c :: nat) \<and> (of_char c :: nat) \<le> 57"

definition is_space :: "char \<Rightarrow> bool" where
  "is_space c \<longleftrightarrow> (of_char c :: nat) = 32 \<or> 9 \<le> (of_char c :: nat) \<and> (of_char c :: nat) \<le> 13"

definition undec :: "string \<Rightarrow> nat" where
  "undec s = foldl (\<lambda>a c. 10 * a + (of_char c - 48)) 0 s"

text \<open>\<open>std::stoll\<close>: white space, a sign, digits; what follows the digits is ignored.\<close>

definition stoll :: "string \<Rightarrow> int result" where
  "stoll s =
     (let s = dropWhile is_space s;
          (neg, s) = (case s of
              c # cs \<Rightarrow> if c = CHR ''-'' then (True, cs) else if c = CHR ''+'' then (False, cs) else (False, s)
            | [] \<Rightarrow> (False, []));
          ds = takeWhile is_digit s;
          i = (if neg then - int (undec ds) else int (undec ds))
      in if ds = [] then Inl (InvalidArgument ''stoll'')
         else if - (2 ^ 63) \<le> i \<and> i < 2 ^ 63 then Inr i else Inl OutOfRange)"

subsection \<open>Round trip\<close>

lemma of_char_digit: "n < 10 \<Longrightarrow> (of_char (digit n) :: nat) = 48 + n"
  by (simp add: digit_def)

lemma is_digit_digit [simp]: "n < 10 \<Longrightarrow> is_digit (digit n)"
  by (simp add: is_digit_def of_char_digit)

lemma is_digit_zero [simp]: "is_digit (CHR ''0'')"
  by (simp add: is_digit_def)

lemma undec_snoc: "undec (s @ [c]) = 10 * undec s + (of_char c - 48)"
  by (simp add: undec_def)

lemma undec_dec [simp]: "undec (dec n) = n"
proof (induction n rule: dec.induct)
  case (1 n)
  show ?case
  proof (cases "n < 10")
    case True
    then show ?thesis by (subst dec.simps) (simp add: undec_def of_char_digit)
  next
    case False
    with 1 show ?thesis by (subst dec.simps) (simp add: undec_snoc of_char_digit)
  qed
qed

lemma dec_digits: "list_all is_digit (dec n)"
proof (induction n rule: dec.induct)
  case (1 n)
  then show ?case by (subst dec.simps) simp
qed

lemma dec_not_Nil [simp]: "dec n \<noteq> []"
  by (subst dec.simps) simp

lemma undec_zeros: "undec (replicate k (CHR ''0'') @ s) = undec s"
  by (induction k) (simp_all add: undec_def)

lemma fmt04d_digits: "0 \<le> i \<Longrightarrow> list_all is_digit (fmt04d i)"
  using dec_digits by (auto simp: fmt04d_def pad0_def list_all_iff)

lemma fmt04d_not_Nil [simp]: "fmt04d i \<noteq> []"
  by (simp add: fmt04d_def pad0_def)

lemma undec_fmt04d: "0 \<le> i \<Longrightarrow> int (undec (fmt04d i)) = i"
  by (simp add: fmt04d_def pad0_def undec_zeros)

lemma takeWhile_digits:
  "list_all is_digit ds \<Longrightarrow> (case s of [] \<Rightarrow> True | c # _ \<Rightarrow> \<not> is_digit c) \<Longrightarrow> takeWhile is_digit (ds @ s) = ds"
  by (cases s) (simp_all add: list_all_iff takeWhile_append2)

lemma stoll_digits:
  assumes ds: "list_all is_digit ds" "ds \<noteq> []" and s: "case s of [] \<Rightarrow> True | c # _ \<Rightarrow> \<not> is_digit c"
    and small: "int (undec ds) < 2 ^ 63"
  shows "stoll (ds @ s) = Inr (int (undec ds))"
proof -
  obtain c cs where c: "ds = c # cs" using ds by (cases ds) auto
  then have d: "is_digit c" using ds by simp
  then have "\<not> is_space c" "c \<noteq> CHR ''-''" "c \<noteq> CHR ''+''" by (auto simp: is_digit_def is_space_def)
  with takeWhile_digits [OF ds(1) s] small show ?thesis
    by (simp add: stoll_def c d)
qed

lemma stoll_fmt04d:
  assumes "0 \<le> i" "i < 2 ^ 63" "case s of [] \<Rightarrow> True | c # _ \<Rightarrow> \<not> is_digit c"
  shows "stoll (fmt04d i @ s) = Inr i"
  using stoll_digits [OF fmt04d_digits [OF assms(1)] fmt04d_not_Nil assms(3)] assms(1,2)
  by (simp add: undec_fmt04d)

lemma fmt04d_inj: "0 \<le> i \<Longrightarrow> 0 \<le> j \<Longrightarrow> fmt04d i = fmt04d j \<longleftrightarrow> i = j"
  using undec_fmt04d by metis

subsection \<open>Order of names\<close>

lemma dec_small:
  "n < 10 \<Longrightarrow> dec n = [digit n]"
  "10 \<le> n \<Longrightarrow> dec n = dec (n div 10) @ [digit (n mod 10)]"
  by (subst dec.simps, simp)+

lemma digit_zero [simp]: "digit 0 = CHR ''0''"
  by code_simp

lemma pad0_four:
  "pad0 4 [a] = ''000'' @ [a]" "pad0 4 [a, b] = ''00'' @ [a, b]"
  "pad0 4 [a, b, c] = CHR ''0'' # [a, b, c]" "pad0 4 [a, b, c, d] = [a, b, c, d]"
  by (simp_all add: pad0_def numeral_eq_Suc)

lemma fmt04d_four:
  assumes "n < 10000"
  shows "fmt04d (int n) = [digit (n div 1000), digit (n div 100 mod 10), digit (n div 10 mod 10), digit (n mod 10)]"
proof -
  consider "n < 10" | "10 \<le> n" "n < 100" | "100 \<le> n" "n < 1000" | "1000 \<le> n" by linarith
  then show ?thesis
  proof cases
    case 1
    then show ?thesis by (simp add: fmt04d_def pad0_four dec_small)
  next
    case 2
    then have "n div 10 < 10" "n div 1000 = 0" "n div 100 = 0" by simp_all
    with 2 show ?thesis by (simp add: fmt04d_def pad0_four dec_small)
  next
    case 3
    then have "10 \<le> n div 10" "n div 10 div 10 < 10" "n div 1000 = 0" "n div 10 div 10 = n div 100"
      by (simp_all add: div_mult2_eq [symmetric])
    with 3 show ?thesis by (simp add: fmt04d_def pad0_four dec_small)
  next
    case 4
    with assms have "10 \<le> n div 10" "10 \<le> n div 10 div 10" "n div 10 div 10 div 10 < 10"
      "n div 10 div 10 div 10 = n div 1000" "n div 10 div 10 = n div 100"
      by (simp_all add: div_mult2_eq [symmetric])
    with 4 show ?thesis by (simp add: fmt04d_def pad0_four dec_small)
  qed
qed

lemma digit_less: "m < 10 \<Longrightarrow> n < 10 \<Longrightarrow> digit m < digit n \<longleftrightarrow> m < n"
  by (simp add: less_char_def of_char_digit)

lemma digit_eq: "m < 10 \<Longrightarrow> n < 10 \<Longrightarrow> digit m = digit n \<longleftrightarrow> m = n"
  using of_char_digit by (metis add_left_cancel)

lemma less_div_mod: "m < n \<longleftrightarrow> m div k < n div k \<or> m div k = n div k \<and> m mod k < n mod k" for m n k :: nat
proof -
  have "m < n \<Longrightarrow> \<not> m div k < n div k \<Longrightarrow> m div k = n div k"
    by (simp add: div_le_mono order.antisym not_less)
  moreover have "m div k = n div k \<Longrightarrow> m < n \<longleftrightarrow> m mod k < n mod k"
    using div_mult_mod_eq [of m k] div_mult_mod_eq [of n k] by (metis add_less_cancel_left)
  moreover have "m div k < n div k \<Longrightarrow> m < n" by (meson div_le_mono leD leI)
  ultimately show ?thesis by blast
qed

lemma fmt04d_less:
  assumes "m < n" "n < 10000"
  shows "fmt04d (int m) @ s < fmt04d (int n) @ t"
proof -
  have d: "m div 1000 < 10" "n div 1000 < 10" using assms by simp_all
  have "a div 1000 = a div 100 div 10" "a div 100 = a div 10 div 10" for a :: nat
    using div_mult2_eq [of a 100 10] div_mult2_eq [of a 10 10] by simp_all
  then have eq: "m div 100 = n div 100 \<Longrightarrow> m div 1000 = n div 1000" "m div 10 = n div 10 \<Longrightarrow> m div 100 = n div 100"
    by metis+
  have "m div 1000 < n div 1000 \<or> m div 1000 = n div 1000 \<and>
    (m div 100 mod 10 < n div 100 mod 10 \<or> m div 100 mod 10 = n div 100 mod 10 \<and>
    (m div 10 mod 10 < n div 10 mod 10 \<or> m div 10 mod 10 = n div 10 mod 10 \<and> m mod 10 < n mod 10))"
    using assms(1) less_div_mod [of m n 10] less_div_mod [of "m div 10" "n div 10" 10]
      less_div_mod [of "m div 100" "n div 100" 10]
    by (auto simp flip: div_mult2_eq dest: eq)
  with d assms show ?thesis by (auto simp: fmt04d_four digit_less digit_eq)
qed

text \<open>From the ten thousandth number on, names are no longer in the order of their numbers.\<close>

lemma fmt04d_order_breaks: "fmt04d 10000 < fmt04d 9999"
  by (simp add: fmt04d_def pad0_def dec_small digit_def less_char_def)

end
