(* ===== verification/File_Names.thy ===== *)
theory File_Names
  imports Decimal Io
begin

section \<open>Directories of numbered files\<close>

text \<open>
  The ss tables of an LSM tree and the segments of the log are files named by a number. The
  programs list the directory, sort the names and take the order of the names for the order
  of the numbers, which the lemmas here justify up to number 9999.
\<close>

definition numbered_name :: "string \<Rightarrow> nat \<Rightarrow> string" where
  "numbered_name suffix i = fmt04d (int i) @ suffix"

definition numbered_path :: "string \<Rightarrow> string \<Rightarrow> nat \<Rightarrow> string" where
  "numbered_path dir suffix i = dir @ ''/'' @ numbered_name suffix i"

text \<open>The files of a directory are exactly the given ones.\<close>

definition dir_holds :: "disk \<Rightarrow> string \<Rightarrow> string \<Rightarrow> (nat \<times> bytes) list \<Rightarrow> bool" where
  "dir_holds d dir suffix xs \<longleftrightarrow>
     distinct (map fst d) \<and> sorted_wrt (<) (map fst xs) \<and>
     (\<forall>(i, c) \<in> set xs. map_of d (numbered_path dir suffix i) = Some c) \<and>
     (\<forall>path \<in> fst ` set d. in_directory dir path \<longrightarrow> (\<exists>i \<in> fst ` set xs. path = numbered_path dir suffix i))"

lemma in_fst_set_conv: "x \<in> fst ` set d \<longleftrightarrow> map_of d x \<noteq> None"
  by (simp add: map_of_eq_None_iff)

lemma numbered_path_inj [simp]: "numbered_path dir suffix i = numbered_path dir suffix j \<longleftrightarrow> i = j"
  by (simp add: numbered_path_def numbered_name_def fmt04d_inj)

lemma no_slash_name: "CHR ''/'' \<notin> set suffix \<Longrightarrow> CHR ''/'' \<notin> set (numbered_name suffix i)"
  using fmt04d_digits [of "int i"] by (auto simp: numbered_name_def list_all_iff is_digit_def)

lemma in_directory_append: "in_directory dir (dir @ ''/'' @ name) \<longleftrightarrow> CHR ''/'' \<notin> set name"
  by (simp add: in_directory_def)

lemma in_directory_numbered: "CHR ''/'' \<notin> set suffix \<Longrightarrow> in_directory dir (numbered_path dir suffix i)"
  unfolding numbered_path_def in_directory_append by (rule no_slash_name)

lemma in_directory_drop_inj: "inj_on (drop (Suc (length dir))) {p. in_directory dir p}"
  by (rule inj_onI) (metis append_take_drop_id in_directory_def mem_Collect_eq)

lemma distinct_ListDirectory: "distinct (map fst d) \<Longrightarrow> distinct (io_ListDirectory d dir)"
  unfolding io_ListDirectory_def
  by (auto simp: distinct_map intro: inj_on_subset [OF in_directory_drop_inj])

lemma sorted_numbered_names:
  assumes "sorted_wrt (<) is" "\<forall>i \<in> set is. i < 10000"
  shows "sorted_wrt (<) (map (numbered_name suffix) is)"
  using assms
  by (induction "is") (auto simp: numbered_name_def intro: fmt04d_less)

lemma dir_holds_listing:
  assumes ok: "dir_holds d dir suffix xs" and few: "\<forall>i \<in> fst ` set xs. i < 10000" and sl: "CHR ''/'' \<notin> set suffix"
  shows "sort (io_ListDirectory d dir) = map (numbered_name suffix) (map fst xs)"
proof (rule sorted_distinct_set_unique)
  show "sorted (sort (io_ListDirectory d dir))" by simp
  show "distinct (sort (io_ListDirectory d dir))"
    using ok by (simp add: dir_holds_def distinct_ListDirectory)
  have "sorted_wrt (<) (map (numbered_name suffix) (map fst xs))"
    using ok few by (intro sorted_numbered_names) (auto simp: dir_holds_def)
  then show "sorted (map (numbered_name suffix) (map fst xs))" "distinct (map (numbered_name suffix) (map fst xs))"
    using strict_sorted_iff by auto
  have "CHR ''/'' \<notin> set name \<and> dir @ ''/'' @ name \<in> fst ` set d \<longleftrightarrow> name \<in> numbered_name suffix ` fst ` set xs" for name
  proof
    assume a: "CHR ''/'' \<notin> set name \<and> dir @ ''/'' @ name \<in> fst ` set d"
    then have "in_directory dir (dir @ ''/'' @ name)" by (simp add: in_directory_def)
    with a ok obtain i where "i \<in> fst ` set xs" "dir @ ''/'' @ name = numbered_path dir suffix i"
      unfolding dir_holds_def by blast
    then show "name \<in> numbered_name suffix ` fst ` set xs" by (simp add: numbered_path_def)
  next
    assume "name \<in> numbered_name suffix ` fst ` set xs"
    then obtain i c where i: "(i, c) \<in> set xs" "name = numbered_name suffix i" by auto
    with ok have "map_of d (numbered_path dir suffix i) = Some c" by (auto simp: dir_holds_def)
    then have "numbered_path dir suffix i \<in> fst ` set d" by (simp add: in_fst_set_conv)
    then show "CHR ''/'' \<notin> set name \<and> dir @ ''/'' @ name \<in> fst ` set d"
      using no_slash_name [OF sl, of i] by (simp add: i(2) numbered_path_def)
  qed
  then show "set (sort (io_ListDirectory d dir)) = set (map (numbered_name suffix) (map fst xs))"
    unfolding set_sort set_ListDirectory by auto
qed

lemma dir_holds_snoc:
  assumes ok: "dir_holds d dir suffix xs" and d': "distinct (map fst d')"
    and m: "map_of d' = (map_of d)(numbered_path dir suffix n \<mapsto> c)" and n: "\<forall>i \<in> fst ` set xs. i < n"
  shows "dir_holds d' dir suffix (xs @ [(n, c)])"
proof -
  have "\<exists>i \<in> fst ` set (xs @ [(n, c)]). path = numbered_path dir suffix i"
    if "path \<in> fst ` set d'" "in_directory dir path" for path
  proof (cases "path = numbered_path dir suffix n")
    case False
    with that have "path \<in> fst ` set d" by (simp add: in_fst_set_conv m)
    with ok that(2) show ?thesis by (auto simp: dir_holds_def)
  qed auto
  moreover have "sorted_wrt (<) (map fst (xs @ [(n, c)]))"
    using ok n by (auto simp: dir_holds_def sorted_wrt_append)
  moreover have "\<forall>(i, c') \<in> set (xs @ [(n, c)]). map_of d' (numbered_path dir suffix i) = Some c'"
    using ok n by (fastforce simp: dir_holds_def m)
  ultimately show ?thesis using d' by (simp add: dir_holds_def)
qed

lemma dir_holds_update_last:
  assumes ok: "dir_holds d dir suffix (xs @ [(n, c0)])" and d': "distinct (map fst d')"
    and m: "map_of d' = (map_of d)(numbered_path dir suffix n \<mapsto> c)"
  shows "dir_holds d' dir suffix (xs @ [(n, c)])"
proof -
  have n: "\<forall>i \<in> fst ` set xs. i < n" using ok by (auto simp: dir_holds_def sorted_wrt_append)
  have "map_of d (numbered_path dir suffix n) = Some c0" using ok by (simp add: dir_holds_def)
  then have "fst ` set d' = fst ` set d" by (auto simp: in_fst_set_conv m set_eq_iff split: if_splits)
  with ok d' n show ?thesis by (fastforce simp: dir_holds_def m)
qed

text \<open>A directory does not see what happens in others.\<close>

definition same_in :: "string \<Rightarrow> disk \<Rightarrow> disk \<Rightarrow> bool" where
  "same_in dir d d' \<longleftrightarrow> (\<forall>path. in_directory dir path \<longrightarrow> map_of d' path = map_of d path)"

definition only_in :: "string \<Rightarrow> disk \<Rightarrow> disk \<Rightarrow> bool" where
  "only_in dir d d' \<longleftrightarrow>
     (distinct (map fst d) \<longrightarrow> distinct (map fst d')) \<and> (\<forall>path. \<not> in_directory dir path \<longrightarrow> map_of d' path = map_of d path)"

lemma in_directory_split:
  assumes "in_directory dir path"
  shows "take (length dir) path = dir" "length dir < length path" "path ! length dir = CHR ''/''"
    "CHR ''/'' \<notin> set (drop (Suc (length dir)) path)"
proof -
  have t: "take (Suc (length dir)) path = dir @ ''/''" using assms by (simp add: in_directory_def)
  have "length (take (Suc (length dir)) path) = Suc (length dir)" unfolding t by simp
  then show len: "length dir < length path" by simp
  show "take (length dir) path = dir" using arg_cong [OF t, of "take (length dir)"] by simp
  show "path ! length dir = CHR ''/''" using arg_cong [OF t, of "\<lambda>p. p ! length dir"] len by (simp add: nth_append)
  show "CHR ''/'' \<notin> set (drop (Suc (length dir)) path)" using assms by (simp add: in_directory_def)
qed

lemma in_directory_shorter:
  assumes "in_directory dir path" "in_directory dir' path"
  shows "\<not> length dir < length dir'"
proof
  assume "length dir < length dir'"
  then obtain k where k: "length dir' = Suc (length dir) + k" by (metis add_Suc_right add_Suc less_iff_Suc_add)
  note in_directory_split [OF assms(1)] in_directory_split [OF assms(2)]
  then have "drop (Suc (length dir)) path ! k = CHR ''/''" "k < length (drop (Suc (length dir)) path)"
    by (simp_all add: k)
  with in_directory_split(4) [OF assms(1)] show False by (metis nth_mem)
qed

lemma in_directory_unique: "in_directory dir path \<Longrightarrow> in_directory dir' path \<Longrightarrow> dir = dir'"
  by (metis in_directory_shorter in_directory_split(1) linorder_neqE_nat)

lemma only_in_same_in: "only_in dir d d' \<Longrightarrow> dir \<noteq> dir' \<Longrightarrow> same_in dir' d d'"
  unfolding only_in_def same_in_def using in_directory_unique by blast

lemma only_in_refl [simp]: "only_in dir d d"
  by (simp add: only_in_def)

lemma only_in_trans: "only_in dir d d' \<Longrightarrow> only_in dir d' d'' \<Longrightarrow> only_in dir d d''"
  by (simp add: only_in_def)

lemma only_in_update: "in_directory dir path \<Longrightarrow> only_in dir d (AList.update path c d)"
  by (auto simp: only_in_def distinct_update update_conv')

lemma dir_holds_frame:
  assumes ok: "dir_holds d dir suffix xs" and same: "same_in dir d d'" and d': "distinct (map fst d')" and sl: "CHR ''/'' \<notin> set suffix"
  shows "dir_holds d' dir suffix xs"
proof -
  have "map_of d' (numbered_path dir suffix i) = map_of d (numbered_path dir suffix i)" for i
    using same sl by (simp add: same_in_def in_directory_numbered)
  then have "\<forall>(i, c) \<in> set xs. map_of d' (numbered_path dir suffix i) = Some c" using ok unfolding dir_holds_def by auto
  moreover have "\<exists>i \<in> fst ` set xs. path = numbered_path dir suffix i" if "path \<in> fst ` set d'" "in_directory dir path" for path
  proof -
    have "path \<in> fst ` set d" using that same by (simp add: same_in_def in_fst_set_conv)
    with that(2) ok show ?thesis unfolding dir_holds_def by blast
  qed
  ultimately show ?thesis using ok d' unfolding dir_holds_def by blast
qed

end
