(* ===== verification/Lsm_Tree.thy ===== *)
theory Lsm_Tree
  imports Merge_Iterator File_Names
begin

section \<open>The LSM tree\<close>

text \<open>
  \<open>src/src/server/lsm/lsm.cpp\<close> with its key and range iterators
  (\<open>iterators/lsm_key_iterator.cpp\<close>, \<open>iterators/lsm_range_iterator.cpp\<close>). Each operation is
  one step: \<open>shared_mutex_\<close> and \<open>maintenance_mutex_\<close>, which make it so, are the subject of
  the theory \<open>Shared_Mutex\<close>. An LSM tree stands for the multiset of all records ever put into it that
  compaction has not dropped.
\<close>

subsection \<open>State\<close>

record lsm =
  lsm_base_dir :: string
  lsm_options :: lsm_options
  lsm_mem_table :: mem_table
  lsm_ro_mem_tables :: "mem_table list"
  lsm_ss_tables :: "ss_table list"
  lsm_max_persistent_seq_no :: int
  lsm_next_seq_no :: int

definition Lsm :: "string \<Rightarrow> lsm_options \<Rightarrow> lsm" where
  "Lsm base_dir opts =
     \<lparr>lsm_base_dir = base_dir, lsm_options = opts, lsm_mem_table = MemTable, lsm_ro_mem_tables = [],
      lsm_ss_tables = [], lsm_max_persistent_seq_no = 0, lsm_next_seq_no = 0\<rparr>"

definition sst_path :: "string \<Rightarrow> int \<Rightarrow> string" where
  "sst_path base_dir no = base_dir @ ''/'' @ fmt04d no @ ''.sst.sdb''"

definition after_last_slash :: "string \<Rightarrow> string" where
  "after_last_slash path = rev (takeWhile (\<lambda>c. c \<noteq> CHR ''/'') (rev path))"

definition GetSSTableNo :: "string \<Rightarrow> int" where
  "GetSSTableNo path = (case stoll (after_last_slash path) of Inl _ \<Rightarrow> -1 | Inr no \<Rightarrow> no)"

subsection \<open>Init\<close>

text \<open>
  The loop of \<open>Init\<close> takes the maximum with the local \<open>max_persistent_seq_no\<close>, which stays
  \<open>0\<close>, and not with the member it assigns to.
\<close>

fun lsm_OpenTables :: "disk \<Rightarrow> int \<Rightarrow> lsm \<Rightarrow> string list \<Rightarrow> lsm result" where
  "lsm_OpenTables d max_persistent_seq_no l [] = Inr l"
| "lsm_OpenTables d max_persistent_seq_no l (name # names) =
     bindE (fr_Open d (lsm_base_dir l @ ''/'' @ name)) (\<lambda>file_reader.
     bindE (SSTable_Create file_reader (page_cache_capacity (lsm_options l))) (\<lambda>ss_table.
       lsm_OpenTables d max_persistent_seq_no
         (l\<lparr>lsm_max_persistent_seq_no := max max_persistent_seq_no (st_GetMaxSeqNo ss_table),
            lsm_ss_tables := lsm_ss_tables l @ [ss_table]\<rparr>) names))"

definition lsm_Init :: "disk \<Rightarrow> lsm \<Rightarrow> lsm result" where
  "lsm_Init d l =
     bindE (lsm_OpenTables d 0 l (sort (io_ListDirectory d (lsm_base_dir l)))) (\<lambda>l.
       Inr (l\<lparr>lsm_next_seq_no := lsm_max_persistent_seq_no l + 1\<rparr>))"

subsection \<open>Put\<close>

definition lsm_DoPut :: "lsm \<Rightarrow> int \<Rightarrow> string \<Rightarrow> string \<Rightarrow> lsm" where
  "lsm_DoPut l seq key val =
     (let l = l\<lparr>lsm_mem_table := mt_Put (lsm_mem_table l) (Record key seq val)\<rparr>
      in if mt_Size (lsm_mem_table l) > max_records_in_mem_table (lsm_options l)
         then l\<lparr>lsm_ro_mem_tables := lsm_ro_mem_tables l @ [lsm_mem_table l], lsm_mem_table := MemTable\<rparr>
         else l)"

definition lsm_Put :: "lsm \<Rightarrow> string \<Rightarrow> string \<Rightarrow> int \<times> lsm" where
  "lsm_Put l key val =
     (let seq = lsm_next_seq_no l; l = l\<lparr>lsm_next_seq_no := lsm_next_seq_no l + 1\<rparr>
      in (seq, lsm_DoPut l seq key val))"

definition lsm_PutSeq :: "lsm \<Rightarrow> int \<Rightarrow> string \<Rightarrow> string \<Rightarrow> bool \<times> lsm" where
  "lsm_PutSeq l seq key val =
     (if seq \<noteq> lsm_next_seq_no l then (False, l)
      else let l = lsm_DoPut l seq key val
           in (True, l\<lparr>lsm_next_seq_no := lsm_next_seq_no l + 1\<rparr>))"

subsection \<open>Flush\<close>

fun lsm_FlushLoop :: "crc32 \<Rightarrow> nat \<Rightarrow> lsm \<Rightarrow> disk \<Rightarrow> (lsm \<times> disk) result" where
  "lsm_FlushLoop crc 0 l d = Inr (l, d)"
| "lsm_FlushLoop crc (Suc pending) l d =
     (case lsm_ro_mem_tables l of
        [] \<Rightarrow> Inl OutOfBounds
      | front # rest \<Rightarrow>
          let file_path = sst_path (lsm_base_dir l) (int (length (lsm_ss_tables l)))
          in bindE (mt_Flush crc front d file_path (page_size (lsm_options l)) (page_cache_capacity (lsm_options l)))
               (\<lambda>(ss_table, d).
                  lsm_FlushLoop crc pending
                    (l\<lparr>lsm_max_persistent_seq_no := max (lsm_max_persistent_seq_no l) (st_GetMaxSeqNo ss_table),
                       lsm_ss_tables := lsm_ss_tables l @ [ss_table],
                       lsm_ro_mem_tables := rest\<rparr>) d))"

definition lsm_Flush :: "crc32 \<Rightarrow> lsm \<Rightarrow> disk \<Rightarrow> (lsm \<times> disk) result" where
  "lsm_Flush crc l d = lsm_FlushLoop crc (length (lsm_ro_mem_tables l)) l d"

subsection \<open>LsmKeyIterator\<close>

text \<open>
  The iterator holds a reference to the tree and indexes its tables each time it moves on
  to the next one, so every operation takes the tree as it is at that moment.
\<close>

record lsm_key_iterator =
  ki_range :: scan_range
  ki_ro_mem_table_idx :: int
  ki_ss_table_idx :: int
  ki_current_iterator :: "lsm_iterator option"

definition LsmKeyIterator :: "lsm \<Rightarrow> string \<Rightarrow> lsm_key_iterator" where
  "LsmKeyIterator l key =
     \<lparr>ki_range = \<lparr>lower_bound = Some key, upper_bound = Some key\<rparr>,
      ki_ro_mem_table_idx = int (length (lsm_ro_mem_tables l)) - 1,
      ki_ss_table_idx = int (length (lsm_ss_tables l)) - 1,
      ki_current_iterator = None\<rparr>"

definition ki_GetNextIterator ::
    "crc32 \<Rightarrow> lsm \<Rightarrow> lsm_key_iterator \<Rightarrow> (lsm_iterator option \<times> lsm_key_iterator) result" where
  "ki_GetNextIterator crc l it =
     (if ki_ro_mem_table_idx it \<ge> 0 then
        if nat (ki_ro_mem_table_idx it) < length (lsm_ro_mem_tables l) then
          Inr (Some (MemIter (mt_Scan (lsm_ro_mem_tables l ! nat (ki_ro_mem_table_idx it)) (ki_range it))),
               it\<lparr>ki_ro_mem_table_idx := ki_ro_mem_table_idx it - 1\<rparr>)
        else Inl OutOfBounds
      else if ki_ss_table_idx it \<ge> 0 then
        if nat (ki_ss_table_idx it) < length (lsm_ss_tables l) then
          bindE (st_Scan crc (lsm_ss_tables l ! nat (ki_ss_table_idx it)) (ki_range it)) (\<lambda>i.
            Inr (Some i, it\<lparr>ki_ss_table_idx := ki_ss_table_idx it - 1\<rparr>))
        else Inl OutOfBounds
      else Inr (None, it))"

definition ki_size :: "lsm_key_iterator \<Rightarrow> nat" where
  "ki_size it = nat (ki_ro_mem_table_idx it + 1) + nat (ki_ss_table_idx it + 1) +
     (case ki_current_iterator it of None \<Rightarrow> 0 | Some _ \<Rightarrow> 1)"

lemma ki_GetNextIterator_size:
  "ki_GetNextIterator crc l it = Inr (i, it') \<Longrightarrow> ki_current_iterator it = Some c \<Longrightarrow>
   ki_size (it'\<lparr>ki_current_iterator := i\<rparr>) < ki_size it"
  by (auto simp: ki_GetNextIterator_def ki_size_def bindE_Inr_conv split: if_splits)

function ki_Advance :: "crc32 \<Rightarrow> lsm \<Rightarrow> lsm_key_iterator \<Rightarrow> lsm_key_iterator result" where
  "ki_Advance crc l it =
     (case ki_current_iterator it of
        None \<Rightarrow> Inr it
      | Some cur \<Rightarrow>
          if li_HasMore cur then Inr it
          else bindE (ki_GetNextIterator crc l it) (\<lambda>x.
                 ki_Advance crc l ((snd x)\<lparr>ki_current_iterator := fst x\<rparr>)))"
  by pat_completeness auto
termination
  by (relation "measure (\<lambda>(crc, l, it). ki_size it)") (auto intro: ki_GetNextIterator_size)

declare ki_Advance.simps [simp del]

definition LsmKeyIterator_Create :: "crc32 \<Rightarrow> lsm \<Rightarrow> string \<Rightarrow> lsm_key_iterator result" where
  "LsmKeyIterator_Create crc l key =
     (let it = LsmKeyIterator l key
      in ki_Advance crc l (it\<lparr>ki_current_iterator := Some (MemIter (mt_Scan (lsm_mem_table l) (ki_range it)))\<rparr>))"

definition ki_HasMore :: "lsm_key_iterator \<Rightarrow> bool" where
  "ki_HasMore it \<longleftrightarrow> (case ki_current_iterator it of None \<Rightarrow> False | Some cur \<Rightarrow> li_HasMore cur)"

definition ki_Next :: "crc32 \<Rightarrow> lsm \<Rightarrow> lsm_key_iterator \<Rightarrow> (lsm_record \<times> lsm_key_iterator) result" where
  "ki_Next crc l it =
     (case ki_current_iterator it of
        None \<Rightarrow> Inl AssertionFailed
      | Some cur \<Rightarrow>
          if \<not> li_HasMore cur then Inl AssertionFailed
          else bindE (li_Next crc cur) (\<lambda>(r, cur).
               bindE (ki_Advance crc l (it\<lparr>ki_current_iterator := Some cur\<rparr>)) (\<lambda>it. Inr (r, it))))"

subsection \<open>LsmRangeIterator\<close>

record lsm_range_iterator =
  ri_range :: scan_range
  ri_impl :: merge_iterator

fun scan_all :: "crc32 \<Rightarrow> ss_table list \<Rightarrow> scan_range \<Rightarrow> lsm_iterator list result" where
  "scan_all crc [] rng = Inr []"
| "scan_all crc (t # ts) rng = bindE (st_Scan crc t rng) (\<lambda>it. bindE (scan_all crc ts rng) (\<lambda>its. Inr (it # its)))"

definition LsmRangeIterator_Create :: "crc32 \<Rightarrow> lsm \<Rightarrow> scan_range \<Rightarrow> lsm_range_iterator result" where
  "LsmRangeIterator_Create crc l rng =
     bindE (scan_all crc (lsm_ss_tables l) rng) (\<lambda>its.
     bindE (MergeIterator_Create crc
              (MemIter (mt_Scan (lsm_mem_table l) rng) #
               map (\<lambda>m. MemIter (mt_Scan m rng)) (lsm_ro_mem_tables l) @ its)) (\<lambda>impl.
       Inr \<lparr>ri_range = rng, ri_impl = impl\<rparr>))"

definition ri_HasMore :: "lsm_range_iterator \<Rightarrow> bool" where
  "ri_HasMore it = mg_HasMore (ri_impl it)"

definition ri_Next :: "crc32 \<Rightarrow> lsm_range_iterator \<Rightarrow> (lsm_record \<times> lsm_range_iterator) result" where
  "ri_Next crc it =
     (if \<not> ri_HasMore it then Inl AssertionFailed
      else bindE (mg_Next crc (ri_impl it)) (\<lambda>(r, mg). Inr (r, it\<lparr>ri_impl := mg\<rparr>)))"

subsection \<open>Get and Scan\<close>

definition lsm_ScanKey :: "crc32 \<Rightarrow> lsm \<Rightarrow> string \<Rightarrow> lsm_key_iterator result" where
  "lsm_ScanKey crc l key = LsmKeyIterator_Create crc l key"

definition lsm_ScanRange :: "crc32 \<Rightarrow> lsm \<Rightarrow> scan_range \<Rightarrow> lsm_range_iterator result" where
  "lsm_ScanRange crc l rng = LsmRangeIterator_Create crc l rng"

definition lsm_Get :: "crc32 \<Rightarrow> lsm \<Rightarrow> string \<Rightarrow> string option result option" where
  "lsm_Get crc l key =
     (case lsm_ScanKey crc l key of
        Inl e \<Rightarrow> Some (Inl e)
      | Inr it \<Rightarrow> iter_loop ki_HasMore (ki_Next crc l) (\<lambda>_ r. Inr (Break (Some (rec_value r)))) it None)"

subsection \<open>Compact\<close>

text \<open>
  A \<open>CompactionStrategy\<close> reads the merged records and adds to the builder what is to be
  kept: a function from the merge iterator and the builder to the builder, \<open>None\<close> if it
  does not return.
\<close>

type_synonym compaction_strategy = "merge_iterator \<Rightarrow> ss_table_builder \<Rightarrow> ss_table_builder result option"

definition lsm_Compact :: "crc32 \<Rightarrow> lsm \<Rightarrow> disk \<Rightarrow> compaction_strategy \<Rightarrow> (lsm \<times> disk) result option" where
  "lsm_Compact crc l d CompactRecords =
     (let files_to_delete = map st_GetFilePath (lsm_ss_tables l)
      in case bindE (scan_all crc (lsm_ss_tables l) FullScan) (MergeIterator_Create crc) of
           Inl e \<Rightarrow> Some (Inl e)
         | Inr merge_iterator \<Rightarrow>
             let new_sst_no = (if lsm_ss_tables l \<noteq> [] then GetSSTableNo (st_GetFilePath (last (lsm_ss_tables l))) + 1 else 0);
                 file_path = sst_path (lsm_base_dir l) new_sst_no;
                 (d, file_writer) = fw_Open d file_path False;
                 builder = SSTableBuilder_Create file_writer (page_size (lsm_options l))
             in case CompactRecords merge_iterator builder of
                  None \<Rightarrow> None
                | Some builder \<Rightarrow> Some (
                    bindE builder (\<lambda>builder.
                    bindE (sb_Finish crc builder) (\<lambda>builder.
                    let d = fw_Close (sb_file_writer builder) d
                    in bindE (fr_Open d file_path) (\<lambda>file_reader.
                       bindE (SSTable_Create file_reader (page_cache_capacity (lsm_options l))) (\<lambda>ss_table.
                         Inr (l\<lparr>lsm_ss_tables := [ss_table]\<rparr>, foldl io_Remove d files_to_delete)))))))"

definition lsm_CountSSTables :: "lsm \<Rightarrow> nat" where
  "lsm_CountSSTables l = length (lsm_ss_tables l)"

end
