(* ===== verification/Lsm_Correct.thy ===== *)
theory Lsm_Correct
  imports Lsm_Tree
begin

section \<open>Correctness of the LSM tree\<close>

text \<open>
  The invariant of the tree, the contents it stands for, and what \<open>Get\<close>, the two scans,
  \<open>Put\<close>, \<open>Flush\<close> and \<open>Compact\<close> do to them.
\<close>

subsection \<open>Contents and invariant\<close>

definition ss_holds :: "crc32 \<Rightarrow> ss_table \<Rightarrow> lsm_record list \<Rightarrow> bool" where
  "ss_holds crc t rs \<longleftrightarrow> (\<exists>psize pages. sst_rep crc psize pages t \<and> concat pages = rs \<and> sorted rs)"

text \<open>The tables, newest first.\<close>

definition lsm_levels :: "lsm \<Rightarrow> lsm_record list list \<Rightarrow> lsm_record list list" where
  "lsm_levels l sss = mt_impl (lsm_mem_table l) # rev (map mt_impl (lsm_ro_mem_tables l)) @ rev sss"

definition newer :: "lsm_record list \<Rightarrow> lsm_record list \<Rightarrow> bool" where
  "newer xs ys \<longleftrightarrow> (\<forall>x \<in> set xs. \<forall>y \<in> set ys. rec_seq y < rec_seq x)"

definition mem_records :: "lsm \<Rightarrow> lsm_record set" where
  "mem_records l = set (mt_impl (lsm_mem_table l)) \<union> (\<Union>m \<in> set (lsm_ro_mem_tables l). set (mt_impl m))"

definition lsm_tables_ok :: "crc32 \<Rightarrow> lsm \<Rightarrow> lsm_record list list \<Rightarrow> bool" where
  "lsm_tables_ok crc l sss \<longleftrightarrow>
     mt_inv (lsm_mem_table l) \<and> list_all mt_inv (lsm_ro_mem_tables l) \<and> list_all2 (ss_holds crc) (lsm_ss_tables l) sss"

definition lsm_inv :: "crc32 \<Rightarrow> lsm \<Rightarrow> lsm_record list list \<Rightarrow> bool" where
  "lsm_inv crc l sss \<longleftrightarrow>
     lsm_tables_ok crc l sss \<and>
     sorted_wrt newer (lsm_levels l sss) \<and>
     (\<forall>r \<in> set (concat (lsm_levels l sss)). rec_seq r < lsm_next_seq_no l) \<and>
     (\<forall>r \<in> set (concat sss). rec_seq r \<le> lsm_max_persistent_seq_no l) \<and>
     (\<forall>r \<in> mem_records l. lsm_max_persistent_seq_no l < rec_seq r) \<and>
     0 \<le> lsm_max_persistent_seq_no l \<and> lsm_max_persistent_seq_no l < lsm_next_seq_no l"

definition lsm_contents :: "lsm \<Rightarrow> lsm_record list list \<Rightarrow> lsm_record multiset" where
  "lsm_contents l sss = mset (concat (lsm_levels l sss))"

definition key_range :: "string \<Rightarrow> scan_range" where
  "key_range key = \<lparr>lower_bound = Some key, upper_bound = Some key\<rparr>"

lemma in_key_range [simp]: "in_range (key_range key) = (\<lambda>r. rec_key r = key)"
  by (auto simp: fun_eq_iff key_range_def in_range_def above_lower_def below_upper_def)

lemma ss_holds_sorted: "ss_holds crc t rs \<Longrightarrow> sorted rs"
  by (auto simp: ss_holds_def)

lemma ss_holds_max_seq: "ss_holds crc t rs \<Longrightarrow> st_GetMaxSeqNo t = max_seq rs"
  by (auto simp: ss_holds_def sst_rep_def st_GetMaxSeqNo_def)

lemma ss_holds_Scan:
  "ss_holds crc t rs \<Longrightarrow> \<exists>it. st_Scan crc t rng = Inr it \<and> li_rep crc it (filter (in_range rng) rs)"
  unfolding ss_holds_def using st_Scan_rep by blast

lemma levels_sorted: "lsm_tables_ok crc l sss \<Longrightarrow> xs \<in> set (lsm_levels l sss) \<Longrightarrow> sorted xs"
  by (auto simp: lsm_tables_ok_def lsm_levels_def mt_inv_def list_all_iff
      dest: ss_holds_sorted list_all2_nthD2 simp: in_set_conv_nth)

subsection \<open>Scan by key\<close>

text \<open>What is left after the current table: the tables the two indices still point to.\<close>

definition ki_left :: "lsm \<Rightarrow> lsm_record list list \<Rightarrow> lsm_key_iterator \<Rightarrow> lsm_record list" where
  "ki_left l sss it =
     filter (in_range (ki_range it))
       (concat (rev (map mt_impl (take (nat (ki_ro_mem_table_idx it + 1)) (lsm_ro_mem_tables l))) @
                rev (take (nat (ki_ss_table_idx it + 1)) sss)))"

definition ki_at :: "crc32 \<Rightarrow> lsm \<Rightarrow> lsm_key_iterator \<Rightarrow> lsm_record list \<Rightarrow> bool" where
  "ki_at crc l it rs \<longleftrightarrow>
     (\<exists>sss. lsm_tables_ok crc l sss \<and>
        ki_ro_mem_table_idx it < int (length (lsm_ro_mem_tables l)) \<and>
        ki_ss_table_idx it < int (length (lsm_ss_tables l)) \<and>
        (case ki_current_iterator it of
           None \<Rightarrow> rs = []
         | Some cur \<Rightarrow> \<exists>xs. li_rep crc cur xs \<and> rs = xs @ ki_left l sss it))"

definition ki_rep :: "crc32 \<Rightarrow> lsm \<Rightarrow> lsm_key_iterator \<Rightarrow> lsm_record list \<Rightarrow> bool" where
  "ki_rep crc l it rs \<longleftrightarrow> ki_at crc l it rs \<and> (ki_HasMore it \<longleftrightarrow> rs \<noteq> [])"

lemma take_nat_Suc:
  "0 \<le> i \<Longrightarrow> nat i < length xs \<Longrightarrow> take (nat (i + 1)) xs = take (nat i) xs @ [xs ! nat i]"
  by (simp add: nat_add_distrib take_Suc_conv_app_nth)

lemma ki_GetNextIterator_rep:
  assumes ok: "lsm_tables_ok crc l sss"
    and idx: "ki_ro_mem_table_idx it < int (length (lsm_ro_mem_tables l))"
      "ki_ss_table_idx it < int (length (lsm_ss_tables l))"
  shows "\<exists>i it'. ki_GetNextIterator crc l it = Inr (i, it') \<and>
    ki_at crc l (it'\<lparr>ki_current_iterator := i\<rparr>) (ki_left l sss it)"
proof -
  have len: "length sss = length (lsm_ss_tables l)" using ok by (auto simp: lsm_tables_ok_def dest: list_all2_lengthD)
  consider (ro) "ki_ro_mem_table_idx it \<ge> 0" | (ss) "ki_ro_mem_table_idx it < 0" "ki_ss_table_idx it \<ge> 0"
    | (none) "ki_ro_mem_table_idx it < 0" "ki_ss_table_idx it < 0" by linarith
  then show ?thesis
  proof cases
    case ro
    let ?m = "lsm_ro_mem_tables l ! nat (ki_ro_mem_table_idx it)"
    have lt: "nat (ki_ro_mem_table_idx it) < length (lsm_ro_mem_tables l)" using ro idx by simp
    have "mt_inv ?m" using ok lt by (simp add: lsm_tables_ok_def list_all_length)
    then have "li_rep crc (MemIter (mt_Scan ?m (ki_range it))) (filter (in_range (ki_range it)) (mt_impl ?m))"
      by (simp add: mt_Scan_rep)
    with ro lt ok idx show ?thesis
      by (fastforce simp: ki_GetNextIterator_def ki_at_def ki_left_def take_nat_Suc)
  next
    case ss
    let ?t = "lsm_ss_tables l ! nat (ki_ss_table_idx it)" and ?rs = "sss ! nat (ki_ss_table_idx it)"
    have lt: "nat (ki_ss_table_idx it) < length (lsm_ss_tables l)" using ss idx by simp
    then have "ss_holds crc ?t ?rs" using ok by (auto simp: lsm_tables_ok_def dest: list_all2_nthD)
    from ss_holds_Scan [OF this, of "ki_range it"] obtain i where
      "st_Scan crc ?t (ki_range it) = Inr i" "li_rep crc i (filter (in_range (ki_range it)) ?rs)" by blast
    with ss lt ok idx show ?thesis
      by (fastforce simp: ki_GetNextIterator_def ki_at_def ki_left_def take_nat_Suc len)
  next
    case none
    with ok idx show ?thesis
      by (auto simp: ki_GetNextIterator_def ki_at_def ki_left_def)
  qed
qed

lemma ki_Advance_rep: "ki_at crc l it rs \<Longrightarrow> \<exists>it'. ki_Advance crc l it = Inr it' \<and> ki_rep crc l it' rs"
proof (induction crc l it rule: ki_Advance.induct)
  case (1 crc l it)
  show ?case
  proof (cases "ki_current_iterator it")
    case None
    with 1(2) show ?thesis by (subst ki_Advance.simps) (simp add: ki_rep_def ki_HasMore_def ki_at_def)
  next
    case (Some cur)
    with 1(2) obtain sss xs where ok: "lsm_tables_ok crc l sss"
      "ki_ro_mem_table_idx it < int (length (lsm_ro_mem_tables l))"
      "ki_ss_table_idx it < int (length (lsm_ss_tables l))"
      and xs: "li_rep crc cur xs" "rs = xs @ ki_left l sss it" by (auto simp: ki_at_def)
    show ?thesis
    proof (cases "xs = []")
      case True
      from ki_GetNextIterator_rep [OF ok] obtain i it' where
        n: "ki_GetNextIterator crc l it = Inr (i, it')" "ki_at crc l (it'\<lparr>ki_current_iterator := i\<rparr>) rs"
        using True xs(2) by auto
      moreover have "\<not> li_HasMore cur" using xs(1) True by (simp add: li.has_more_rep)
      ultimately show ?thesis using 1(1) [OF Some, of "(i, it')"] Some by (subst ki_Advance.simps) simp
    next
      case False
      with xs 1(2) Some show ?thesis
        by (subst ki_Advance.simps) (simp add: ki_rep_def ki_HasMore_def li.has_more_rep [OF xs(1)])
    qed
  qed
qed

interpretation ki: iterator ki_HasMore "ki_Next crc l" "ki_rep crc l" for crc l
proof unfold_locales
  fix it rs
  assume "ki_rep crc l it rs"
  then show "ki_HasMore it \<longleftrightarrow> rs \<noteq> []" by (simp add: ki_rep_def)
next
  fix it r rs
  assume rep: "ki_rep crc l it (r # rs)"
  then obtain cur sss xs where cur: "ki_current_iterator it = Some cur" "li_HasMore cur"
    and ok: "lsm_tables_ok crc l sss" "ki_ro_mem_table_idx it < int (length (lsm_ro_mem_tables l))"
      "ki_ss_table_idx it < int (length (lsm_ss_tables l))"
    and xs: "li_rep crc cur xs" "r # rs = xs @ ki_left l sss it"
    by (auto simp: ki_rep_def ki_at_def ki_HasMore_def split: option.splits)
  from xs cur(2) obtain ys where ys: "xs = r # ys" by (cases xs) (auto simp: li.has_more_rep)
  with xs obtain cur' where n: "li_Next crc cur = Inr (r, cur')" "li_rep crc cur' ys" using li.nxt_rep by blast
  with ok xs ys have "ki_at crc l (it\<lparr>ki_current_iterator := Some cur'\<rparr>) rs"
    by (auto simp: ki_at_def ki_left_def)
  from ki_Advance_rep [OF this] n cur show "\<exists>it'. ki_Next crc l it = Inr (r, it') \<and> ki_rep crc l it' rs"
    by (auto simp: ki_Next_def)
qed

lemma LsmKeyIterator_Create_rep:
  assumes ok: "lsm_tables_ok crc l sss"
  shows "\<exists>it. LsmKeyIterator_Create crc l key = Inr it \<and>
    ki_rep crc l it (filter (\<lambda>r. rec_key r = key) (concat (lsm_levels l sss)))"
proof -
  let ?it = "LsmKeyIterator l key"
  let ?cur = "MemIter (mt_Scan (lsm_mem_table l) (ki_range ?it))"
  have it: "?it = \<lparr>ki_range = key_range key, ki_ro_mem_table_idx = int (length (lsm_ro_mem_tables l)) - 1,
      ki_ss_table_idx = int (length (lsm_ss_tables l)) - 1, ki_current_iterator = None\<rparr>"
    by (simp add: LsmKeyIterator_def key_range_def)
  have "length sss = length (lsm_ss_tables l)" using ok by (auto simp: lsm_tables_ok_def dest: list_all2_lengthD)
  moreover have "li_rep crc ?cur (filter (in_range (key_range key)) (mt_impl (lsm_mem_table l)))"
    using ok mt_Scan_rep [of "lsm_mem_table l" "key_range key"] by (simp add: it lsm_tables_ok_def)
  ultimately have "ki_at crc l (?it\<lparr>ki_current_iterator := Some ?cur\<rparr>) (filter (\<lambda>r. rec_key r = key) (concat (lsm_levels l sss)))"
    using ok unfolding ki_at_def
    by (intro exI [of _ sss]) (auto simp: ki_left_def lsm_levels_def it)
  from ki_Advance_rep [OF this] show ?thesis by (simp add: LsmKeyIterator_Create_def Let_def)
qed

lemma key_levels_sorted:
  assumes "\<forall>xs \<in> set levels. sorted xs" and "sorted_wrt newer levels"
  shows "sorted (filter (\<lambda>r. rec_key r = key) (concat levels))"
  using assms
proof (induction levels)
  case (Cons xs levels)
  have "x \<le> y" if "x \<in> set xs" "y \<in> set (concat levels)" "rec_key x = rec_key y" for x y
    using that Cons.prems(2) by (auto simp: newer_def record_less_eq_iff)
  with Cons show ?case by (auto simp: sorted_append sorted_filter [where f = id, simplified])
qed simp

lemma lsm_key_scan:
  assumes "lsm_inv crc l sss"
  shows "filter (\<lambda>r. rec_key r = key) (concat (lsm_levels l sss)) =
    filter (\<lambda>r. rec_key r = key) (sorted_list_of_multiset (lsm_contents l sss))"
proof -
  have "sorted (filter (\<lambda>r. rec_key r = key) (concat (lsm_levels l sss)))"
    using assms levels_sorted by (intro key_levels_sorted) (auto simp: lsm_inv_def)
  then show ?thesis by (simp add: lsm_contents_def filter_sort sorted_sort_id)
qed

subsection \<open>Scan by range\<close>

definition ri_rep :: "crc32 \<Rightarrow> lsm_range_iterator \<Rightarrow> lsm_record list \<Rightarrow> bool" where
  "ri_rep crc it rs = mg_rep crc (ri_impl it) rs"

interpretation ri: iterator ri_HasMore "ri_Next crc" "ri_rep crc" for crc
proof unfold_locales
  fix it rs
  assume "ri_rep crc it rs"
  then show "ri_HasMore it \<longleftrightarrow> rs \<noteq> []" by (simp add: ri_rep_def ri_HasMore_def mg.has_more_rep)
next
  fix it r rs
  assume "ri_rep crc it (r # rs)"
  then have rep: "mg_rep crc (ri_impl it) (r # rs)" by (simp add: ri_rep_def)
  from mg.nxt_rep [OF this] mg.has_more_rep [OF this]
  show "\<exists>it'. ri_Next crc it = Inr (r, it') \<and> ri_rep crc it' rs"
    by (auto simp: ri_Next_def ri_HasMore_def ri_rep_def)
qed

lemma scan_all_rep:
  assumes "list_all2 (ss_holds crc) ts sss"
  shows "\<exists>its. scan_all crc ts rng = Inr its \<and>
    list_all2 (\<lambda>it xs. li_rep crc it xs \<and> sorted xs) its (map (filter (in_range rng)) sss)"
  using assms
proof (induction rule: list_all2_induct)
  case (Cons t ts rs sss)
  from ss_holds_Scan [OF Cons(1), of rng] obtain it where
    "st_Scan crc t rng = Inr it" "li_rep crc it (filter (in_range rng) rs)" by blast
  with Cons ss_holds_sorted [OF Cons(1)] show ?case
    by (auto simp: sorted_filter [where f = id, simplified])
qed simp

lemma mem_scans_rep:
  "list_all mt_inv ms \<Longrightarrow>
   list_all2 (\<lambda>it xs. li_rep crc it xs \<and> sorted xs) (map (\<lambda>m. MemIter (mt_Scan m rng)) ms)
     (map (filter (in_range rng)) (map mt_impl ms))"
proof (induction ms)
  case (Cons m ms)
  then have "mt_inv m" by simp
  with Cons mt_Scan_rep [OF this, of rng] show ?case
    by (auto simp: mt_inv_def sorted_filter [where f = id, simplified])
qed simp

lemma concat_map_filter: "concat (map (filter P) xss) = filter P (concat xss)"
  by (induction xss) simp_all

lemma mset_concat_rev: "mset (concat (rev xss)) = mset (concat xss)"
  by (induction xss) simp_all

lemma LsmRangeIterator_Create_rep:
  assumes ok: "lsm_tables_ok crc l sss"
  shows "\<exists>it. LsmRangeIterator_Create crc l rng = Inr it \<and>
    ri_rep crc it (filter (in_range rng) (sorted_list_of_multiset (lsm_contents l sss)))"
proof -
  let ?mems = "lsm_mem_table l # lsm_ro_mem_tables l"
  let ?xss = "map (filter (in_range rng)) (map mt_impl ?mems @ sss)"
  from scan_all_rep ok obtain its where its: "scan_all crc (lsm_ss_tables l) rng = Inr its"
    "list_all2 (\<lambda>it xs. li_rep crc it xs \<and> sorted xs) its (map (filter (in_range rng)) sss)"
    unfolding lsm_tables_ok_def by blast
  have "list_all2 (\<lambda>it xs. li_rep crc it xs \<and> sorted xs) (map (\<lambda>m. MemIter (mt_Scan m rng)) ?mems @ its) ?xss"
    unfolding map_append using ok its(2)
    by (intro list_all2_appendI mem_scans_rep) (simp_all add: lsm_tables_ok_def)
  from MergeIterator_Create_rep [OF this] obtain impl where impl:
    "MergeIterator_Create crc (map (\<lambda>m. MemIter (mt_Scan m rng)) ?mems @ its) = Inr impl"
    "mg_rep crc impl (sort (concat ?xss))" by blast
  have "sort (concat ?xss) = filter (in_range rng) (sort (concat (lsm_levels l sss)))"
    unfolding concat_map_filter filter_sort
    by (intro properties_for_sort) (simp_all add: lsm_levels_def mset_concat_rev)
  with impl its(1) show ?thesis
    by (simp add: LsmRangeIterator_Create_def ri_rep_def lsm_contents_def)
qed

end
