(* ===== verification/Lsm_Store.thy ===== *)
theory Lsm_Store
  imports Lsm_Correct
begin

section \<open>The LSM tree as a store\<close>

text \<open>
  What the operations of the tree do to its contents, and the tree against its
  specification: a map from keys to the last value put. Restarting from the files and the
  names of the files are here too.
\<close>

subsection \<open>Put\<close>

text \<open>Every mem table can be written to a file.\<close>

definition mem_table_fits :: "lsm_options \<Rightarrow> mem_table \<Rightarrow> bool" where
  "mem_table_fits opts m \<longleftrightarrow>
     list_all (storable (page_size opts)) (mt_impl m) \<and> mt_Size m \<le> Suc (max_records_in_mem_table opts)"

definition good_options :: "lsm_options \<Rightarrow> bool" where
  "good_options opts \<longleftrightarrow>
     good_page_size (page_size opts) \<and> file_fits (page_size opts) (Suc (max_records_in_mem_table opts))"

definition lsm_fits :: "lsm \<Rightarrow> bool" where
  "lsm_fits l \<longleftrightarrow>
     good_options (lsm_options l) \<and> list_all (mem_table_fits (lsm_options l)) (lsm_ro_mem_tables l) \<and>
     mem_table_fits (lsm_options l) (lsm_mem_table l) \<and>
     mt_Size (lsm_mem_table l) \<le> max_records_in_mem_table (lsm_options l)"

lemma mt_impl_MemTable [simp]: "mt_impl MemTable = []" "mt_Size MemTable = 0"
  by (simp_all add: MemTable_def mt_Size_def)

lemma mem_table_fits_Put:
  "mem_table_fits opts m \<Longrightarrow> mt_Size m \<le> max_records_in_mem_table opts \<Longrightarrow> storable (page_size opts) r \<Longrightarrow>
   mem_table_fits opts (mt_Put m r)"
  by (auto simp: mem_table_fits_def mt_Put_def mt_Size_def list_all_iff set_insort_key)

lemma lsm_fits_DoPut:
  assumes "lsm_fits l" "storable (page_size (lsm_options l)) (Record key seq val)"
  shows "lsm_fits (lsm_DoPut l seq key val)"
  using assms mem_table_fits_Put [of "lsm_options l" "lsm_mem_table l" "Record key seq val"]
  by (auto simp: lsm_fits_def lsm_DoPut_def Let_def mem_table_fits_def)

lemma next_seq_no_frame [simp]:
  "lsm_levels (l\<lparr>lsm_next_seq_no := s\<rparr>) sss = lsm_levels l sss"
  "mem_records (l\<lparr>lsm_next_seq_no := s\<rparr>) = mem_records l"
  "lsm_contents (l\<lparr>lsm_next_seq_no := s\<rparr>) sss = lsm_contents l sss"
  "lsm_fits (l\<lparr>lsm_next_seq_no := s\<rparr>) = lsm_fits l"
  by (simp_all add: lsm_levels_def mem_records_def lsm_contents_def lsm_fits_def)

lemma DoPut_frame [simp]:
  "lsm_ss_tables (lsm_DoPut l seq key val) = lsm_ss_tables l"
  "lsm_max_persistent_seq_no (lsm_DoPut l seq key val) = lsm_max_persistent_seq_no l"
  "lsm_next_seq_no (lsm_DoPut l seq key val) = lsm_next_seq_no l"
  "lsm_options (lsm_DoPut l seq key val) = lsm_options l"
  "lsm_base_dir (lsm_DoPut l seq key val) = lsm_base_dir l"
  by (simp_all add: lsm_DoPut_def Let_def)

lemma set_mt_Put: "set (mt_impl (mt_Put m r)) = insert r (set (mt_impl m))"
  by (simp add: mt_Put_def set_insort_key)

lemma mem_records_DoPut: "mem_records (lsm_DoPut l seq key val) = insert (Record key seq val) (mem_records l)"
  by (auto simp: mem_records_def lsm_DoPut_def Let_def set_mt_Put)

lemma levels_DoPut:
  "filter (\<lambda>xs. xs \<noteq> []) (lsm_levels (lsm_DoPut l seq key val) sss) =
   mt_impl (mt_Put (lsm_mem_table l) (Record key seq val)) #
     filter (\<lambda>xs. xs \<noteq> []) (rev (map mt_impl (lsm_ro_mem_tables l)) @ rev sss)"
  by (simp add: lsm_levels_def lsm_DoPut_def Let_def mt_Put_def)

lemma sorted_wrt_newer_nonempty: "sorted_wrt newer levels \<longleftrightarrow> sorted_wrt newer (filter (\<lambda>xs. xs \<noteq> []) levels)"
  by (induction levels) (auto simp: newer_def)

lemma concat_filter_nonempty: "concat (filter (\<lambda>xs. xs \<noteq> []) xss) = concat xss"
  by (induction xss) auto

lemma contents_DoPut: "lsm_contents (lsm_DoPut l seq key val) sss = add_mset (Record key seq val) (lsm_contents l sss)"
proof -
  have "mset (concat (lsm_levels (lsm_DoPut l seq key val) sss)) =
    mset (concat (filter (\<lambda>xs. xs \<noteq> []) (lsm_levels (lsm_DoPut l seq key val) sss)))"
    by (simp only: concat_filter_nonempty)
  also have "\<dots> = add_mset (Record key seq val) (mset (concat (lsm_levels l sss)))"
    unfolding levels_DoPut concat.simps(2) concat_filter_nonempty by (simp add: mset_mt_Put lsm_levels_def)
  finally show ?thesis by (simp add: lsm_contents_def)
qed

lemma set_levels: "set (concat (lsm_levels l sss)) = set_mset (lsm_contents l sss)"
  by (simp add: lsm_contents_def)

lemma lsm_inv_DoPut:
  assumes inv: "lsm_inv crc l sss" and seq: "seq = lsm_next_seq_no l" "seq \<le> kMaxSequence"
  shows "lsm_inv crc ((lsm_DoPut l seq key val)\<lparr>lsm_next_seq_no := seq + 1\<rparr>) sss"
proof -
  let ?l = "lsm_DoPut l seq key val" and ?r = "Record key seq val"
  let ?l' = "?l\<lparr>lsm_next_seq_no := seq + 1\<rparr>"
  have all: "\<forall>r \<in> set (concat (lsm_levels l sss)). rec_seq r < seq"
    using inv by (simp add: lsm_inv_def seq)
  have "mt_inv (mt_Put (lsm_mem_table l) ?r)"
    using inv seq by (intro mt_inv_Put) (simp_all add: lsm_inv_def lsm_tables_ok_def)
  then have "lsm_tables_ok crc ?l' sss"
    using inv by (auto simp: lsm_inv_def lsm_tables_ok_def lsm_DoPut_def Let_def)
  moreover have "sorted_wrt newer (filter (\<lambda>xs. xs \<noteq> []) (rev (map mt_impl (lsm_ro_mem_tables l)) @ rev sss))"
    using inv by (subst sorted_wrt_newer_nonempty [symmetric]) (simp add: lsm_inv_def lsm_levels_def)
  then have "sorted_wrt newer (lsm_levels ?l sss)"
    using inv all by (subst sorted_wrt_newer_nonempty, unfold levels_DoPut)
      (auto simp: lsm_inv_def lsm_levels_def newer_def set_mt_Put)
  moreover have "\<forall>r \<in> set (concat (lsm_levels ?l sss)). rec_seq r < seq + 1"
    using all unfolding set_levels contents_DoPut by auto
  moreover have "\<forall>r \<in> mem_records ?l. lsm_max_persistent_seq_no l < rec_seq r"
    using inv by (auto simp: mem_records_DoPut lsm_inv_def seq)
  ultimately show ?thesis
    using inv by (simp add: lsm_inv_def seq)
qed

lemma lsm_Put_eq:
  "lsm_Put l key val =
     (lsm_next_seq_no l, (lsm_DoPut l (lsm_next_seq_no l) key val)\<lparr>lsm_next_seq_no := lsm_next_seq_no l + 1\<rparr>)"
  by (simp add: lsm_Put_def lsm_DoPut_def Let_def mt_Size_def)

lemma lsm_PutSeq_eq:
  "lsm_PutSeq l seq key val = (if seq = lsm_next_seq_no l then (True, snd (lsm_Put l key val)) else (False, l))"
  by (simp add: lsm_PutSeq_def lsm_Put_eq Let_def)

lemma lsm_Put_step:
  assumes "lsm_inv crc l sss" "lsm_fits l" "lsm_next_seq_no l \<le> kMaxSequence"
    and "storable (page_size (lsm_options l)) (Record key (lsm_next_seq_no l) val)" "lsm_Put l key val = (seq, l')"
  shows "lsm_inv crc l' sss" "lsm_fits l'" "lsm_next_seq_no l' = lsm_next_seq_no l + 1" "lsm_options l' = lsm_options l"
    "lsm_contents l' sss = add_mset (Record key (lsm_next_seq_no l) val) (lsm_contents l sss)" "seq = lsm_next_seq_no l"
    "lsm_base_dir l' = lsm_base_dir l" "lsm_ss_tables l' = lsm_ss_tables l"
  using assms lsm_inv_DoPut [OF assms(1) refl assms(3)] lsm_fits_DoPut [OF assms(2,4)]
  by (auto simp: lsm_Put_eq contents_DoPut)

subsection \<open>Flush\<close>

lemma lsm_FlushLoop_step:
  assumes inv: "lsm_inv crc l sss" and fits: "lsm_fits l" and ro: "lsm_ro_mem_tables l = m # ros"
    and t: "ss_holds crc t (mt_impl m)"
  defines "l' \<equiv> l\<lparr>lsm_max_persistent_seq_no := max (lsm_max_persistent_seq_no l) (st_GetMaxSeqNo t),
    lsm_ss_tables := lsm_ss_tables l @ [t], lsm_ro_mem_tables := ros\<rparr>"
  shows "lsm_inv crc l' (sss @ [mt_impl m])" "lsm_fits l'" "lsm_levels l' (sss @ [mt_impl m]) = lsm_levels l sss"
proof -
  show lev: "lsm_levels l' (sss @ [mt_impl m]) = lsm_levels l sss" by (simp add: l'_def lsm_levels_def ro)
  show "lsm_fits l'" using fits by (simp add: l'_def lsm_fits_def ro)
  let ?p = "lsm_max_persistent_seq_no l'"
  have p: "?p = max (lsm_max_persistent_seq_no l) (max_seq (mt_impl m))"
    by (simp add: l'_def ss_holds_max_seq [OF t])
  have "lsm_tables_ok crc l' (sss @ [mt_impl m])"
    using inv t by (auto simp: lsm_inv_def lsm_tables_ok_def l'_def ro intro: list_all2_appendI)
  moreover have "\<forall>r \<in> set (concat (sss @ [mt_impl m])). rec_seq r \<le> ?p"
    using inv max_seq_ge [of _ "mt_impl m"] by (fastforce simp: p lsm_inv_def)
  moreover have "?p < rec_seq r" if "r \<in> mem_records l'" for r
  proof -
    have old: "lsm_max_persistent_seq_no l < rec_seq r"
      using that inv by (auto simp: lsm_inv_def mem_records_def l'_def ro)
    then have "0 < rec_seq r" using inv by (simp add: lsm_inv_def)
    have "rec_seq x < rec_seq r" if "x \<in> set (mt_impl m)" for x
      using \<open>r \<in> mem_records l'\<close> that inv
      by (auto simp: lsm_inv_def lsm_levels_def ro mem_records_def l'_def sorted_wrt_append newer_def)
    then have "max_seq (mt_impl m) \<le> rec_seq r - 1" using \<open>0 < rec_seq r\<close> by (intro max_seq_least) force+
    then show ?thesis using old by (simp add: p)
  qed
  moreover have "max_seq (mt_impl m) \<le> lsm_next_seq_no l - 1"
    using inv by (intro max_seq_least) (auto simp: lsm_inv_def lsm_levels_def ro)
  then have "0 \<le> ?p" "?p < lsm_next_seq_no l" using inv by (auto simp: p lsm_inv_def)
  moreover have "lsm_next_seq_no l' = lsm_next_seq_no l" by (simp add: l'_def)
  ultimately show "lsm_inv crc l' (sss @ [mt_impl m])"
    using inv by (simp add: lsm_inv_def lev)
qed

text \<open>
  The files of a tree that has not been compacted: the table at index \<open>i\<close> is in the file
  numbered \<open>i\<close>, and there is no other file in the directory.
\<close>

definition table_files :: "ss_table list \<Rightarrow> (nat \<times> bytes) list" where
  "table_files ts = zip [0..<length ts] (map (fr_content \<circ> st_file_reader) ts)"

definition files_ok :: "lsm \<Rightarrow> disk \<Rightarrow> bool" where
  "files_ok l d \<longleftrightarrow>
     dir_holds d (lsm_base_dir l) ''.sst.sdb'' (table_files (lsm_ss_tables l)) \<and>
     (\<forall>i < length (lsm_ss_tables l). st_GetFilePath (lsm_ss_tables l ! i) = sst_path (lsm_base_dir l) (int i))"

lemma sst_path_numbered: "sst_path base (int i) = numbered_path base ''.sst.sdb'' i"
  by (simp add: sst_path_def numbered_path_def numbered_name_def)

lemma map_fst_table_files [simp]: "map fst (table_files ts) = [0..<length ts]"
  by (simp add: table_files_def)

lemma fst_set_table_files [simp]: "fst ` set (table_files ts) = {0..<length ts}"
  by (metis atLeastLessThan_upt list.set_map map_fst_table_files)

lemma table_files_snoc: "table_files (ts @ [t]) = table_files ts @ [(length ts, fr_content (st_file_reader t))]"
  by (simp add: table_files_def)

lemma nth_table_files: "i < length ts \<Longrightarrow> (i, fr_content (st_file_reader (ts ! i))) \<in> set (table_files ts)"
  by (auto simp: table_files_def set_zip intro!: exI [of _ i])

lemma mt_Flush_disk:
  assumes "mt_Flush crc m d path psize cap = Inr (t, d')"
  shows "distinct (map fst d) \<Longrightarrow> distinct (map fst d')"
  using assms
  by (auto simp: mt_Flush_def fw_Open_def fw_Close_def Let_def split_beta bindE_Inr_conv distinct_update)

lemma files_ok_Flush:
  assumes ok: "files_ok l d" and fl: "mt_Flush crc m d (sst_path (lsm_base_dir l) (int (length (lsm_ss_tables l)))) psize cap = Inr (t, d')"
    and t: "st_GetFilePath t = sst_path (lsm_base_dir l) (int (length (lsm_ss_tables l)))"
    and d': "map_of d' = (map_of d)(sst_path (lsm_base_dir l) (int (length (lsm_ss_tables l))) \<mapsto> fr_content (st_file_reader t))"
    and l': "lsm_base_dir l' = lsm_base_dir l" "lsm_ss_tables l' = lsm_ss_tables l @ [t]"
  shows "files_ok l' d'"
proof -
  have "distinct (map fst d')" using ok mt_Flush_disk [OF fl] by (simp add: files_ok_def dir_holds_def)
  with ok have "dir_holds d' (lsm_base_dir l) ''.sst.sdb''
      (table_files (lsm_ss_tables l) @ [(length (lsm_ss_tables l), fr_content (st_file_reader t))])"
    by (intro dir_holds_snoc) (simp_all add: files_ok_def d' sst_path_numbered)
  with ok t show ?thesis by (auto simp: files_ok_def l' table_files_snoc nth_append less_Suc_eq)
qed

lemma lsm_FlushLoop_rep:
  assumes "lsm_inv crc l sss" "lsm_fits l" "n \<le> length (lsm_ro_mem_tables l)"
  shows "\<exists>l' d' sss'. lsm_FlushLoop crc n l d = Inr (l', d') \<and> lsm_inv crc l' sss' \<and> lsm_fits l' \<and>
    lsm_levels l' sss' = lsm_levels l sss \<and> lsm_ro_mem_tables l' = drop n (lsm_ro_mem_tables l) \<and>
    lsm_next_seq_no l' = lsm_next_seq_no l \<and> lsm_options l' = lsm_options l \<and> lsm_base_dir l' = lsm_base_dir l \<and>
    lsm_mem_table l' = lsm_mem_table l \<and> (files_ok l d \<longrightarrow> files_ok l' d') \<and>
    sss' = sss @ map mt_impl (take n (lsm_ro_mem_tables l)) \<and> only_in (lsm_base_dir l) d d' \<and>
    lsm_max_persistent_seq_no l' = max (lsm_max_persistent_seq_no l) (max_seq (concat (map mt_impl (take n (lsm_ro_mem_tables l)))))"
  using assms
proof (induction n arbitrary: l d sss)
  case (Suc n)
  then obtain m ros where ro: "lsm_ro_mem_tables l = m # ros" by (cases "lsm_ro_mem_tables l") auto
  let ?o = "lsm_options l" and ?path = "sst_path (lsm_base_dir l) (int (length (lsm_ss_tables l)))"
  have m: "mem_table_fits ?o m" "good_options ?o" "mt_inv m"
    using Suc.prems(1,2) by (auto simp: lsm_fits_def ro lsm_inv_def lsm_tables_ok_def)
  have "int (mt_Size m) * page_size ?o \<le> int (Suc (max_records_in_mem_table ?o)) * page_size ?o"
    using m(1,2) by (intro mult_right_mono) (auto simp: mem_table_fits_def good_options_def good_page_size_def)
  then have "file_fits (page_size ?o) (mt_Size m)" using m(2) by (auto simp: file_fits_def good_options_def)
  then obtain t d1 pages where fl: "mt_Flush crc m d ?path (page_size ?o) (page_cache_capacity ?o) = Inr (t, d1)"
    and t: "sst_rep crc (page_size ?o) pages t" "concat pages = mt_impl m" "st_GetFilePath t = ?path"
    and d1: "map_of d1 = (map_of d)(?path \<mapsto> sst_image crc (page_size ?o) pages)"
    using mt_Flush_rep [of "page_size ?o" m crc d ?path "page_cache_capacity ?o"] m
    by (auto simp: mem_table_fits_def good_options_def)
  let ?l = "l\<lparr>lsm_max_persistent_seq_no := max (lsm_max_persistent_seq_no l) (st_GetMaxSeqNo t),
    lsm_ss_tables := lsm_ss_tables l @ [t], lsm_ro_mem_tables := ros\<rparr>"
  have holds: "ss_holds crc t (mt_impl m)" using t m(3) by (auto simp: ss_holds_def mt_inv_def)
  note step = lsm_FlushLoop_step [OF Suc.prems(1,2) ro holds]
  have "files_ok l d \<longrightarrow> files_ok ?l d1"
    using fl t d1 by (auto simp: sst_rep_def intro: files_ok_Flush)
  moreover have "only_in (lsm_base_dir l) d d1"
    using mt_Flush_disk [OF fl] in_directory_numbered [of "''.sst.sdb''" "lsm_base_dir l" "length (lsm_ss_tables l)"]
    by (auto simp: only_in_def d1 sst_path_numbered)
  moreover have "n \<le> length (lsm_ro_mem_tables ?l)" using Suc.prems(3) by (simp add: ro)
  note Suc.IH [OF step(1,2) this, of d1]
  ultimately show ?case using fl step(3)
    by (auto simp: ro Let_def ss_holds_max_seq [OF holds] max_seq_append max.assoc intro: only_in_trans)
qed (auto simp: lsm_inv_def)

lemma lsm_Flush_rep:
  assumes "lsm_inv crc l sss" "lsm_fits l"
  shows "\<exists>l' d' sss'. lsm_Flush crc l d = Inr (l', d') \<and> lsm_inv crc l' sss' \<and> lsm_fits l' \<and>
    lsm_levels l' sss' = lsm_levels l sss \<and> lsm_ro_mem_tables l' = [] \<and>
    lsm_next_seq_no l' = lsm_next_seq_no l \<and> lsm_options l' = lsm_options l \<and> lsm_base_dir l' = lsm_base_dir l \<and>
    lsm_mem_table l' = lsm_mem_table l \<and> (files_ok l d \<longrightarrow> files_ok l' d') \<and>
    sss' = sss @ map mt_impl (lsm_ro_mem_tables l) \<and> only_in (lsm_base_dir l) d d' \<and>
    lsm_max_persistent_seq_no l' = max (lsm_max_persistent_seq_no l) (max_seq (concat (map mt_impl (lsm_ro_mem_tables l))))"
  using lsm_FlushLoop_rep [OF assms order_refl, of d] by (simp add: lsm_Flush_def)

subsection \<open>Reading\<close>

lemma lsm_ScanKey_rep:
  assumes "lsm_inv crc l sss"
  shows "\<exists>it. lsm_ScanKey crc l key = Inr it \<and>
    ki_rep crc l it (filter (\<lambda>r. rec_key r = key) (sorted_list_of_multiset (lsm_contents l sss)))"
  using LsmKeyIterator_Create_rep [of crc l sss key] assms lsm_key_scan [OF assms, of key]
  by (simp add: lsm_ScanKey_def lsm_inv_def)

lemma lsm_ScanRange_rep:
  assumes "lsm_inv crc l sss"
  shows "\<exists>it. lsm_ScanRange crc l rng = Inr it \<and>
    ri_rep crc it (filter (in_range rng) (sorted_list_of_multiset (lsm_contents l sss)))"
  using LsmRangeIterator_Create_rep [of crc l sss rng] assms by (simp add: lsm_ScanRange_def lsm_inv_def)

lemma lsm_Get_rep:
  assumes "lsm_inv crc l sss"
  shows "lsm_Get crc l key =
    Some (Inr (map_option rec_value (find (\<lambda>r. rec_key r = key) (sorted_list_of_multiset (lsm_contents l sss)))))"
proof -
  have loop: "list_loop (\<lambda>_ r. Inr (Break (Some (rec_value r)))) (filter P rs) None =
    Inr (map_option rec_value (find P rs))" for P rs
    by (induction rs) auto
  from lsm_ScanKey_rep [OF assms, of key] loop show ?thesis
    by (auto simp: lsm_Get_def ki.iter_loop_rep)
qed

subsection \<open>The specification: an append-only log\<close>

datatype lsm_op =
    OpPut string string
  | OpFlush
  | OpGet string
  | OpScanKey string
  | OpScanRange scan_range

datatype lsm_output =
    OutSeq int
  | OutDone
  | OutValue "string option"
  | OutRecords "lsm_record list"

definition out_of :: "'s \<Rightarrow> ('a \<Rightarrow> lsm_output) \<Rightarrow> 'a result option \<Rightarrow> ('s \<times> lsm_output) result option" where
  "out_of s f r = map_option (map_sum id (\<lambda>x. (s, f x))) r"

fun lsm_step :: "crc32 \<Rightarrow> lsm \<times> disk \<Rightarrow> lsm_op \<Rightarrow> ((lsm \<times> disk) \<times> lsm_output) result option" where
  "lsm_step crc (l, d) (OpPut key val) = (let (seq, l') = lsm_Put l key val in Some (Inr ((l', d), OutSeq seq)))"
| "lsm_step crc (l, d) OpFlush = Some (bindE (lsm_Flush crc l d) (\<lambda>s. Inr (s, OutDone)))"
| "lsm_step crc (l, d) (OpGet key) = out_of (l, d) OutValue (lsm_Get crc l key)"
| "lsm_step crc (l, d) (OpScanKey key) =
     (case lsm_ScanKey crc l key of
        Inl e \<Rightarrow> Some (Inl e)
      | Inr it \<Rightarrow> out_of (l, d) OutRecords (iter_loop ki_HasMore (ki_Next crc l) collect it []))"
| "lsm_step crc (l, d) (OpScanRange rng) =
     (case lsm_ScanRange crc l rng of
        Inl e \<Rightarrow> Some (Inl e)
      | Inr it \<Rightarrow> out_of (l, d) OutRecords (iter_loop ri_HasMore (ri_Next crc) collect it []))"

fun lsm_run :: "crc32 \<Rightarrow> lsm \<times> disk \<Rightarrow> lsm_op list \<Rightarrow> lsm_output list result option" where
  "lsm_run crc s [] = Some (Inr [])"
| "lsm_run crc s (op # ops) =
     (case lsm_step crc s op of
        None \<Rightarrow> None
      | Some (Inl e) \<Rightarrow> Some (Inl e)
      | Some (Inr (s', out)) \<Rightarrow> map_option (map_sum id (\<lambda>outs. out # outs)) (lsm_run crc s' ops))"

text \<open>The log: every put, newest first.\<close>

fun log_step :: "int \<times> lsm_record list \<Rightarrow> lsm_op \<Rightarrow> (int \<times> lsm_record list) \<times> lsm_output" where
  "log_step (n, log) (OpPut key val) = ((n + 1, Record key n val # log), OutSeq n)"
| "log_step (n, log) OpFlush = ((n, log), OutDone)"
| "log_step (n, log) (OpGet key) = ((n, log), OutValue (map_option rec_value (find (\<lambda>r. rec_key r = key) log)))"
| "log_step (n, log) (OpScanKey key) = ((n, log), OutRecords (filter (\<lambda>r. rec_key r = key) log))"
| "log_step (n, log) (OpScanRange rng) = ((n, log), OutRecords (sort (filter (in_range rng) log)))"

fun log_run :: "int \<times> lsm_record list \<Rightarrow> lsm_op list \<Rightarrow> lsm_output list" where
  "log_run s [] = []"
| "log_run s (op # ops) = (let (s', out) = log_step s op in out # log_run s' ops)"

definition log_rep :: "crc32 \<Rightarrow> lsm \<Rightarrow> int \<times> lsm_record list \<Rightarrow> bool" where
  "log_rep crc l s \<longleftrightarrow>
     (\<exists>sss. lsm_inv crc l sss \<and> lsm_fits l \<and> lsm_next_seq_no l = fst s \<and> mset (snd s) = lsm_contents l sss \<and>
        sorted_wrt (\<lambda>x y. rec_seq y < rec_seq x) (snd s))"

lemma log_key_scan:
  assumes "sorted_wrt (\<lambda>x y. rec_seq y < rec_seq x) log"
  shows "filter (\<lambda>r. rec_key r = key) (sort log) = filter (\<lambda>r. rec_key r = key) log"
proof -
  have "sorted (filter (\<lambda>r. rec_key r = key) log)"
    using assms by (induction log) (auto simp: record_less_eq_iff)
  then show ?thesis by (simp add: filter_sort sorted_sort_id)
qed

lemma find_filter: "find P xs = (case filter P xs of [] \<Rightarrow> None | x # _ \<Rightarrow> Some x)"
  by (induction xs) auto

fun op_fits :: "lsm_options \<Rightarrow> lsm_op \<Rightarrow> bool" where
  "op_fits opts (OpPut key val) \<longleftrightarrow> 40 + length key + length val \<le> nat (page_size opts)"
| "op_fits opts _ \<longleftrightarrow> True"

lemma log_rep_reads:
  assumes "log_rep crc l (n, log)"
  shows "lsm_Get crc l key = Some (Inr (map_option rec_value (find (\<lambda>r. rec_key r = key) log)))"
    and "\<exists>it. lsm_ScanKey crc l key = Inr it \<and> ki_rep crc l it (filter (\<lambda>r. rec_key r = key) log)"
    and "\<exists>it. lsm_ScanRange crc l rng = Inr it \<and> ri_rep crc it (sort (filter (in_range rng) log))"
proof -
  from assms obtain sss where inv: "lsm_inv crc l sss" and M: "lsm_contents l sss = mset log"
    and s: "sorted_wrt (\<lambda>x y. rec_seq y < rec_seq x) log" by (auto simp: log_rep_def)
  show "lsm_Get crc l key = Some (Inr (map_option rec_value (find (\<lambda>r. rec_key r = key) log)))"
    using lsm_Get_rep [OF inv, of key] by (simp add: M find_filter log_key_scan [OF s])
  show "\<exists>it. lsm_ScanKey crc l key = Inr it \<and> ki_rep crc l it (filter (\<lambda>r. rec_key r = key) log)"
    using lsm_ScanKey_rep [OF inv, of key] by (simp add: M log_key_scan [OF s])
  show "\<exists>it. lsm_ScanRange crc l rng = Inr it \<and> ri_rep crc it (sort (filter (in_range rng) log))"
    using lsm_ScanRange_rep [OF inv, of rng] by (simp add: M filter_sort)
qed

lemma log_rep_Put:
  assumes rep: "log_rep crc l (n, log)" and n: "n < kMaxSequence" and fits: "op_fits (lsm_options l) (OpPut key val)"
    and put: "lsm_Put l key val = (seq, l')"
  shows "seq = n" "log_rep crc l' (n + 1, Record key n val # log)" "lsm_options l' = lsm_options l"
proof -
  from rep obtain sss where inv: "lsm_inv crc l sss" and f: "lsm_fits l" and next_no: "lsm_next_seq_no l = n"
    and M: "mset log = lsm_contents l sss" and s: "sorted_wrt (\<lambda>x y. rec_seq y < rec_seq x) log"
    by (auto simp: log_rep_def)
  have "storable (page_size (lsm_options l)) (Record key (lsm_next_seq_no l) val)"
    using fits n next_no inv by (auto simp: storable_def length_record_bytes lsm_inv_def kMaxSequence_def)
  note step = lsm_Put_step [OF inv f _ this put]
  have le: "lsm_next_seq_no l \<le> kMaxSequence" using n next_no by simp
  have "set log = set_mset (lsm_contents l sss)" using arg_cong [OF M, of set_mset] by simp
  then have "\<forall>r \<in> set log. rec_seq r < n"
    using inv [unfolded lsm_inv_def set_levels] by (simp add: next_no)
  with step [OF le] next_no M s inv f show "seq = n" "log_rep crc l' (n + 1, Record key n val # log)"
    "lsm_options l' = lsm_options l"
    by (auto simp: log_rep_def intro!: exI [of _ sss])
qed

lemma log_rep_Flush:
  assumes "log_rep crc l s"
  shows "\<exists>l' d'. lsm_Flush crc l d = Inr (l', d') \<and> log_rep crc l' s \<and> lsm_options l' = lsm_options l"
  using assms unfolding log_rep_def
  by (elim exE conjE) (drule (1) lsm_Flush_rep [where d = d], fastforce simp: lsm_contents_def)

lemma lsm_step_refines:
  assumes rep: "log_rep crc l s" and n: "fst s < kMaxSequence" and fits: "op_fits (lsm_options l) op"
  shows "\<exists>l' d'. lsm_step crc (l, d) op = Some (Inr ((l', d'), snd (log_step s op))) \<and>
    log_rep crc l' (fst (log_step s op)) \<and> lsm_options l' = lsm_options l"
proof -
  obtain n log where s: "s = (n, log)" by (cases s)
  note reads = log_rep_reads [OF rep [unfolded s]]
  show ?thesis
  proof (cases op)
    case (OpPut key val)
    obtain seq l' where put: "lsm_Put l key val = (seq, l')" by (cases "lsm_Put l key val")
    from log_rep_Put [OF rep [unfolded s] _ _ this] n fits show ?thesis by (simp add: OpPut put s)
  next
    case OpFlush
    with log_rep_Flush [OF rep, of d] show ?thesis by (auto simp: s)
  next
    case (OpGet key)
    with reads(1) rep show ?thesis by (simp add: out_of_def s)
  next
    case (OpScanKey key)
    from reads(2) [of key] obtain it where "lsm_ScanKey crc l key = Inr it"
      "ki_rep crc l it (filter (\<lambda>r. rec_key r = key) log)" by blast
    with rep show ?thesis by (simp add: OpScanKey out_of_def s ki.iter_collect)
  next
    case (OpScanRange rng)
    from reads(3) [of rng] obtain it where "lsm_ScanRange crc l rng = Inr it"
      "ri_rep crc it (sort (filter (in_range rng) log))" by blast
    with rep show ?thesis by (simp add: OpScanRange out_of_def s ri.iter_collect)
  qed
qed

lemma lsm_run_refines:
  assumes "log_rep crc l s" "fst s + int (length ops) \<le> kMaxSequence" "list_all (op_fits (lsm_options l)) ops"
  shows "lsm_run crc (l, d) ops = Some (Inr (log_run s ops))"
  using assms
proof (induction ops arbitrary: l d s)
  case (Cons op ops)
  from Cons.prems obtain l' d' where st: "lsm_step crc (l, d) op = Some (Inr ((l', d'), snd (log_step s op)))"
    "log_rep crc l' (fst (log_step s op))" "lsm_options l' = lsm_options l"
    using lsm_step_refines [of crc l s op d] by auto
  have "fst (fst (log_step s op)) \<le> fst s + 1" by (cases s; cases op) auto
  with Cons.prems(2) have "fst (fst (log_step s op)) + int (length ops) \<le> kMaxSequence" by simp
  from Cons.IH [OF st(2) this] Cons.prems(3) st show ?case by (simp add: split_beta Let_def)
qed simp

lemma lsm_Init_empty:
  "io_ListDirectory d base_dir = [] \<Longrightarrow> lsm_Init d (Lsm base_dir opts) = Inr ((Lsm base_dir opts)\<lparr>lsm_next_seq_no := 1\<rparr>)"
  by (simp add: lsm_Init_def Lsm_def)

lemma log_rep_empty:
  assumes "good_options opts"
  shows "log_rep crc ((Lsm base_dir opts)\<lparr>lsm_next_seq_no := 1\<rparr>) (1, [])"
  using assms
  by (auto simp: log_rep_def Lsm_def lsm_inv_def lsm_tables_ok_def lsm_levels_def lsm_contents_def lsm_fits_def
      mem_table_fits_def mem_records_def newer_def intro!: exI [of _ "[]"])

text \<open>
  C5. The LSM tree is an append-only log. Started in an empty directory, for every sequence
  of puts, flushes, gets and scans in any order, every operation ends without an error and
  its result is the one of the log that holds all puts newest first: a put gets the next
  sequence number, \<open>Get\<close> returns the value put last under the key, the scan of a key returns
  all its versions newest first, and the scan of a range returns the records in range in
  record order. Freezing mem tables, flushing them into page files with checksums, page
  caches, binary search and merging are not observable. The records have to fit into a
  page and the sequence numbers into 64 bits.
\<close>

theorem lsm_refines_log:
  assumes "good_options opts" and "io_ListDirectory d base_dir = []"
    and "list_all (op_fits opts) ops" and "int (length ops) < kMaxSequence"
  shows "\<exists>l. lsm_Init d (Lsm base_dir opts) = Inr l \<and> lsm_run crc (l, d) ops = Some (Inr (log_run (1, []) ops))"
  using assms lsm_run_refines [OF log_rep_empty [OF assms(1), of crc base_dir], of ops d]
  by (simp add: lsm_Init_empty) (simp add: Lsm_def)

theorem lsm_refines_log_witness:
  "\<exists>l. lsm_Init [] (Lsm ''db'' \<lparr>max_records_in_mem_table = 1, max_ro_mem_tables = 1, page_size = 64, page_cache_capacity = 1\<rparr>) = Inr l \<and>
    lsm_run (\<lambda>_. 0) (l, []) [OpPut ''a'' ''1'', OpPut ''b'' ''2'', OpFlush, OpPut ''a'' ''3'', OpGet ''a'', OpScanKey ''a''] =
      Some (Inr [OutSeq 1, OutSeq 2, OutDone, OutSeq 3, OutValue (Some ''3''),
        OutRecords [Record ''a'' 3 ''3'', Record ''a'' 1 ''1'']])"
  using lsm_refines_log [of "\<lparr>max_records_in_mem_table = 1, max_ro_mem_tables = 1, page_size = 64, page_cache_capacity = 1\<rparr>"
      "[]" "''db''" "[OpPut ''a'' ''1'', OpPut ''b'' ''2'', OpFlush, OpPut ''a'' ''3'', OpGet ''a'', OpScanKey ''a'']" "\<lambda>_. 0"]
  by (simp add: good_options_def good_page_size_def file_fits_def io_ListDirectory_def kMaxSequence_def)

end
