(* ===== verification/Lsm_Restart.thy ===== *)
theory Lsm_Restart
  imports Lsm_Store
begin

section \<open>Restarting an LSM tree from its files\<close>

text \<open>
  \<open>Init\<close> opens the files of the directory in the order of their names. As long as the tree
  has not been compacted, table \<open>i\<close> is in the file numbered \<open>i\<close>; up to ten thousand files
  the order of the names is the order of the tables, and the restarted tree holds exactly
  the records with persistent sequence numbers.
\<close>

subsection \<open>The order of the files\<close>

lemma files_ok_names:
  assumes "files_ok l d" and "length (lsm_ss_tables l) \<le> 10000"
  shows "sort (io_ListDirectory d (lsm_base_dir l)) = map (numbered_name ''.sst.sdb'') [0..<length (lsm_ss_tables l)]"
proof -
  have "\<forall>i \<in> fst ` set (table_files (lsm_ss_tables l)). i < 10000"
    unfolding fst_set_table_files using assms(2) by simp
  with assms(1) show ?thesis
    using dir_holds_listing [of d "lsm_base_dir l" "''.sst.sdb''" "table_files (lsm_ss_tables l)", unfolded map_fst_table_files]
    by (simp add: files_ok_def)
qed

subsection \<open>Opening the tables\<close>

lemma lsm_OpenTables_rep:
  assumes "list_all2 (\<lambda>name rs. \<exists>psize pages. map_of d (lsm_base_dir l @ ''/'' @ name) = Some (sst_image crc psize pages) \<and>
      good_page_size psize \<and> list_all (\<lambda>p. p \<noteq> [] \<and> page_fits psize p) pages \<and>
      int (length (sst_image crc psize pages)) < 2 ^ 63 \<and> concat pages = rs \<and> sorted rs) names sss"
  shows "\<exists>ts. lsm_OpenTables d p0 l names =
      Inr (l\<lparr>lsm_max_persistent_seq_no := (if names = [] then lsm_max_persistent_seq_no l else max p0 (max_seq (last sss))),
             lsm_ss_tables := lsm_ss_tables l @ ts\<rparr>) \<and>
    list_all2 (ss_holds crc) ts sss \<and>
    list_all2 (\<lambda>name t. map_of d (lsm_base_dir l @ ''/'' @ name) = Some (fr_content (st_file_reader t)) \<and>
      st_GetFilePath t = lsm_base_dir l @ ''/'' @ name) names ts"
  using assms
proof (induction names arbitrary: l sss)
  case (Cons name names)
  then obtain rs sss' where sss: "sss = rs # sss'" by (cases sss) auto
  with Cons.prems obtain psize pages where f: "map_of d (lsm_base_dir l @ ''/'' @ name) = Some (sst_image crc psize pages)"
    and g: "good_page_size psize" "list_all (\<lambda>p. p \<noteq> [] \<and> page_fits psize p) pages"
      "int (length (sst_image crc psize pages)) < 2 ^ 63" "concat pages = rs" "sorted rs" by auto
  let ?fr = "\<lparr>fr_path = lsm_base_dir l @ ''/'' @ name, fr_content = sst_image crc psize pages, fr_pos = 0\<rparr>"
  obtain t where t: "SSTable_Create ?fr (page_cache_capacity (lsm_options l)) = Inr t" "sst_rep crc psize pages t"
      "st_GetFilePath t = lsm_base_dir l @ ''/'' @ name"
    using SSTable_Create_rep [OF g(1,2) _ _ g(3), of ?fr] by auto
  then have h: "ss_holds crc t rs" and c: "fr_content (st_file_reader t) = sst_image crc psize pages"
    using g by (auto simp: ss_holds_def sst_rep_def)
  let ?l = "l\<lparr>lsm_max_persistent_seq_no := max p0 (max_seq rs), lsm_ss_tables := lsm_ss_tables l @ [t]\<rparr>"
  from Cons.IH [of ?l sss'] Cons.prems sss obtain ts where
    "lsm_OpenTables d p0 ?l names = Inr (?l\<lparr>lsm_max_persistent_seq_no :=
        (if names = [] then lsm_max_persistent_seq_no ?l else max p0 (max_seq (last sss'))),
      lsm_ss_tables := lsm_ss_tables ?l @ ts\<rparr>)" "list_all2 (ss_holds crc) ts sss'"
    "list_all2 (\<lambda>name t. map_of d (lsm_base_dir l @ ''/'' @ name) = Some (fr_content (st_file_reader t)) \<and>
      st_GetFilePath t = lsm_base_dir l @ ''/'' @ name) names ts" by auto
  moreover have "names = [] \<longleftrightarrow> sss' = []" using Cons.prems sss by auto
  ultimately show ?case
    using f t(1,3) h c by (intro exI [of _ "t # ts"]) (auto simp: fr_Open_def sss ss_holds_max_seq [OF h])
qed simp

lemma max_seq_newest:
  assumes "sorted_wrt newer (rev sss)" "[] \<notin> set sss"
  shows "max_seq (concat sss) = (if sss = [] then 0 else max_seq (last sss))"
proof (cases sss rule: rev_cases)
  case (snoc init xs)
  then obtain x where x: "x \<in> set xs" using assms(2) by (cases xs) auto
  have "rec_seq y \<le> max_seq xs" if "y \<in> set (concat init)" for y
    using assms(1) that x max_seq_ge [OF x] by (fastforce simp: snoc newer_def)
  then have "max_seq (concat init) \<le> max_seq xs" by (intro max_seq_least max_seq_nonneg)
  then show ?thesis by (simp add: snoc max_seq_append)
qed simp

subsection \<open>A tree that has never been compacted\<close>

definition plain_rep :: "crc32 \<Rightarrow> lsm \<Rightarrow> disk \<Rightarrow> int \<times> lsm_record list \<Rightarrow> bool" where
  "plain_rep crc l d s \<longleftrightarrow>
     (\<exists>sss. lsm_inv crc l sss \<and> lsm_fits l \<and> lsm_next_seq_no l = fst s \<and> mset (snd s) = lsm_contents l sss \<and>
        sorted_wrt (\<lambda>x y. rec_seq y < rec_seq x) (snd s) \<and> files_ok l d \<and>
        (\<forall>rs \<in> set sss. length rs = Suc (max_records_in_mem_table (lsm_options l))) \<and>
        (\<forall>m \<in> set (lsm_ro_mem_tables l). mt_Size m = Suc (max_records_in_mem_table (lsm_options l))) \<and>
        lsm_max_persistent_seq_no l = max_seq (concat sss))"

lemma plain_rep_log: "plain_rep crc l d s \<Longrightarrow> log_rep crc l s"
  by (auto simp: plain_rep_def log_rep_def)

lemma plain_rep_frame:
  assumes "plain_rep crc l d s" "same_in (lsm_base_dir l) d d'" "distinct (map fst d')"
  shows "plain_rep crc l d' s"
proof -
  have "files_ok l d'" if "files_ok l d" using that assms dir_holds_frame by (auto simp: files_ok_def)
  with assms(1) show ?thesis unfolding plain_rep_def by blast
qed

lemma plain_rep_Put:
  assumes rep: "plain_rep crc l d (n, log)" and n: "n < kMaxSequence" and fits: "op_fits (lsm_options l) (OpPut key val)"
    and put: "lsm_Put l key val = (seq, l')"
  shows "plain_rep crc l' d (n + 1, Record key n val # log)"
proof -
  from rep obtain sss where inv: "lsm_inv crc l sss" and f: "lsm_fits l" and next_no: "lsm_next_seq_no l = n"
    and M: "mset log = lsm_contents l sss" and s: "sorted_wrt (\<lambda>x y. rec_seq y < rec_seq x) log"
    and files: "files_ok l d" and ne: "\<forall>rs \<in> set sss. length rs = Suc (max_records_in_mem_table (lsm_options l))"
      "\<forall>m \<in> set (lsm_ro_mem_tables l). mt_Size m = Suc (max_records_in_mem_table (lsm_options l))"
      "lsm_max_persistent_seq_no l = max_seq (concat sss)"
    by (auto simp: plain_rep_def)
  have "storable (page_size (lsm_options l)) (Record key (lsm_next_seq_no l) val)"
    using fits n next_no inv by (auto simp: storable_def length_record_bytes lsm_inv_def kMaxSequence_def)
  moreover have "lsm_next_seq_no l \<le> kMaxSequence" using n next_no by simp
  ultimately have step: "lsm_inv crc l' sss" "lsm_fits l'" "lsm_next_seq_no l' = n + 1" "lsm_base_dir l' = lsm_base_dir l"
    "lsm_ss_tables l' = lsm_ss_tables l" "lsm_contents l' sss = add_mset (Record key n val) (lsm_contents l sss)"
    using lsm_Put_step [OF inv f _ _ put] next_no by simp_all
  have "set log = set_mset (lsm_contents l sss)" using arg_cong [OF M, of set_mset] by simp
  then have "\<forall>r \<in> set log. rec_seq r < n"
    using inv [unfolded lsm_inv_def set_levels] by (simp add: next_no)
  moreover have "mt_Size (lsm_mem_table l) \<le> max_records_in_mem_table (lsm_options l)" using f by (simp add: lsm_fits_def)
  then have "\<forall>m \<in> set (lsm_ro_mem_tables l'). mt_Size m = Suc (max_records_in_mem_table (lsm_options l))"
    "lsm_max_persistent_seq_no l' = max_seq (concat sss)" "lsm_options l' = lsm_options l"
    using put ne by (auto simp: lsm_Put_eq lsm_DoPut_def Let_def split: if_splits)
  moreover have "files_ok l' d" using files step by (simp add: files_ok_def)
  ultimately show ?thesis using step M s ne(1) by (auto simp: plain_rep_def intro!: exI [of _ sss])
qed

lemma plain_rep_Flush:
  assumes rep: "plain_rep crc l d s"
  shows "\<exists>l' d'. lsm_Flush crc l d = Inr (l', d') \<and> plain_rep crc l' d' s \<and> lsm_options l' = lsm_options l \<and>
    lsm_base_dir l' = lsm_base_dir l \<and> only_in (lsm_base_dir l) d d'"
proof -
  from rep obtain sss where inv: "lsm_inv crc l sss" and f: "lsm_fits l" and next_no: "lsm_next_seq_no l = fst s"
    and M: "mset (snd s) = lsm_contents l sss" "sorted_wrt (\<lambda>x y. rec_seq y < rec_seq x) (snd s)"
    and files: "files_ok l d" and ne: "\<forall>rs \<in> set sss. length rs = Suc (max_records_in_mem_table (lsm_options l))"
      "\<forall>m \<in> set (lsm_ro_mem_tables l). mt_Size m = Suc (max_records_in_mem_table (lsm_options l))"
      "lsm_max_persistent_seq_no l = max_seq (concat sss)"
    by (auto simp: plain_rep_def)
  from lsm_Flush_rep [OF inv f, of d] files obtain l' d' where fl: "lsm_Flush crc l d = Inr (l', d')"
    "lsm_inv crc l' (sss @ map mt_impl (lsm_ro_mem_tables l))" "lsm_fits l'"
    "lsm_levels l' (sss @ map mt_impl (lsm_ro_mem_tables l)) = lsm_levels l sss" "lsm_ro_mem_tables l' = []"
    "lsm_next_seq_no l' = lsm_next_seq_no l" "lsm_options l' = lsm_options l" "lsm_base_dir l' = lsm_base_dir l"
    "files_ok l' d'" "only_in (lsm_base_dir l) d d'"
    "lsm_max_persistent_seq_no l' = max (lsm_max_persistent_seq_no l) (max_seq (concat (map mt_impl (lsm_ro_mem_tables l))))"
    by auto
  have "plain_rep crc l' d' s"
    unfolding plain_rep_def using fl ne M next_no
    by (intro exI [of _ "sss @ map mt_impl (lsm_ro_mem_tables l)"]) (auto simp: lsm_contents_def max_seq_append mt_Size_def)
  with fl show ?thesis by blast
qed

fun lsm_exec :: "crc32 \<Rightarrow> lsm \<times> disk \<Rightarrow> lsm_op list \<Rightarrow> (lsm \<times> disk) result option" where
  "lsm_exec crc s [] = Some (Inr s)"
| "lsm_exec crc s (op # ops) =
     (case lsm_step crc s op of
        None \<Rightarrow> None
      | Some (Inl e) \<Rightarrow> Some (Inl e)
      | Some (Inr (s', out)) \<Rightarrow> lsm_exec crc s' ops)"

fun log_exec :: "int \<times> lsm_record list \<Rightarrow> lsm_op list \<Rightarrow> int \<times> lsm_record list" where
  "log_exec s [] = s"
| "log_exec s (op # ops) = log_exec (fst (log_step s op)) ops"

lemma out_of_state: "out_of s f r = Some (Inr (s', out)) \<Longrightarrow> s' = s"
  by (cases r; cases "the r") (auto simp: out_of_def)

lemma plain_step:
  assumes rep: "plain_rep crc l d s" and n: "fst s < kMaxSequence" and fits: "op_fits (lsm_options l) op"
  shows "\<exists>l' d' out. lsm_step crc (l, d) op = Some (Inr ((l', d'), out)) \<and>
    plain_rep crc l' d' (fst (log_step s op)) \<and> lsm_options l' = lsm_options l \<and> lsm_base_dir l' = lsm_base_dir l"
proof -
  obtain n0 log where s: "s = (n0, log)" by (cases s)
  show ?thesis
  proof (cases op)
    case (OpPut key val)
    obtain seq l' where put: "lsm_Put l key val = (seq, l')" by (cases "lsm_Put l key val")
    moreover have "lsm_options l' = lsm_options l" "lsm_base_dir l' = lsm_base_dir l" using put by (auto simp: lsm_Put_eq)
    moreover from plain_rep_Put [OF rep [unfolded s] _ _ put] n fits have "plain_rep crc l' d (fst (log_step s op))"
      by (simp add: OpPut s)
    ultimately show ?thesis by (simp add: OpPut)
  next
    case OpFlush
    with plain_rep_Flush [OF rep] show ?thesis by (auto simp: s)
  qed (use lsm_step_refines [OF plain_rep_log [OF rep] n fits, of d] rep in
      \<open>auto simp: s dest: out_of_state split: sum.splits\<close>)
qed

lemma plain_exec:
  assumes "plain_rep crc l d s" "fst s + int (length ops) \<le> kMaxSequence" "list_all (op_fits (lsm_options l)) ops"
  shows "\<exists>l' d'. lsm_exec crc (l, d) ops = Some (Inr (l', d')) \<and> plain_rep crc l' d' (log_exec s ops) \<and>
    lsm_base_dir l' = lsm_base_dir l \<and> lsm_options l' = lsm_options l"
  using assms
proof (induction ops arbitrary: l d s)
  case (Cons op ops)
  from Cons.prems obtain l' d' out where st: "lsm_step crc (l, d) op = Some (Inr ((l', d'), out))"
    "plain_rep crc l' d' (fst (log_step s op))" "lsm_options l' = lsm_options l" "lsm_base_dir l' = lsm_base_dir l"
    using plain_step [of crc l d s op] by auto
  have "fst (fst (log_step s op)) \<le> fst s + 1" by (cases s; cases op) auto
  with Cons.prems(2) have "fst (fst (log_step s op)) + int (length ops) \<le> kMaxSequence" by simp
  from Cons.IH [OF st(2) this] Cons.prems(3) st show ?case by simp
qed simp

subsection \<open>Restart\<close>

lemma files_ok_open:
  assumes files: "files_ok l d" and ok: "list_all2 (ss_holds crc) (lsm_ss_tables l) sss"
  shows "list_all2 (\<lambda>name rs. \<exists>psize pages. map_of d (lsm_base_dir l @ ''/'' @ name) = Some (sst_image crc psize pages) \<and>
      good_page_size psize \<and> list_all (\<lambda>p. p \<noteq> [] \<and> page_fits psize p) pages \<and>
      int (length (sst_image crc psize pages)) < 2 ^ 63 \<and> concat pages = rs \<and> sorted rs)
    (map (numbered_name ''.sst.sdb'') [0..<length (lsm_ss_tables l)]) sss"
proof (rule list_all2_all_nthI)
  show "length (map (numbered_name ''.sst.sdb'') [0..<length (lsm_ss_tables l)]) = length sss" using list_all2_lengthD [OF ok] by simp
  fix i
  assume "i < length (map (numbered_name ''.sst.sdb'') [0..<length (lsm_ss_tables l)])"
  then have i: "i < length (lsm_ss_tables l)" by simp
  from list_all2_nthD [OF ok i] obtain psize pages where
    "sst_rep crc psize pages (lsm_ss_tables l ! i)" "concat pages = sss ! i" "sorted (sss ! i)"
    unfolding ss_holds_def by blast
  moreover have "map_of d (lsm_base_dir l @ ''/'' @ numbered_name ''.sst.sdb'' i) = Some (fr_content (st_file_reader (lsm_ss_tables l ! i)))"
    using files nth_table_files [OF i] by (auto simp: files_ok_def dir_holds_def numbered_path_def)
  ultimately show "\<exists>psize pages. map_of d (lsm_base_dir l @ ''/'' @ map (numbered_name ''.sst.sdb'') [0..<length (lsm_ss_tables l)] ! i) =
      Some (sst_image crc psize pages) \<and>
      good_page_size psize \<and> list_all (\<lambda>p. p \<noteq> [] \<and> page_fits psize p) pages \<and>
      int (length (sst_image crc psize pages)) < 2 ^ 63 \<and> concat pages = sss ! i \<and> sorted (sss ! i)"
    using i by (auto simp: sst_rep_def)
qed

lemma tree_opened:
  fixes base :: string
  assumes "list_all2 (ss_holds crc) ts sss" "sorted_wrt newer (rev sss)" "\<forall>r \<in> set (concat sss). rec_seq r \<le> p" "0 \<le> p" "good_options opts"
  defines "l \<equiv> (Lsm base opts)\<lparr>lsm_max_persistent_seq_no := p, lsm_ss_tables := ts, lsm_next_seq_no := p + 1\<rparr>"
  shows "lsm_inv crc l sss" "lsm_fits l" "lsm_contents l sss = mset (concat sss)"
  using assms(1-5)
  by (auto simp: l_def Lsm_def lsm_inv_def lsm_tables_ok_def lsm_levels_def lsm_contents_def lsm_fits_def
      mem_table_fits_def mem_records_def newer_def mset_concat_rev)

lemma plain_persistent:
  assumes inv: "lsm_inv crc l sss" and M: "mset log = lsm_contents l sss"
  shows "mset (filter (\<lambda>r. rec_seq r \<le> lsm_max_persistent_seq_no l) log) = mset (concat sss)"
proof -
  let ?P = "\<lambda>r. rec_seq r \<le> lsm_max_persistent_seq_no l"
  have mem: "\<forall>r \<in> set (mt_impl (lsm_mem_table l) @ concat (rev (map mt_impl (lsm_ro_mem_tables l)))). \<not> ?P r"
    using inv by (simp add: lsm_inv_def mem_records_def not_le)
  have ss: "filter ?P (concat (rev sss)) = concat (rev sss)"
    using inv by (auto simp: lsm_inv_def filter_id_conv)
  have "mset (filter ?P log) = filter_mset ?P (lsm_contents l sss)" by (simp add: M)
  also have "\<dots> = mset (filter ?P (concat (lsm_levels l sss)))" by (simp add: lsm_contents_def)
  also have "filter ?P (concat (lsm_levels l sss)) = concat (rev sss)"
    using mem by (simp add: lsm_levels_def ss filter_empty_conv)
  finally show ?thesis by (simp add: mset_concat_rev)
qed

lemma files_ok_opened:
  assumes files: "files_ok l d" and base: "lsm_base_dir l' = lsm_base_dir l"
    and ts: "list_all2 (\<lambda>name t. map_of d (lsm_base_dir l @ ''/'' @ name) = Some (fr_content (st_file_reader t)) \<and>
      st_GetFilePath t = lsm_base_dir l @ ''/'' @ name) (map (numbered_name ''.sst.sdb'') [0..<length (lsm_ss_tables l)]) (lsm_ss_tables l')"
  shows "files_ok l' d"
proof -
  have len: "length (lsm_ss_tables l') = length (lsm_ss_tables l)" using list_all2_lengthD [OF ts] by simp
  have nth: "map_of d (numbered_path (lsm_base_dir l) ''.sst.sdb'' i) = Some (fr_content (st_file_reader (lsm_ss_tables l' ! i)))"
    "st_GetFilePath (lsm_ss_tables l' ! i) = numbered_path (lsm_base_dir l) ''.sst.sdb'' i" if "i < length (lsm_ss_tables l)" for i
    using list_all2_nthD [OF ts, of i] that by (simp_all add: numbered_path_def)
  have "map_of d (numbered_path (lsm_base_dir l) ''.sst.sdb'' i) = Some (fr_content (st_file_reader (lsm_ss_tables l ! i)))"
    if "i < length (lsm_ss_tables l)" for i
    using files nth_table_files [OF that] by (auto simp: files_ok_def dir_holds_def)
  with nth(1) have "fr_content (st_file_reader (lsm_ss_tables l' ! i)) = fr_content (st_file_reader (lsm_ss_tables l ! i))"
    if "i < length (lsm_ss_tables l)" for i using that by simp
  then have "map (fr_content \<circ> st_file_reader) (lsm_ss_tables l') = map (fr_content \<circ> st_file_reader) (lsm_ss_tables l)"
    using len by (intro nth_equalityI) simp_all
  then have "table_files (lsm_ss_tables l') = table_files (lsm_ss_tables l)" by (simp only: table_files_def len)
  with files nth(2) show ?thesis by (simp add: files_ok_def base len sst_path_numbered)
qed

lemma plain_restart:
  assumes rep: "plain_rep crc l d (n, log)" and few: "length (lsm_ss_tables l) \<le> 10000" and opts: "good_options opts"
  shows "\<exists>l'. lsm_Init d (Lsm (lsm_base_dir l) opts) = Inr l' \<and> lsm_options l' = opts \<and>
    lsm_max_persistent_seq_no l' = lsm_max_persistent_seq_no l \<and>
    log_rep crc l' (lsm_max_persistent_seq_no l + 1, filter (\<lambda>r. rec_seq r \<le> lsm_max_persistent_seq_no l) log) \<and>
    (opts = lsm_options l \<longrightarrow>
       plain_rep crc l' d (lsm_max_persistent_seq_no l + 1, filter (\<lambda>r. rec_seq r \<le> lsm_max_persistent_seq_no l) log)) \<and>
    lsm_base_dir l' = lsm_base_dir l"
proof -
  let ?l0 = "Lsm (lsm_base_dir l) opts" and ?p = "lsm_max_persistent_seq_no l"
  from rep obtain sss where inv: "lsm_inv crc l sss" and M: "mset log = lsm_contents l sss"
    and s: "sorted_wrt (\<lambda>x y. rec_seq y < rec_seq x) log" and files: "files_ok l d"
    and ne: "\<forall>rs \<in> set sss. length rs = Suc (max_records_in_mem_table (lsm_options l))"
    and p: "?p = max_seq (concat sss)" by (auto simp: plain_rep_def)
  have ne': "[] \<notin> set sss" using ne by force
  have ok: "list_all2 (ss_holds crc) (lsm_ss_tables l) sss" and nw: "sorted_wrt newer (rev sss)"
    and le: "\<forall>r \<in> set (concat sss). rec_seq r \<le> ?p" and pos: "0 \<le> ?p"
    using inv by (auto simp: lsm_inv_def lsm_tables_ok_def lsm_levels_def sorted_wrt_append)
  have base: "lsm_base_dir ?l0 = lsm_base_dir l" by (simp add: Lsm_def)
  from lsm_OpenTables_rep [of d ?l0 crc, unfolded base, OF files_ok_open [OF files ok], of 0] obtain ts where
    op: "lsm_OpenTables d 0 ?l0 (map (numbered_name ''.sst.sdb'') [0..<length (lsm_ss_tables l)]) =
      Inr (?l0\<lparr>lsm_max_persistent_seq_no := (if sss = [] then 0 else max 0 (max_seq (last sss))), lsm_ss_tables := ts\<rparr>)"
    and ts: "list_all2 (ss_holds crc) ts sss"
      "list_all2 (\<lambda>name t. map_of d (lsm_base_dir l @ ''/'' @ name) = Some (fr_content (st_file_reader t)) \<and>
        st_GetFilePath t = lsm_base_dir l @ ''/'' @ name) (map (numbered_name ''.sst.sdb'') [0..<length (lsm_ss_tables l)]) ts"
    using list_all2_lengthD [OF ok] by (cases "sss = []") (auto simp: Lsm_def)
  let ?t = "?l0\<lparr>lsm_max_persistent_seq_no := ?p, lsm_ss_tables := ts, lsm_next_seq_no := ?p + 1\<rparr>"
  let ?log = "filter (\<lambda>r. rec_seq r \<le> ?p) log"
  have "(if sss = [] then 0 else max 0 (max_seq (last sss))) = ?p"
    unfolding p by (subst max_seq_newest [OF nw ne']) (simp add: max_seq_nonneg)
  with op have init: "lsm_Init d ?l0 = Inr ?t"
    by (simp add: lsm_Init_def base files_ok_names [OF files few])
  note tree = tree_opened [OF ts(1) nw le pos opts, of "lsm_base_dir l"]
  have l: "lsm_next_seq_no ?t = ?p + 1" "lsm_options ?t = opts" "lsm_base_dir ?t = lsm_base_dir l" "lsm_ro_mem_tables ?t = []"
    "lsm_max_persistent_seq_no ?t = ?p" "lsm_ss_tables ?t = ts" by (simp_all add: Lsm_def)
  have M': "mset ?log = lsm_contents ?t sss" "sorted_wrt (\<lambda>x y. rec_seq y < rec_seq x) ?log"
    using plain_persistent [OF inv M] tree(3) s by (simp_all add: sorted_wrt_filter)
  have "files_ok ?t d" using files_ok_opened [OF files l(3)] ts(2) l(6) by simp
  then have "plain_rep crc ?t d (?p + 1, ?log)" if "opts = lsm_options l"
    unfolding plain_rep_def using tree(1,2) l M' ne p that by (intro exI [of _ sss]) simp
  moreover have "log_rep crc ?t (?p + 1, ?log)" unfolding log_rep_def using tree(1,2) l M' by (intro exI [of _ sss]) simp
  ultimately show ?thesis using init l by blast
qed

lemma plain_table_count:
  assumes "plain_rep crc l d (n, log)"
  shows "length (lsm_ss_tables l) * Suc (max_records_in_mem_table (lsm_options l)) \<le> length log"
    "lsm_max_persistent_seq_no l < n"
proof -
  from assms obtain sss where inv: "lsm_inv crc l sss" and n: "lsm_next_seq_no l = n" and M: "mset log = lsm_contents l sss"
    and len: "\<forall>rs \<in> set sss. length rs = Suc (max_records_in_mem_table (lsm_options l))" by (auto simp: plain_rep_def)
  have "length (concat sss) = length sss * Suc (max_records_in_mem_table (lsm_options l))"
    using len by (intro length_concat_const) simp
  moreover have "length sss = length (lsm_ss_tables l)"
    using inv by (auto simp: lsm_inv_def lsm_tables_ok_def dest: list_all2_lengthD)
  moreover have "length (concat sss) \<le> length log"
    using size_mset [of log] unfolding M lsm_contents_def size_mset lsm_levels_def by (simp add: length_concat rev_map [symmetric] sum_list_rev)
  ultimately show "length (lsm_ss_tables l) * Suc (max_records_in_mem_table (lsm_options l)) \<le> length log" by simp
  show "lsm_max_persistent_seq_no l < n" using inv n by (simp add: lsm_inv_def)
qed

lemma log_exec_bounds:
  "fst (log_exec s ops) \<le> fst s + int (length ops) \<and> length (snd (log_exec s ops)) \<le> length (snd s) + length ops"
proof (induction ops arbitrary: s)
  case (Cons op ops)
  have "fst (fst (log_step s op)) \<le> fst s + 1" "length (snd (fst (log_step s op))) \<le> Suc (length (snd s))"
    by (cases s; cases op; simp)+
  with Cons [of "fst (log_step s op)"] show ?case by simp
qed simp

lemma plain_rep_empty:
  assumes opts: "good_options opts" and dir: "io_ListDirectory d base_dir = []" and d: "distinct (map fst d)"
  shows "plain_rep crc ((Lsm base_dir opts)\<lparr>lsm_next_seq_no := 1\<rparr>) d (1, [])"
proof -
  have "\<forall>path \<in> fst ` set d. \<not> in_directory base_dir path"
    using dir by (auto simp: io_ListDirectory_def filter_empty_conv)
  with opts d show ?thesis
    by (auto simp: plain_rep_def Lsm_def lsm_inv_def lsm_tables_ok_def lsm_levels_def lsm_contents_def lsm_fits_def
        mem_table_fits_def mem_records_def newer_def files_ok_def dir_holds_def table_files_def)
qed



end
