(* ===== verification/Lsm_Compact.thy ===== *)
theory Lsm_Compact
  imports Lsm_Restart
begin

section \<open>Compaction of an LSM tree\<close>

text \<open>
  What \<open>Lsm::Compact\<close> does, for every compaction strategy that keeps the contract of
  \<open>src/src/server/lsm/compaction/compact_strategy.hpp\<close>: it reads the merged records and adds
  some of them to the builder, in order. The strategy of the program (theory
  \<open>Transactional_Table\<close>) is an interpretation of the locale. The last section shows what
  compaction does to the files.
\<close>

subsection \<open>The contract of a strategy\<close>

locale lsm_compaction =
  fixes crc :: crc32
    and strategy :: compaction_strategy
    and keep :: "lsm_record list \<Rightarrow> lsm_record list"
    and readable :: "lsm_record list \<Rightarrow> bool"
  assumes strategy_runs: "mg_rep crc mg rs \<Longrightarrow> readable rs \<Longrightarrow> strategy mg b = Some (sb_AddAll crc b (keep rs))"
    and keep_sorted: "sorted rs \<Longrightarrow> readable rs \<Longrightarrow> sorted (keep rs)"
    and keep_from: "readable rs \<Longrightarrow> r \<in> set (keep rs) \<Longrightarrow>
      \<exists>r' \<in> set rs. rec_key r = rec_key r' \<and> rec_seq r = rec_seq r' \<and> length (rec_value r) = length (rec_value r')"
    and keep_length: "length (keep rs) \<le> length rs"
begin

lemma keep_storable:
  "readable rs \<Longrightarrow> list_all (storable psize) rs \<Longrightarrow> list_all (storable psize) (keep rs)"
  unfolding list_all_iff storable_def length_record_bytes by (metis keep_from)

lemma compact_inv:
  assumes inv: "lsm_inv crc l sss" and rd: "readable rs" "sorted rs" "set rs = set (concat sss)"
    and t: "ss_holds crc t (keep rs)"
  shows "lsm_inv crc (l\<lparr>lsm_ss_tables := [t]\<rparr>) [keep rs]"
proof -
  have seq: "\<exists>r' \<in> set (concat sss). rec_seq r = rec_seq r'" if "r \<in> set (keep rs)" for r
    using keep_from [OF rd(1) that] rd(3) by blast
  have old: "rec_seq r \<le> lsm_max_persistent_seq_no l" if "r \<in> set (keep rs)" for r
    using seq [OF that] inv by (auto simp: lsm_inv_def)
  have "lsm_tables_ok crc (l\<lparr>lsm_ss_tables := [t]\<rparr>) [keep rs]"
    using inv t by (simp add: lsm_inv_def lsm_tables_ok_def)
  moreover have "sorted_wrt newer (lsm_levels (l\<lparr>lsm_ss_tables := [t]\<rparr>) [keep rs])"
  proof -
    have mem: "lsm_max_persistent_seq_no l < rec_seq x" if "x \<in> mem_records l" for x
      using that inv by (simp add: lsm_inv_def)
    have "newer xs (keep rs)" if "set xs \<subseteq> mem_records l" for xs
      unfolding newer_def using mem old that by (meson le_less_trans subsetD)
    moreover have "set (mt_impl (lsm_mem_table l)) \<subseteq> mem_records l"
      "\<forall>m \<in> set (lsm_ro_mem_tables l). set (mt_impl m) \<subseteq> mem_records l" by (auto simp: mem_records_def)
    moreover have "sorted_wrt newer (mt_impl (lsm_mem_table l) # rev (map mt_impl (lsm_ro_mem_tables l)))"
      using inv by (simp add: lsm_inv_def lsm_levels_def sorted_wrt_append)
    ultimately show ?thesis by (simp add: lsm_levels_def sorted_wrt_append)
  qed
  moreover have "\<forall>r \<in> set (concat (lsm_levels (l\<lparr>lsm_ss_tables := [t]\<rparr>) [keep rs])). rec_seq r < lsm_next_seq_no l"
  proof
    fix r
    assume "r \<in> set (concat (lsm_levels (l\<lparr>lsm_ss_tables := [t]\<rparr>) [keep rs]))"
    then consider "r \<in> set (concat (lsm_levels l sss))" | "r \<in> set (keep rs)" by (auto simp: lsm_levels_def)
    then show "rec_seq r < lsm_next_seq_no l"
    proof cases
      case 1
      then show ?thesis using inv by (simp only: lsm_inv_def)
    next
      case 2
      then show ?thesis using old [OF 2] inv by (simp add: lsm_inv_def)
    qed
  qed
  ultimately show ?thesis
    using inv old by (simp add: lsm_inv_def mem_records_def)
qed

text \<open>
  Compaction never fails on a tree in a consistent state; it leaves the mem tables as they
  are and puts what the strategy keeps into one table.
\<close>

lemma compact_correct:
  assumes inv: "lsm_inv crc l sss" and rd: "readable (sort (concat sss))"
    and good: "good_page_size (page_size (lsm_options l))"
    and st: "list_all (storable (page_size (lsm_options l))) (concat sss)"
    and fits: "file_fits (page_size (lsm_options l)) (length (concat sss))"
  shows "\<exists>t d'. lsm_Compact crc l d strategy = Some (Inr (l\<lparr>lsm_ss_tables := [t]\<rparr>, d')) \<and>
    lsm_inv crc (l\<lparr>lsm_ss_tables := [t]\<rparr>) [keep (sort (concat sss))]"
proof -
  let ?rs = "sort (concat sss)" and ?ps = "page_size (lsm_options l)"
  define path where "path = sst_path (lsm_base_dir l)
    (if lsm_ss_tables l \<noteq> [] then GetSSTableNo (st_GetFilePath (last (lsm_ss_tables l))) + 1 else 0)"
  let ?fw = "\<lparr>fw_path = path, fw_content = [], fw_pos = 0, fw_append = False\<rparr>"
  have ok: "list_all2 (ss_holds crc) (lsm_ss_tables l) sss" using inv by (simp add: lsm_inv_def lsm_tables_ok_def)
  from scan_all_rep [OF ok, of FullScan] obtain its where its: "scan_all crc (lsm_ss_tables l) FullScan = Inr its"
    "list_all2 (\<lambda>it xs. li_rep crc it xs \<and> sorted xs) its (map (filter (in_range FullScan)) sss)" by blast
  moreover have "map (filter (in_range FullScan)) sss = sss" by (simp add: map_idI)
  ultimately obtain mg where mg: "MergeIterator_Create crc its = Inr mg" "mg_rep crc mg ?rs"
    using MergeIterator_Create_rep [of crc its sss] by auto
  have "list_all (storable ?ps) (keep ?rs)" using st by (intro keep_storable [OF rd]) (simp add: list_all_iff)
  from write_records_image [OF good this, of crc path] obtain sb pages where
    w: "write_records crc ?fw ?ps (keep ?rs) = Inr sb"
    and content: "fw_content (sb_file_writer sb) = sst_image crc ?ps pages" "fw_path (sb_file_writer sb) = path"
    and cat: "concat pages = keep ?rs" and pages: "list_all (\<lambda>p. p \<noteq> [] \<and> page_fits ?ps p) pages" .
  from w obtain sb0 where sb0: "sb_AddAll crc (SSTableBuilder_Create ?fw ?ps) (keep ?rs) = Inr sb0" "sb_Finish crc sb0 = Inr sb"
    by (auto simp: write_records_def bindE_Inr_conv)
  have "int (length (keep ?rs)) * ?ps \<le> int (length (concat sss)) * ?ps"
    using keep_length [of ?rs] good by (intro mult_right_mono) (auto simp: good_page_size_def)
  then have sm: "int (length (sst_image crc ?ps pages)) < 2 ^ 63"
    using good pages fits by (intro sst_image_small) (auto simp: cat file_fits_def)
  define d1 where "d1 = fw_Close (sb_file_writer sb) (fst (fw_Open d path False))"
  let ?fr = "\<lparr>fr_path = path, fr_content = sst_image crc ?ps pages, fr_pos = 0\<rparr>"
  have reopen: "fr_Open d1 path = Inr ?fr" by (simp add: fr_Open_def d1_def content)
  obtain t where t: "SSTable_Create ?fr (page_cache_capacity (lsm_options l)) = Inr t" "sst_rep crc ?ps pages t"
    using SSTable_Create_rep [OF good pages _ _ sm, of ?fr] by auto
  have "sorted (keep ?rs)" using rd by (intro keep_sorted) simp_all
  then have "ss_holds crc t (keep ?rs)" using t(2) cat by (auto simp: ss_holds_def)
  then have "lsm_inv crc (l\<lparr>lsm_ss_tables := [t]\<rparr>) [keep ?rs]" using inv rd by (intro compact_inv) simp_all
  moreover have "lsm_Compact crc l d strategy =
      Some (Inr (l\<lparr>lsm_ss_tables := [t]\<rparr>, foldl io_Remove d1 (map st_GetFilePath (lsm_ss_tables l))))"
    using its(1) mg sb0 reopen t(1) strategy_runs [OF mg(2) rd]
    by (simp add: lsm_Compact_def split_beta Let_def fw_Open_create path_def [symmetric] d1_def [symmetric])
  ultimately show ?thesis by blast
qed

end

end
