(* ===== verification/Wal_Event.thy ===== *)
theory Wal_Event
  imports Sdb_Format
begin

section \<open>Events of the write-ahead log\<close>

text \<open>
  \<open>src/src/server/wal/events\<close>: the two kinds of events, how they are written to and parsed
  from a page of the log. \<open>LsmStorageUpsertEvent::Parse\<close> reads its four fields in the
  arguments of one call; the model reads them from left to right, which the language leaves
  to the compiler. What an event does to the database is in the theory \<open>Database_Model\<close>.
\<close>

datatype event =
    LsmStorageUpsertEvent (ev_storage_id: string) (ev_seq_no: int) (ev_key: string) (ev_value: string)
  | TxStorageCommitEvent (ev_tx_id: int)

definition kLsmStorageUpsert :: int where "kLsmStorageUpsert = 1"
definition kTxStorageCommit :: int where "kTxStorageCommit = 2"

fun ev_GetType :: "event \<Rightarrow> int" where
  "ev_GetType (LsmStorageUpsertEvent storage_id seq key val) = kLsmStorageUpsert"
| "ev_GetType (TxStorageCommitEvent tx) = kTxStorageCommit"

fun ev_Flush :: "buffer_writer \<Rightarrow> event \<Rightarrow> buffer_writer" where
  "ev_Flush w (LsmStorageUpsertEvent storage_id seq key val) =
     bw_WriteString (bw_WriteString (bw_WriteInt (bw_WriteString w storage_id) seq) key) val"
| "ev_Flush w (TxStorageCommitEvent tx) = bw_WriteInt w tx"

definition FlushEvent :: "buffer_writer \<Rightarrow> event \<Rightarrow> buffer_writer" where
  "FlushEvent w ev = ev_Flush (bw_WriteInt w (ev_GetType ev)) ev"

definition LsmStorageUpsertEvent_Parse :: "buffer_reader \<Rightarrow> (event \<times> buffer_reader) result" where
  "LsmStorageUpsertEvent_Parse rd =
     bindE (br_ReadString rd) (\<lambda>(storage_id, rd).
     bindE (br_ReadInt rd) (\<lambda>(seq, rd).
     bindE (br_ReadString rd) (\<lambda>(key, rd).
     bindE (br_ReadString rd) (\<lambda>(val, rd).
       Inr (LsmStorageUpsertEvent storage_id seq key val, rd)))))"

definition TxStorageCommitEvent_Parse :: "buffer_reader \<Rightarrow> (event \<times> buffer_reader) result" where
  "TxStorageCommitEvent_Parse rd = bindE (br_ReadInt rd) (\<lambda>(tx, rd). Inr (TxStorageCommitEvent tx, rd))"

text \<open>\<open>kParsers.at\<close> throws \<open>std::out_of_range\<close> for every other type.\<close>

definition ParseEvent :: "buffer_reader \<Rightarrow> (event \<times> buffer_reader) result" where
  "ParseEvent rd =
     bindE (br_ReadInt rd) (\<lambda>(type, rd).
       if type = kLsmStorageUpsert then LsmStorageUpsertEvent_Parse rd
       else if type = kTxStorageCommit then TxStorageCommitEvent_Parse rd
       else Inl OutOfRange)"

subsection \<open>Round trip\<close>

fun event_bytes :: "event \<Rightarrow> bytes" where
  "event_bytes (LsmStorageUpsertEvent storage_id seq key val) =
     int64_bytes kLsmStorageUpsert @ string_bytes storage_id @ int64_bytes seq @ string_bytes key @ string_bytes val"
| "event_bytes (TxStorageCommitEvent tx) = int64_bytes kTxStorageCommit @ int64_bytes tx"

fun valid_event :: "event \<Rightarrow> bool" where
  "valid_event (LsmStorageUpsertEvent storage_id seq key val) \<longleftrightarrow>
     is_string64 storage_id \<and> is_int64 seq \<and> is_string64 key \<and> is_string64 val"
| "valid_event (TxStorageCommitEvent tx) \<longleftrightarrow> is_int64 tx"

lemma length_event_bytes: "16 \<le> length (event_bytes ev)"
  by (cases ev) simp_all

lemma LsmStorageUpsertEvent_Parse_bytes:
  assumes v: "is_string64 sid" "is_int64 seq" "is_string64 key" "is_string64 val"
    and rest: "br_rest rd = string_bytes sid @ int64_bytes seq @ string_bytes key @ string_bytes val @ rest"
  shows "LsmStorageUpsertEvent_Parse rd = Inr (LsmStorageUpsertEvent sid seq key val,
    br_advance (length (string_bytes sid @ int64_bytes seq @ string_bytes key @ string_bytes val)) rd)"
proof -
  note a = string_codec.get_enc [OF v(1), of rd "int64_bytes seq @ string_bytes key @ string_bytes val @ rest"]
  note b = int_codec.get_enc [OF v(2), of "br_advance (length (string_bytes sid)) rd" "string_bytes key @ string_bytes val @ rest"]
  note c = string_codec.get_enc [OF v(3), of "br_advance (length (string_bytes sid) + 8) rd" "string_bytes val @ rest"]
  note d = string_codec.get_enc [OF v(4), of "br_advance (length (string_bytes sid) + 8 + length (string_bytes key)) rd" rest]
  show ?thesis using a b c d rest
    by (simp add: LsmStorageUpsertEvent_Parse_def)
qed

interpretation event_codec: sdb_codec FlushEvent ParseEvent event_bytes valid_event
proof unfold_locales
  fix w ev show "bw_data (FlushEvent w ev) = bw_data w @ event_bytes ev"
    by (cases ev) (simp_all add: FlushEvent_def codec_simps)
next
  fix ev :: event show "event_bytes ev \<noteq> []" using length_event_bytes [of ev] by auto
next
  fix rd ev rest
  assume v: "valid_event ev" and rest: "br_rest rd = event_bytes ev @ rest"
  show "ParseEvent rd = Inr (ev, br_advance (length (event_bytes ev)) rd)"
  proof (cases ev)
    case (LsmStorageUpsertEvent sid seq key val)
    with rest v have "br_ReadInt rd = Inr (kLsmStorageUpsert, br_advance 8 rd)"
      using int_codec.get_enc [of kLsmStorageUpsert rd] by (simp add: kLsmStorageUpsert_def)
    with LsmStorageUpsertEvent v rest LsmStorageUpsertEvent_Parse_bytes [of sid seq key val "br_advance 8 rd" rest]
    show ?thesis by (simp add: ParseEvent_def)
  next
    case (TxStorageCommitEvent tx)
    with rest v have "br_ReadInt rd = Inr (kTxStorageCommit, br_advance 8 rd)"
      "br_ReadInt (br_advance 8 rd) = Inr (tx, br_advance 16 rd)"
      using int_codec.get_enc [of kTxStorageCommit rd "int64_bytes tx @ rest"] int_codec.get_enc [of tx "br_advance 8 rd" rest]
      by (simp_all add: kTxStorageCommit_def)
    with TxStorageCommitEvent show ?thesis
      by (simp add: ParseEvent_def TxStorageCommitEvent_Parse_def kLsmStorageUpsert_def kTxStorageCommit_def)
  qed
qed

text \<open>Parsing moves forward; padding does not parse.\<close>

lemma br_Read_moves: "br_Read rd n = Inr (bs, rd') \<Longrightarrow> br_data rd' = br_data rd \<and> br_buf rd' = br_buf rd + n \<and> br_buf rd' \<le> length (br_data rd)"
  by (auto simp: br_Read_def split: if_splits)

lemma br_ReadInt_moves: "br_ReadInt rd = Inr (v, rd') \<Longrightarrow> br_data rd' = br_data rd \<and> br_buf rd < br_buf rd' \<and> br_buf rd' \<le> length (br_data rd)"
  by (auto simp: br_ReadInt_def bindE_Inr_conv dest!: br_Read_moves)

lemma br_ReadString_moves: "br_ReadString rd = Inr (v, rd') \<Longrightarrow> br_data rd' = br_data rd \<and> br_buf rd < br_buf rd' \<and> br_buf rd' \<le> length (br_data rd)"
  by (auto simp: br_ReadString_def bindE_Inr_conv dest!: br_Read_moves br_ReadInt_moves split: if_splits)

lemma ParseEvent_moves:
  assumes "ParseEvent rd = Inr (ev, rd')"
  shows "br_data rd' = br_data rd \<and> br_buf rd < br_buf rd' \<and> br_buf rd' \<le> length (br_data rd)"
proof -
  from assms obtain ty rd1 where "br_ReadInt rd = Inr (ty, rd1)"
    and "LsmStorageUpsertEvent_Parse rd1 = Inr (ev, rd') \<or> TxStorageCommitEvent_Parse rd1 = Inr (ev, rd')"
    by (auto simp: ParseEvent_def bindE_Inr_conv split: if_splits)
  then show ?thesis
    unfolding LsmStorageUpsertEvent_Parse_def TxStorageCommitEvent_Parse_def
    by (auto simp: bindE_Inr_conv dest!: br_ReadInt_moves br_ReadString_moves)
qed

lemma ParseEvent_padding:
  assumes "br_rest rd = replicate n (CHR 0x00)" "8 \<le> n"
  shows "ParseEvent rd = Inl OutOfRange"
proof -
  have "int64_bytes 0 = replicate 8 (CHR 0x00)"
    by (simp add: int64_bytes_def map_replicate_const) code_simp
  then have "br_rest rd = int64_bytes 0 @ replicate (n - 8) (CHR 0x00)"
    using assms by (simp flip: replicate_add)
  then have "br_ReadInt rd = Inr (0, br_advance 8 rd)" using int_codec.get_enc [of 0 rd] by simp
  then show ?thesis by (simp add: ParseEvent_def kLsmStorageUpsert_def kTxStorageCommit_def)
qed

lemma ParseEvent_short: "length (br_rest rd) < 8 \<Longrightarrow> ParseEvent rd = Inl OutOfBounds"
  by (auto simp: ParseEvent_def br_ReadInt_def br_Read_rest)

end
