(* ===== verification/Wal.thy ===== *)
theory Wal
  imports Wal_Event File_Names
begin

section \<open>The write-ahead log\<close>

text \<open>
  \<open>src/src/server/wal\<close>: the writer (\<open>writer.cpp\<close>), the reader of all segments
  (\<open>reader.cpp\<close>) with the strategies that recover a database (\<open>recovery.cpp\<close>) and find
  obsolete segments (\<open>cleaner.cpp\<close>), and the functions replication uses (\<open>tail.cpp\<close>). The
  reader is generic in its strategy, as in the source, and the strategies are generic in
  what an event does to the database, which the theory \<open>Database_Model\<close> supplies.
\<close>

definition kWalPageSize :: int where "kWalPageSize = 4096"
definition kMaxPagesInSegment :: int where "kMaxPagesInSegment = 1"

definition GetSegmentNoFromName :: "string \<Rightarrow> int" where
  "GetSegmentNoFromName name = (case stoll name of Inl _ \<Rightarrow> -1 | Inr no \<Rightarrow> no)"

definition segment_path :: "string \<Rightarrow> int \<Rightarrow> string" where
  "segment_path wal_dir no = wal_dir @ ''/'' @ fmt04d no @ ''.wal.sdb''"

subsection \<open>Writer\<close>

record wal_writer =
  ww_wal_dir_path :: string
  ww_segment_writer :: file_writer
  ww_page_size :: int
  ww_pages_in_segment :: int
  ww_segment_no :: int

definition ww_OpenSegment :: "disk \<Rightarrow> wal_writer \<Rightarrow> disk \<times> wal_writer" where
  "ww_OpenSegment d w =
     (let w = w\<lparr>ww_pages_in_segment := 0\<rparr>;
          (d, fw) = fw_Open d (segment_path (ww_wal_dir_path w) (ww_segment_no w)) True
      in (d, w\<lparr>ww_segment_writer := fw\<rparr>))"

text \<open>\<open>Writer::Open\<close>: the constructor, \<open>Init\<close> and with it the first \<open>OpenSegment\<close>.\<close>

definition Writer_Open :: "disk \<Rightarrow> string \<Rightarrow> disk \<times> wal_writer" where
  "Writer_Open d wal_dir =
     (let segments = sort (io_ListDirectory d wal_dir);
          no = (if segments \<noteq> [] then GetSegmentNoFromName (last segments) + 1 else 0)
      in ww_OpenSegment d
           \<lparr>ww_wal_dir_path = wal_dir,
            ww_segment_writer = \<lparr>fw_path = [], fw_content = [], fw_pos = 0, fw_append = True\<rparr>,
            ww_page_size = 0, ww_pages_in_segment = 0, ww_segment_no = no\<rparr>)"

definition ww_FlushSegment :: "disk \<Rightarrow> wal_writer \<Rightarrow> disk \<times> wal_writer" where
  "ww_FlushSegment d w = ww_OpenSegment d (w\<lparr>ww_segment_no := ww_segment_no w + 1\<rparr>)"

text \<open>The file that \<open>FlushSegment\<close> closes is on disk with its padding.\<close>

definition ww_FlushPage :: "disk \<Rightarrow> wal_writer \<Rightarrow> disk \<times> wal_writer" where
  "ww_FlushPage d w =
     (if ww_page_size w = 0 then (d, w)
      else
        let fw = (if ww_page_size w < kWalPageSize
                  then fw_Write (ww_segment_writer w) (replicate (nat (kWalPageSize - ww_page_size w)) (CHR 0x00))
                  else ww_segment_writer w);
            w = w\<lparr>ww_segment_writer := fw, ww_page_size := 0, ww_pages_in_segment := ww_pages_in_segment w + 1\<rparr>;
            d = fw_FSync fw d
        in if ww_pages_in_segment w \<ge> kMaxPagesInSegment then ww_FlushSegment d w else (d, w))"

definition ww_Write :: "disk \<Rightarrow> wal_writer \<Rightarrow> event \<Rightarrow> disk \<times> wal_writer" where
  "ww_Write d w ev =
     (let content = bw_Extract (FlushEvent BufferWriter ev);
          (d, w) = (if ww_page_size w + int (length content) > kWalPageSize then ww_FlushPage d w else (d, w));
          fw = fw_Write (ww_segment_writer w) content
      in (fw_FSync fw d, w\<lparr>ww_segment_writer := fw, ww_page_size := ww_page_size w + int (length content)\<rparr>))"

fun ww_WriteAll :: "disk \<Rightarrow> wal_writer \<Rightarrow> event list \<Rightarrow> disk \<times> wal_writer" where
  "ww_WriteAll d w [] = (d, w)"
| "ww_WriteAll d w (ev # evs) = (let (d, w) = ww_Write d w ev in ww_WriteAll d w evs)"

subsection \<open>Reader\<close>

record position =
  segment_no :: int
  page_no :: int

text \<open>
  A strategy's \<open>OnPage\<close> keeps the effect of the events it has handled when it throws, so it
  returns its state together with the exception.
\<close>

type_synonym 's on_page = "position \<Rightarrow> bytes \<Rightarrow> 's \<Rightarrow> 's \<times> error option"

text \<open>
  \<open>ReadSegment\<close> catches every exception of \<open>OnPage\<close>; a read past the end of the page is not
  an exception and is passed on. The page number it reports is always \<open>0\<close>.
\<close>

function ReadSegment :: "'s on_page \<Rightarrow> file_reader \<Rightarrow> int \<Rightarrow> 's \<Rightarrow> 's result" where
  "ReadSegment on_page fr seg s =
     (case fr_Read fr (nat kWalPageSize) of
        Inl e \<Rightarrow> Inr s
      | Inr x \<Rightarrow>
          if fst x = [] then Inr s
          else (case on_page \<lparr>segment_no = seg, page_no = 0\<rparr> (fst x) s of
                  (s', None) \<Rightarrow> ReadSegment on_page (snd x) seg s'
                | (s', Some e) \<Rightarrow> if e = OutOfBounds then Inl OutOfBounds else Inr s'))"
  by pat_completeness auto
termination
  by (relation "measure (\<lambda>(on_page, fr, seg, s). length (fr_content fr) - fr_pos fr)")
    (auto simp: fr_Read_def Let_def split: if_splits)

declare ReadSegment.simps [simp del]

fun ReadSegments :: "'s on_page \<Rightarrow> disk \<Rightarrow> string \<Rightarrow> string list \<Rightarrow> 's \<Rightarrow> 's result" where
  "ReadSegments on_page d wal_dir [] s = Inr s"
| "ReadSegments on_page d wal_dir (segment # segments) s =
     bindE (fr_Open d (wal_dir @ ''/'' @ segment)) (\<lambda>fr.
     bindE (ReadSegment on_page fr (GetSegmentNoFromName segment) s) (\<lambda>s.
       ReadSegments on_page d wal_dir segments s))"

definition Reader_Read :: "'s on_page \<Rightarrow> disk \<Rightarrow> string \<Rightarrow> 's \<Rightarrow> 's result" where
  "Reader_Read on_page d wal_dir s =
     (let segments = io_ListDirectory d wal_dir
      in if segments = [] then Inr s else ReadSegments on_page d wal_dir (sort segments) s)"

text \<open>The loop over the events of a page that the two strategies share.\<close>

function parse_page :: "(event \<Rightarrow> 's \<Rightarrow> 's result) \<Rightarrow> buffer_reader \<Rightarrow> 's \<Rightarrow> 's \<times> error option" where
  "parse_page handle rd s =
     (if br_HasMore rd then
        (case ParseEvent rd of
           Inl e \<Rightarrow> (s, Some e)
         | Inr x \<Rightarrow>
             (case handle (fst x) s of
                Inl e \<Rightarrow> (s, Some e)
              | Inr s' \<Rightarrow> parse_page handle (snd x) s'))
      else (s, None))"
  by pat_completeness auto
termination
  by (relation "measure (\<lambda>(handle, rd, s). length (br_data rd) - br_buf rd)")
    (auto dest!: ParseEvent_moves)

declare parse_page.simps [simp del]

subsection \<open>Recovery\<close>

definition RecoveryStrategy :: "(event \<Rightarrow> 'db \<Rightarrow> 'db result) \<Rightarrow> 'db on_page" where
  "RecoveryStrategy ev_Apply pos page_buffer db = parse_page ev_Apply (BufferReader page_buffer) db"

definition Recover :: "(event \<Rightarrow> 'db \<Rightarrow> 'db result) \<Rightarrow> disk \<Rightarrow> string \<Rightarrow> 'db \<Rightarrow> 'db result" where
  "Recover ev_Apply d wal_dir db = Reader_Read (RecoveryStrategy ev_Apply) d wal_dir db"

subsection \<open>Cleaner\<close>

definition AccumutaePersistence :: "int \<Rightarrow> bool \<Rightarrow> (int \<times> bool) list \<Rightarrow> (int \<times> bool) list" where
  "AccumutaePersistence seg is_persistent sp =
     (case map_of sp seg of
        None \<Rightarrow> sp @ [(seg, is_persistent)]
      | Some b \<Rightarrow> AList.update seg (b \<and> is_persistent) sp)"

definition CleanerStrategy :: "(event \<Rightarrow> bool result) \<Rightarrow> (int \<times> bool) list on_page" where
  "CleanerStrategy ev_IsPersistent pos page_buffer sp =
     parse_page (\<lambda>ev sp. bindE (ev_IsPersistent ev) (\<lambda>is_persistent.
         Inr (AccumutaePersistence (segment_no pos) is_persistent sp))) (BufferReader page_buffer) sp"

fun DeleteObsoleteSegments :: "disk \<Rightarrow> string \<Rightarrow> int option \<Rightarrow> (int \<times> bool) list \<Rightarrow> disk" where
  "DeleteObsoleteSegments d wal_dir retain_from_segment [] = d"
| "DeleteObsoleteSegments d wal_dir retain_from_segment ((seg, is_persistent) # sp) =
     (if \<not> is_persistent then DeleteObsoleteSegments d wal_dir retain_from_segment sp
      else if (case retain_from_segment of None \<Rightarrow> False | Some from \<Rightarrow> seg \<ge> from)
      then DeleteObsoleteSegments d wal_dir retain_from_segment sp
      else DeleteObsoleteSegments (io_Remove d (segment_path wal_dir seg)) wal_dir retain_from_segment sp)"

definition wal_Clean :: "(event \<Rightarrow> bool result) \<Rightarrow> disk \<Rightarrow> string \<Rightarrow> int option \<Rightarrow> disk result" where
  "wal_Clean ev_IsPersistent d wal_dir retain_from_segment =
     bindE (Reader_Read (CleanerStrategy ev_IsPersistent) d wal_dir []) (\<lambda>sp.
       Inr (DeleteObsoleteSegments d wal_dir retain_from_segment sp))"

subsection \<open>Tail\<close>

definition position_less :: "position \<Rightarrow> position \<Rightarrow> bool" where
  "position_less lhs rhs \<longleftrightarrow>
     (if segment_no lhs \<noteq> segment_no rhs then segment_no lhs < segment_no rhs else page_no lhs < page_no rhs)"

record wal_page_data =
  wp_position :: position
  wp_data :: bytes

function ReadSegmentPages :: "file_reader \<Rightarrow> int \<Rightarrow> position \<Rightarrow> int \<Rightarrow> wal_page_data list \<Rightarrow> wal_page_data list" where
  "ReadSegmentPages fr seg from pno out =
     (case fr_Read fr (nat kWalPageSize) of
        Inl e \<Rightarrow> out
      | Inr x \<Rightarrow>
          if fst x = [] then out
          else let pos = \<lparr>segment_no = seg, page_no = pno\<rparr>
               in ReadSegmentPages (snd x) seg from (pno + 1)
                    (if \<not> position_less pos from then out @ [\<lparr>wp_position = pos, wp_data = fst x\<rparr>] else out))"
  by pat_completeness auto
termination
  by (relation "measure (\<lambda>(fr, seg, from, pno, out). length (fr_content fr) - fr_pos fr)")
    (auto simp: fr_Read_def Let_def split: if_splits)

declare ReadSegmentPages.simps [simp del]

fun CollectSegments :: "disk \<Rightarrow> string \<Rightarrow> position \<Rightarrow> string list \<Rightarrow> wal_page_data list \<Rightarrow> wal_page_data list result" where
  "CollectSegments d wal_dir from [] out = Inr out"
| "CollectSegments d wal_dir from (segment # segments) out =
     (let seg = GetSegmentNoFromName segment
      in if seg < segment_no from then CollectSegments d wal_dir from segments out
         else bindE (fr_Open d (wal_dir @ ''/'' @ segment)) (\<lambda>fr.
                CollectSegments d wal_dir from segments (ReadSegmentPages fr seg from 0 out)))"

definition CollectPagesFrom :: "disk \<Rightarrow> string \<Rightarrow> position \<Rightarrow> wal_page_data list result" where
  "CollectPagesFrom d wal_dir from = CollectSegments d wal_dir from (sort (io_ListDirectory d wal_dir)) []"

partial_function (option) NextSegmentLoop :: "disk \<Rightarrow> string \<Rightarrow> int \<Rightarrow> int option" where
  "NextSegmentLoop d wal_dir seg =
     (let n = io_FileSize d (segment_path wal_dir seg)
      in if n < 0 \<or> n < kWalPageSize then Some seg else NextSegmentLoop d wal_dir (seg + 1))"

declare NextSegmentLoop.simps [code]

definition NextSegmentToFetch :: "disk \<Rightarrow> string \<Rightarrow> int option" where
  "NextSegmentToFetch d wal_dir = NextSegmentLoop d wal_dir 0"

definition WriteReceivedPage :: "disk \<Rightarrow> string \<Rightarrow> int \<Rightarrow> bytes \<Rightarrow> disk" where
  "WriteReceivedPage d wal_dir seg content =
     (let (d, fw) = fw_Open d (segment_path wal_dir seg) False
      in fw_FSync (fw_Write fw content) d)"

end
