(* ===== verification/Transactions.thy ===== *)
theory Transactions
  imports Wal
begin

section \<open>Transactions\<close>

text \<open>
  \<open>src/src/server/transaction/storage.cpp\<close>: transaction ids, their status, and the row locks.
  The log is shared by everything that writes to it, so an operation that logs takes the
  disk and the writer and returns them; \<open>ts_wal_writer\<close> says whether a writer is attached.
  \<open>AcquireRowLock\<close> suspends its coroutine while the row is locked: it is a step that is
  possible only when the row is free, \<open>None\<close> otherwise.
\<close>

type_synonym wal_env = "disk \<times> wal_writer"

definition wal_log :: "bool \<Rightarrow> wal_env \<Rightarrow> event \<Rightarrow> wal_env" where
  "wal_log attached env ev = (if attached then ww_Write (fst env) (snd env) ev else env)"

definition kStarted :: string where "kStarted = ''started''"
definition kCommited :: string where "kCommited = ''commited''"
definition kRollbacked :: string where "kRollbacked = ''rollbacked''"

lemma status_distinct [simp]:
  "kStarted \<noteq> kCommited" "kCommited \<noteq> kStarted" "kStarted \<noteq> kRollbacked"
  "kRollbacked \<noteq> kStarted" "kCommited \<noteq> kRollbacked" "kRollbacked \<noteq> kCommited"
  by (simp_all add: kStarted_def kCommited_def kRollbacked_def)

record tx_storage =
  ts_next_tx_id :: int
  ts_tx_status :: "int \<rightharpoonup> string"
  ts_wal_writer :: bool
  ts_row_locks :: "string \<rightharpoonup> int"
  ts_tx_locks :: "int \<rightharpoonup> string list"

definition kInitialTxId :: int where "kInitialTxId = 10"

definition Tx_Storage :: tx_storage where
  "Tx_Storage =
     \<lparr>ts_next_tx_id = kInitialTxId, ts_tx_status = Map.empty, ts_wal_writer = False,
      ts_row_locks = Map.empty, ts_tx_locks = Map.empty\<rparr>"

definition ts_Begin :: "tx_storage \<Rightarrow> int \<times> tx_storage" where
  "ts_Begin s =
     (let tx = ts_next_tx_id s
      in (tx, s\<lparr>ts_next_tx_id := ts_next_tx_id s + 1, ts_tx_status := (ts_tx_status s)(tx \<mapsto> kStarted)\<rparr>))"

fun release_rows :: "int \<Rightarrow> string list \<Rightarrow> (string \<rightharpoonup> int) \<Rightarrow> (string \<rightharpoonup> int)" where
  "release_rows tx [] row_locks = row_locks"
| "release_rows tx (row_key # row_keys) row_locks =
     release_rows tx row_keys (if row_locks row_key = Some tx then row_locks(row_key := None) else row_locks)"

definition ts_ReleaseAllLocks :: "tx_storage \<Rightarrow> int \<Rightarrow> tx_storage" where
  "ts_ReleaseAllLocks s tx =
     (case ts_tx_locks s tx of
        None \<Rightarrow> s
      | Some locked_rows \<Rightarrow>
          s\<lparr>ts_row_locks := release_rows tx locked_rows (ts_row_locks s),
            ts_tx_locks := (ts_tx_locks s)(tx := None)\<rparr>)"

definition ts_Rollback :: "tx_storage \<Rightarrow> int \<Rightarrow> tx_storage" where
  "ts_Rollback s tx = ts_ReleaseAllLocks (s\<lparr>ts_tx_status := (ts_tx_status s)(tx \<mapsto> kRollbacked)\<rparr>) tx"

definition ts_Commit :: "tx_storage \<Rightarrow> int \<Rightarrow> wal_env \<Rightarrow> tx_storage \<times> wal_env" where
  "ts_Commit s tx env =
     (let s = s\<lparr>ts_tx_status := (ts_tx_status s)(tx \<mapsto> kCommited)\<rparr>;
          env = wal_log (ts_wal_writer s) env (TxStorageCommitEvent tx)
      in (ts_ReleaseAllLocks s tx, env))"

definition ts_IsCommited :: "tx_storage \<Rightarrow> int \<Rightarrow> bool" where
  "ts_IsCommited s tx \<longleftrightarrow> ts_tx_status s tx = Some kCommited"

definition ts_IsStarted :: "tx_storage \<Rightarrow> int \<Rightarrow> bool" where
  "ts_IsStarted s tx \<longleftrightarrow> ts_tx_status s tx = Some kStarted"

definition ts_GetStatus :: "tx_storage \<Rightarrow> int \<Rightarrow> string option" where
  "ts_GetStatus s tx = ts_tx_status s tx"

definition ts_StartLogInto :: "tx_storage \<Rightarrow> tx_storage" where
  "ts_StartLogInto s = s\<lparr>ts_wal_writer := True\<rparr>"

definition ts_RecoverFromLog :: "tx_storage \<Rightarrow> int \<Rightarrow> tx_storage" where
  "ts_RecoverFromLog s last_committed_tx_id =
     s\<lparr>ts_tx_status := (ts_tx_status s)(last_committed_tx_id \<mapsto> kCommited),
       ts_next_tx_id := max (ts_next_tx_id s) (last_committed_tx_id + 1)\<rparr>"

definition ts_AcquireRowLock :: "tx_storage \<Rightarrow> int \<Rightarrow> string \<Rightarrow> tx_storage option" where
  "ts_AcquireRowLock s tx row_key =
     (if ts_row_locks s row_key \<noteq> None then None
      else Some (s\<lparr>ts_row_locks := (ts_row_locks s)(row_key \<mapsto> tx),
                   ts_tx_locks := (ts_tx_locks s)(tx \<mapsto>
                     List.insert row_key (case ts_tx_locks s tx of None \<Rightarrow> [] | Some rows \<Rightarrow> rows))\<rparr>))"

text \<open>\<open>transaction/types.cpp\<close>.\<close>

definition tx_ToBinary :: "int \<Rightarrow> string" where
  "tx_ToBinary tx = int64_bytes tx"

definition tx_ToString :: "int \<Rightarrow> string" where
  "tx_ToString tx = (if tx < 0 then CHR ''-'' # dec (nat (- tx)) else dec (nat tx))"

definition tx_FromString :: "string \<Rightarrow> int result" where
  "tx_FromString tx = stoll tx"

lemma tx_roundtrip: "is_int64 tx \<Longrightarrow> tx_FromString (tx_ToString tx) = Inr tx"
proof (cases "tx < 0")
  case False
  assume "is_int64 tx"
  with False stoll_digits [of "dec (nat tx)" "[]"] dec_digits [of "nat tx"] show ?thesis
    by (simp add: tx_FromString_def tx_ToString_def)
next
  case True
  assume tx: "is_int64 tx"
  have ds: "takeWhile is_digit (dec (nat (- tx))) = dec (nat (- tx))"
    using dec_digits [of "nat (- tx)"] by (simp add: takeWhile_eq_all_conv list_all_iff)
  from tx True show ?thesis
    by (simp add: tx_FromString_def tx_ToString_def stoll_def is_space_def ds)
qed

subsection \<open>The lock table\<close>

text \<open>
  The two maps of the lock table agree, and only started transactions hold locks.
\<close>

definition tx_rows :: "tx_storage \<Rightarrow> int \<Rightarrow> string set" where
  "tx_rows s tx = (case ts_tx_locks s tx of None \<Rightarrow> {} | Some rows \<Rightarrow> set rows)"

definition ts_inv :: "tx_storage \<Rightarrow> bool" where
  "ts_inv s \<longleftrightarrow>
     (\<forall>tx row. ts_row_locks s row = Some tx \<longleftrightarrow> row \<in> tx_rows s tx) \<and>
     (\<forall>tx row. ts_row_locks s row = Some tx \<longrightarrow> ts_IsStarted s tx) \<and>
     (\<forall>tx. ts_tx_status s tx \<noteq> None \<longrightarrow> tx < ts_next_tx_id s)"

lemma release_rows_eq:
  "release_rows tx rows locks row = (if row \<in> set rows \<and> locks row = Some tx then None else locks row)"
  by (induction rows arbitrary: locks) auto

lemma ReleaseAllLocks_row_locks:
  "ts_inv s \<Longrightarrow> ts_row_locks (ts_ReleaseAllLocks s tx) row = (if ts_row_locks s row = Some tx then None else ts_row_locks s row)"
  by (auto simp: ts_inv_def ts_ReleaseAllLocks_def tx_rows_def release_rows_eq split: option.split)

lemma ReleaseAllLocks_frame [simp]:
  "ts_tx_status (ts_ReleaseAllLocks s tx) = ts_tx_status s"
  "ts_next_tx_id (ts_ReleaseAllLocks s tx) = ts_next_tx_id s"
  "ts_wal_writer (ts_ReleaseAllLocks s tx) = ts_wal_writer s"
  by (simp_all add: ts_ReleaseAllLocks_def split: option.split)

lemma ReleaseAllLocks_tx_rows: "tx_rows (ts_ReleaseAllLocks s tx) tx' = (if tx' = tx then {} else tx_rows s tx')"
  by (auto simp: tx_rows_def ts_ReleaseAllLocks_def split: option.split)

lemma ts_inv_empty: "ts_inv Tx_Storage"
  by (simp add: ts_inv_def Tx_Storage_def tx_rows_def)

lemma ts_inv_Begin: "ts_inv s \<Longrightarrow> ts_inv (snd (ts_Begin s))"
  by (fastforce simp: ts_inv_def ts_Begin_def Let_def tx_rows_def ts_IsStarted_def)

lemma ts_inv_Acquire: "ts_inv s \<Longrightarrow> ts_IsStarted s tx \<Longrightarrow> ts_AcquireRowLock s tx row = Some s' \<Longrightarrow> ts_inv s'"
  by (fastforce simp: ts_inv_def ts_AcquireRowLock_def tx_rows_def ts_IsStarted_def split: if_splits option.splits)

text \<open>Ending a transaction: its locks are released before its status can matter to a lock.\<close>

lemma ts_inv_end:
  assumes inv: "ts_inv s" and tx: "tx < ts_next_tx_id s"
  shows "ts_inv (ts_ReleaseAllLocks (s\<lparr>ts_tx_status := (ts_tx_status s)(tx \<mapsto> st)\<rparr>) tx)"
proof -
  let ?s = "s\<lparr>ts_tx_status := (ts_tx_status s)(tx \<mapsto> st)\<rparr>"
  have locks: "ts_row_locks (ts_ReleaseAllLocks ?s tx) row = (if ts_row_locks s row = Some tx then None else ts_row_locks s row)" for row
    using inv by (auto simp: ts_inv_def ts_ReleaseAllLocks_def tx_rows_def release_rows_eq split: option.split)
  have rows: "tx_rows (ts_ReleaseAllLocks ?s tx) tx' = (if tx' = tx then {} else tx_rows s tx')" for tx'
    using ReleaseAllLocks_tx_rows [of ?s tx tx'] by (simp add: tx_rows_def)
  have uniq: "a = b" if "row \<in> tx_rows s a" "row \<in> tx_rows s b" for a b row
    using inv that unfolding ts_inv_def by (metis option.inject)
  show ?thesis
    using inv tx unfolding ts_inv_def locks rows ts_IsStarted_def by (auto split: if_splits) (use uniq in blast)+
qed

lemma ts_inv_Rollback: "ts_inv s \<Longrightarrow> tx < ts_next_tx_id s \<Longrightarrow> ts_inv (ts_Rollback s tx)"
  unfolding ts_Rollback_def by (rule ts_inv_end)

lemma ts_inv_Commit: "ts_inv s \<Longrightarrow> tx < ts_next_tx_id s \<Longrightarrow> ts_inv (fst (ts_Commit s tx env))"
  unfolding ts_Commit_def Let_def fst_conv by (rule ts_inv_end)

lemma ts_inv_Recover:
  "ts_inv s \<Longrightarrow> ts_row_locks s = Map.empty \<Longrightarrow> ts_inv (ts_RecoverFromLog s tx) \<and> ts_row_locks (ts_RecoverFromLog s tx) = Map.empty"
  by (auto simp: ts_inv_def ts_RecoverFromLog_def tx_rows_def less_max_iff_disj)

subsection \<open>Transactions as a transition system\<close>

text \<open>
  What the sessions of a server can do to the storage, in any interleaving. Only started
  transactions acquire locks and end (see \<open>Session\<close>).
\<close>

inductive ts_step :: "tx_storage \<Rightarrow> tx_storage \<Rightarrow> bool" where
  ts_begin: "ts_step s (snd (ts_Begin s))"
| ts_acquire: "ts_IsStarted s tx \<Longrightarrow> ts_AcquireRowLock s tx row = Some s' \<Longrightarrow> ts_step s s'"
| ts_commit: "ts_IsStarted s tx \<Longrightarrow> ts_step s (fst (ts_Commit s tx env))"
| ts_rollback: "ts_IsStarted s tx \<Longrightarrow> ts_step s (ts_Rollback s tx)"

inductive_cases ts_stepE: "ts_step s s'"

lemma ts_started_bound: "ts_inv s \<Longrightarrow> ts_IsStarted s tx \<Longrightarrow> tx < ts_next_tx_id s"
  by (auto simp: ts_inv_def ts_IsStarted_def)

lemma ts_step_inv: "ts_step s s' \<Longrightarrow> ts_inv s \<Longrightarrow> ts_inv s'"
  by (induction rule: ts_step.induct) (auto intro: ts_inv_Begin ts_inv_Acquire ts_inv_Commit ts_inv_Rollback ts_started_bound)

lemma ts_reachable_inv: "ts_step\<^sup>*\<^sup>* Tx_Storage s \<Longrightarrow> ts_inv s"
  by (induction rule: rtranclp_induct) (auto intro: ts_inv_empty ts_step_inv)

lemma ts_step_started: "ts_step s s' \<Longrightarrow> tx < ts_next_tx_id s \<Longrightarrow> ts_IsStarted s' tx \<Longrightarrow> ts_IsStarted s tx"
  by (induction rule: ts_step.induct)
    (auto simp: ts_IsStarted_def ts_Begin_def ts_AcquireRowLock_def ts_Commit_def ts_Rollback_def Let_def split: if_splits)

lemma ts_step_next: "ts_step s s' \<Longrightarrow> ts_next_tx_id s \<le> ts_next_tx_id s'"
  by (induction rule: ts_step.induct)
    (auto simp: ts_Begin_def ts_AcquireRowLock_def ts_Commit_def ts_Rollback_def Let_def split: if_splits)

lemma ts_step_keeps_lock:
  assumes "ts_step s s'" "ts_inv s" "ts_row_locks s row = Some tx" "ts_IsStarted s' tx"
  shows "ts_row_locks s' row = Some tx"
  using assms
proof (induction rule: ts_step.induct)
  case (ts_commit s tx' env)
  then have "tx' \<noteq> tx" by (auto simp: ts_IsStarted_def ts_Commit_def Let_def)
  with ts_commit show ?case
    by (auto simp: ts_Commit_def Let_def ts_ReleaseAllLocks_def release_rows_eq split: option.split)
next
  case (ts_rollback s tx')
  then have "tx' \<noteq> tx" by (auto simp: ts_IsStarted_def ts_Rollback_def)
  with ts_rollback show ?case
    by (auto simp: ts_Rollback_def ts_ReleaseAllLocks_def release_rows_eq split: option.split)
qed (auto simp: ts_Begin_def Let_def ts_AcquireRowLock_def split: if_splits)

lemma ts_steps_keep_lock:
  assumes "ts_step\<^sup>*\<^sup>* s s'" "ts_inv s" "ts_row_locks s row = Some tx" "ts_IsStarted s' tx"
  shows "ts_row_locks s' row = Some tx"
proof -
  have "ts_IsStarted s tx" using assms(2,3) unfolding ts_inv_def by blast
  then have "tx < ts_next_tx_id s" by (rule ts_started_bound [OF assms(2)])
  with assms(1) have "tx < ts_next_tx_id s' \<and> ts_inv s' \<and> (ts_IsStarted s' tx \<longrightarrow> ts_row_locks s' row = Some tx)"
  proof (induction rule: rtranclp_induct)
    case base
    then show ?case using assms(2,3) by simp
  next
    case (step y z)
    then show ?case using ts_step_next [of y z] ts_step_inv [of y z] ts_step_started [of y z tx] ts_step_keeps_lock [of y z row tx]
      by force
  qed
  with assms(4) show ?thesis by blast
qed

text \<open>
  C9. Row locks are strict two-phase locks: in every interleaving of sessions, a row locked
  by a transaction stays locked by it for as long as the transaction is started, whatever
  the other sessions do, so no other transaction can lock it before the first one has
  committed or rolled back.
\<close>

theorem row_lock_held_until_end:
  assumes "ts_step\<^sup>*\<^sup>* Tx_Storage s" and "ts_row_locks s row = Some tx"
    and "ts_step\<^sup>*\<^sup>* s s'" and "ts_IsStarted s' tx"
  shows "ts_row_locks s' row = Some tx \<and> ts_AcquireRowLock s' tx' row = None"
  using ts_steps_keep_lock [OF assms(3) ts_reachable_inv [OF assms(1)] assms(2,4)]
  by (simp add: ts_AcquireRowLock_def)

theorem row_lock_held_until_end_witness:
  "\<exists>s. ts_row_locks s ''k'' = Some 10 \<and> ts_AcquireRowLock s 11 ''k'' = None"
proof -
  let ?s1 = "snd (ts_Begin Tx_Storage)"
  have st: "ts_IsStarted ?s1 10" by (simp add: ts_Begin_def Tx_Storage_def ts_IsStarted_def Let_def kInitialTxId_def)
  obtain s2 where s2: "ts_AcquireRowLock ?s1 10 ''k'' = Some s2"
    by (simp add: ts_AcquireRowLock_def ts_Begin_def Tx_Storage_def Let_def)
  have r: "ts_step\<^sup>*\<^sup>* Tx_Storage s2"
    using ts_begin [of Tx_Storage] ts_acquire [OF st s2] by (meson rtranclp.rtrancl_into_rtrancl rtranclp.rtrancl_refl)
  have l: "ts_row_locks s2 ''k'' = Some 10" "ts_IsStarted (snd (ts_Begin s2)) 10"
    using s2 st by (auto simp: ts_AcquireRowLock_def ts_IsStarted_def ts_Begin_def Tx_Storage_def Let_def split: if_splits)
  have "ts_step\<^sup>*\<^sup>* s2 (snd (ts_Begin s2))" using ts_begin by blast
  from row_lock_held_until_end [OF r l(1) this l(2), of 11] show ?thesis by blast
qed

end
