(* ===== verification/Lsm_Engine.thy ===== *)
theory Lsm_Engine
  imports Lsm_Compact Transactions
begin

section \<open>The storage engine of a table\<close>

text \<open>
  \<open>src/src/server/table/storage/lsm_storage.cpp\<close>: the engine that adapts an LSM tree to the
  interface of a table's storage and logs its upserts. Iterators over records become iterators
  over rows; the locale \<open>engine_iterator\<close> does this once for every iterator of the tree.
  Operations that log take and return the disk and the log's writer (\<open>wal_env\<close>).
\<close>

record row =
  row_key :: string
  row_value :: string

subsection \<open>Iterators over rows\<close>

record 'it engine_iterator_state =
  ei_iterator :: 'it
  ei_last_seq_no :: int

definition LsmEngineIterator :: "'it \<Rightarrow> 'it engine_iterator_state" where
  "LsmEngineIterator it = \<lparr>ei_iterator = it, ei_last_seq_no = 0\<rparr>"

definition ei_HasMore :: "('it \<Rightarrow> bool) \<Rightarrow> 'it engine_iterator_state \<Rightarrow> bool" where
  "ei_HasMore has_more it = has_more (ei_iterator it)"

definition ei_Next ::
    "('it \<Rightarrow> (lsm_record \<times> 'it) result) \<Rightarrow> 'it engine_iterator_state \<Rightarrow> (row \<times> 'it engine_iterator_state) result" where
  "ei_Next nxt it =
     bindE (nxt (ei_iterator it)) (\<lambda>(r, i).
       Inr (\<lparr>row_key = rec_key r, row_value = rec_value r\<rparr>, \<lparr>ei_iterator = i, ei_last_seq_no = rec_seq r\<rparr>))"

text \<open>
  The output of a compaction shares the input iterator and asks it for the sequence number of
  the row it read last: the number is handed on with the row.
\<close>

definition ei_NextSeq ::
    "('it \<Rightarrow> (lsm_record \<times> 'it) result) \<Rightarrow> 'it engine_iterator_state \<Rightarrow> ((row \<times> int) \<times> 'it engine_iterator_state) result" where
  "ei_NextSeq nxt it = bindE (ei_Next nxt it) (\<lambda>(row, it). Inr ((row, ei_last_seq_no it), it))"

definition lo_Write :: "crc32 \<Rightarrow> ss_table_builder \<Rightarrow> row \<times> int \<Rightarrow> ss_table_builder result" where
  "lo_Write crc b out = sb_Add crc b (Record (row_key (fst out)) (snd out) (row_value (fst out)))"

definition row_of :: "lsm_record \<Rightarrow> row" where
  "row_of r = \<lparr>row_key = rec_key r, row_value = rec_value r\<rparr>"

locale engine_iterator = iterator has_more nxt rep
  for has_more :: "'it \<Rightarrow> bool" and nxt :: "'it \<Rightarrow> (lsm_record \<times> 'it) result" and rep :: "'it \<Rightarrow> lsm_record list \<Rightarrow> bool"

sublocale engine_iterator \<subseteq> ei: iterator "ei_HasMore has_more" "ei_Next nxt"
  "\<lambda>it rows. \<exists>rs. rep (ei_iterator it) rs \<and> rows = map row_of rs"
proof unfold_locales
  fix it :: "'it engine_iterator_state" and rows
  assume "\<exists>rs. rep (ei_iterator it) rs \<and> rows = map row_of rs"
  then show "ei_HasMore has_more it \<longleftrightarrow> rows \<noteq> []" by (auto simp: ei_HasMore_def has_more_rep)
next
  fix it :: "'it engine_iterator_state" and row rows
  assume "\<exists>rs. rep (ei_iterator it) rs \<and> row # rows = map row_of rs"
  then obtain r rs where "rep (ei_iterator it) (r # rs)" "row = row_of r" "rows = map row_of rs" by auto
  with nxt_rep [of "ei_iterator it" r rs]
  show "\<exists>it'. ei_Next nxt it = Inr (row, it') \<and> (\<exists>rs. rep (ei_iterator it') rs \<and> rows = map row_of rs)"
    by (auto simp: ei_Next_def row_of_def)
qed

sublocale engine_iterator \<subseteq> es: iterator "ei_HasMore has_more" "ei_NextSeq nxt"
  "\<lambda>it rows. \<exists>rs. rep (ei_iterator it) rs \<and> rows = map (\<lambda>r. (row_of r, rec_seq r)) rs"
proof unfold_locales
  fix it :: "'it engine_iterator_state" and rows
  assume "\<exists>rs. rep (ei_iterator it) rs \<and> rows = map (\<lambda>r. (row_of r, rec_seq r)) rs"
  then show "ei_HasMore has_more it \<longleftrightarrow> rows \<noteq> []" by (auto simp: ei_HasMore_def has_more_rep)
next
  fix it :: "'it engine_iterator_state" and row rows
  assume "\<exists>rs. rep (ei_iterator it) rs \<and> row # rows = map (\<lambda>r. (row_of r, rec_seq r)) rs"
  then obtain r rs where "rep (ei_iterator it) (r # rs)" "row = (row_of r, rec_seq r)"
    "rows = map (\<lambda>r. (row_of r, rec_seq r)) rs" by auto
  with nxt_rep [of "ei_iterator it" r rs]
  show "\<exists>it'. ei_NextSeq nxt it = Inr (row, it') \<and> (\<exists>rs. rep (ei_iterator it') rs \<and> rows = map (\<lambda>r. (row_of r, rec_seq r)) rs)"
    by (auto simp: ei_NextSeq_def ei_Next_def row_of_def)
qed

context engine_iterator
begin

lemma rows_loop:
  "rep it rs \<Longrightarrow> iter_loop (ei_HasMore has_more) (ei_Next nxt) body (LsmEngineIterator it) s = Some (list_loop body (map row_of rs) s)"
  by (rule ei.iter_loop_rep) (auto simp: LsmEngineIterator_def)

lemma seq_rows_loop:
  "rep it rs \<Longrightarrow> iter_loop (ei_HasMore has_more) (ei_NextSeq nxt) body (LsmEngineIterator it) s =
     Some (list_loop body (map (\<lambda>r. (row_of r, rec_seq r)) rs) s)"
  by (rule es.iter_loop_rep) (auto simp: LsmEngineIterator_def)

end

interpretation eki: engine_iterator ki_HasMore "ki_Next crc l" "ki_rep crc l" for crc l ..

interpretation eri: engine_iterator ri_HasMore "ri_Next crc" "ri_rep crc" for crc ..

interpretation emg: engine_iterator mg_HasMore "mg_Next crc" "mg_rep crc" for crc ..

subsection \<open>LsmEngine\<close>

record lsm_engine =
  le_id :: string
  le_lsm :: lsm
  le_wal_writer :: bool

definition LsmEngine :: "string \<Rightarrow> string \<Rightarrow> lsm_options \<Rightarrow> lsm_engine" where
  "LsmEngine base_dir sid opts = \<lparr>le_id = sid, le_lsm = Lsm base_dir opts, le_wal_writer = False\<rparr>"

definition le_Init :: "disk \<Rightarrow> lsm_engine \<Rightarrow> lsm_engine result" where
  "le_Init d e = bindE (lsm_Init d (le_lsm e)) (\<lambda>l. Inr (e\<lparr>le_lsm := l\<rparr>))"

definition le_StartLogInto :: "lsm_engine \<Rightarrow> lsm_engine" where
  "le_StartLogInto e = e\<lparr>le_wal_writer := True\<rparr>"

definition le_RecoverFromLog :: "lsm_engine \<Rightarrow> int \<Rightarrow> string \<Rightarrow> string \<Rightarrow> lsm_engine" where
  "le_RecoverFromLog e seq key val = (let (is_restored, l) = lsm_PutSeq (le_lsm e) seq key val in e\<lparr>le_lsm := l\<rparr>)"

definition le_Upsert :: "lsm_engine \<Rightarrow> wal_env \<Rightarrow> row \<Rightarrow> lsm_engine \<times> wal_env" where
  "le_Upsert e env row =
     (let (seq, l) = lsm_Put (le_lsm e) (row_key row) (row_value row)
      in (e\<lparr>le_lsm := l\<rparr>,
          wal_log (le_wal_writer e) env (LsmStorageUpsertEvent (le_id e) seq (row_key row) (row_value row))))"

definition le_IsPersistent :: "lsm_engine \<Rightarrow> int \<Rightarrow> bool" where
  "le_IsPersistent e seq \<longleftrightarrow> seq \<le> lsm_max_persistent_seq_no (le_lsm e)"

definition le_ScanKey :: "crc32 \<Rightarrow> lsm_engine \<Rightarrow> string \<Rightarrow> lsm_key_iterator engine_iterator_state result" where
  "le_ScanKey crc e key = bindE (lsm_ScanKey crc (le_lsm e) key) (\<lambda>it. Inr (LsmEngineIterator it))"

definition le_ScanRange ::
    "crc32 \<Rightarrow> lsm_engine \<Rightarrow> string option \<Rightarrow> string option \<Rightarrow> lsm_range_iterator engine_iterator_state result" where
  "le_ScanRange crc e lower upper =
     bindE (lsm_ScanRange crc (le_lsm e) \<lparr>lower_bound = lower, upper_bound = upper\<rparr>) (\<lambda>it. Inr (LsmEngineIterator it))"

text \<open>
  A strategy of the table is handed the input iterator (its two operations and its state), the
  output's \<open>Write\<close> and the builder behind it.
\<close>

type_synonym row_compaction =
  "(merge_iterator engine_iterator_state \<Rightarrow> bool) \<Rightarrow>
   (merge_iterator engine_iterator_state \<Rightarrow> ((row \<times> int) \<times> merge_iterator engine_iterator_state) result) \<Rightarrow>
   (ss_table_builder \<Rightarrow> row \<times> int \<Rightarrow> ss_table_builder result) \<Rightarrow>
   merge_iterator engine_iterator_state \<Rightarrow> ss_table_builder \<Rightarrow> ss_table_builder result option"

definition LsmEngineCompactStrategy :: "crc32 \<Rightarrow> row_compaction \<Rightarrow> compaction_strategy" where
  "LsmEngineCompactStrategy crc CompactRows records b =
     CompactRows (ei_HasMore mg_HasMore) (ei_NextSeq (mg_Next crc)) (lo_Write crc) (LsmEngineIterator records) b"

definition le_Compact :: "crc32 \<Rightarrow> lsm_engine \<Rightarrow> disk \<Rightarrow> row_compaction \<Rightarrow> (lsm_engine \<times> disk) result option" where
  "le_Compact crc e d strategy =
     map_option (map_sum id (\<lambda>(l, d). (e\<lparr>le_lsm := l\<rparr>, d)))
       (lsm_Compact crc (le_lsm e) d (LsmEngineCompactStrategy crc strategy))"

definition le_Flush :: "crc32 \<Rightarrow> lsm_engine \<Rightarrow> disk \<Rightarrow> (lsm_engine \<times> disk) result" where
  "le_Flush crc e d = bindE (lsm_Flush crc (le_lsm e) d) (\<lambda>(l, d). Inr (e\<lparr>le_lsm := l\<rparr>, d))"

definition le_CountSSTables :: "lsm_engine \<Rightarrow> nat" where
  "le_CountSSTables e = lsm_CountSSTables (le_lsm e)"

subsection \<open>What an engine stands for\<close>

text \<open>An engine is a log of versions, newest first, numbered by its tree.\<close>

definition le_rep :: "crc32 \<Rightarrow> lsm_engine \<Rightarrow> int \<times> lsm_record list \<Rightarrow> bool" where
  "le_rep crc e s = log_rep crc (le_lsm e) s"

definition row_fits :: "lsm_engine \<Rightarrow> row \<Rightarrow> bool" where
  "row_fits e row = op_fits (lsm_options (le_lsm e)) (OpPut (row_key row) (row_value row))"

lemma le_rep_Upsert:
  assumes "le_rep crc e (n, log)" "n < kMaxSequence" "row_fits e row" "le_Upsert e env row = (e', env')"
  shows "le_rep crc e' (n + 1, Record (row_key row) n (row_value row) # log)"
    and "env' = wal_log (le_wal_writer e) env (LsmStorageUpsertEvent (le_id e) n (row_key row) (row_value row))"
    and "le_id e' = le_id e" "le_wal_writer e' = le_wal_writer e" "row_fits e' = row_fits e"
proof -
  obtain seq l where put: "lsm_Put (le_lsm e) (row_key row) (row_value row) = (seq, l)"
    by (cases "lsm_Put (le_lsm e) (row_key row) (row_value row)")
  note log_rep_Put [OF assms(1) [unfolded le_rep_def] assms(2) assms(3) [unfolded row_fits_def] put]
  with assms(4) put show "le_rep crc e' (n + 1, Record (row_key row) n (row_value row) # log)"
    "env' = wal_log (le_wal_writer e) env (LsmStorageUpsertEvent (le_id e) n (row_key row) (row_value row))"
    "le_id e' = le_id e" "le_wal_writer e' = le_wal_writer e" "row_fits e' = row_fits e"
    by (auto simp: le_Upsert_def le_rep_def row_fits_def fun_eq_iff)
qed

lemma le_ScanKey_rep:
  assumes "le_rep crc e (n, log)"
  shows "\<exists>it. le_ScanKey crc e key = Inr (LsmEngineIterator it) \<and> ki_rep crc (le_lsm e) it (filter (\<lambda>r. rec_key r = key) log)"
  using log_rep_reads(2) [OF assms [unfolded le_rep_def], of key] by (auto simp: le_ScanKey_def)

lemma le_ScanRange_rep:
  assumes "le_rep crc e (n, log)"
  shows "\<exists>it. le_ScanRange crc e lower upper = Inr (LsmEngineIterator it) \<and>
    ri_rep crc it (sort (filter (in_range \<lparr>lower_bound = lower, upper_bound = upper\<rparr>) log))"
  using log_rep_reads(3) [OF assms [unfolded le_rep_def], of "\<lparr>lower_bound = lower, upper_bound = upper\<rparr>"]
  by (auto simp: le_ScanRange_def)

lemma le_rep_Flush:
  assumes "le_rep crc e s"
  shows "\<exists>e' d'. le_Flush crc e d = Inr (e', d') \<and> le_rep crc e' s"
  using log_rep_Flush [OF assms [unfolded le_rep_def], of d] by (auto simp: le_Flush_def le_rep_def)

text \<open>
  Replaying an upsert: a record is added exactly if its number is the next one, and a record
  that is there already is skipped.
\<close>

lemma le_rep_RecoverFromLog:
  assumes "le_rep crc e (n, log)" "n < kMaxSequence" "row_fits e \<lparr>row_key = key, row_value = val\<rparr>"
  shows "le_rep crc (le_RecoverFromLog e seq key val) (if seq = n then (n + 1, Record key n val # log) else (n, log))"
proof -
  have "lsm_next_seq_no (le_lsm e) = n" using assms(1) by (auto simp: le_rep_def log_rep_def)
  moreover obtain l where put: "lsm_Put (le_lsm e) key val = (n, l)"
    using calculation by (simp add: lsm_Put_eq)
  ultimately show ?thesis
    using assms(1) log_rep_Put [OF assms(1) [unfolded le_rep_def] assms(2) _ put] assms(3)
    by (auto simp: le_RecoverFromLog_def lsm_PutSeq_eq le_rep_def row_fits_def)
qed

end
