(* ===== verification/Transactional_Table.thy ===== *)
theory Transactional_Table
  imports Lsm_Engine
begin

section \<open>Transactional tables\<close>

text \<open>
  \<open>src/src/server/table/transactional_table.cpp\<close>: a table as a transaction sees it. Every row
  of the engine is a version, written by a transaction; reading a key finds its newest version
  that the transaction may see. A transactional table shares the engine and the transaction
  storage with all others, so its operations take both and return them.
\<close>

subsection \<open>TransactionalValue\<close>

record transactional_value =
  tv_tx :: int
  tv_is_deleted :: bool
  tv_is_frozen :: bool
  tv_value :: string

definition tv_Read :: "buffer_reader \<Rightarrow> (transactional_value \<times> buffer_reader) result" where
  "tv_Read rd =
     bindE (br_Read rd 8) (\<lambda>(tx, rd).
     bindE (br_ReadBool rd) (\<lambda>(is_deleted, rd).
     bindE (br_ReadBool rd) (\<lambda>(is_frozen, rd).
     bindE (br_ReadString rd) (\<lambda>(val, rd).
       Inr (\<lparr>tv_tx = bytes_int64 tx, tv_is_deleted = is_deleted, tv_is_frozen = is_frozen, tv_value = val\<rparr>, rd)))))"

definition tv_Write :: "buffer_writer \<Rightarrow> transactional_value \<Rightarrow> buffer_writer" where
  "tv_Write w v =
     bw_WriteString (bw_WriteBool (bw_WriteBool (bw_Write w (int64_bytes (tv_tx v))) (tv_is_deleted v)) (tv_is_frozen v)) (tv_value v)"

definition tv_ToString :: "transactional_value \<Rightarrow> string" where
  "tv_ToString v = bw_Extract (tv_Write BufferWriter v)"

definition ParseTransactionalValue :: "string \<Rightarrow> transactional_value result" where
  "ParseTransactionalValue data = bindE (tv_Read (BufferReader data)) (\<lambda>(v, rd). Inr v)"

definition tv_bytes :: "transactional_value \<Rightarrow> bytes" where
  "tv_bytes v = int64_bytes (tv_tx v) @ bool_bytes (tv_is_deleted v) @ bool_bytes (tv_is_frozen v) @ string_bytes (tv_value v)"

definition valid_tv :: "transactional_value \<Rightarrow> bool" where
  "valid_tv v \<longleftrightarrow> is_int64 (tv_tx v) \<and> is_string64 (tv_value v)"

lemma length_tv_bytes: "length (tv_bytes v) = 18 + length (tv_value v)"
  by (simp add: tv_bytes_def)

interpretation tv_codec: sdb_codec tv_Write tv_Read tv_bytes valid_tv
proof unfold_locales
  fix w v show "bw_data (tv_Write w v) = bw_data w @ tv_bytes v"
    by (simp add: tv_Write_def tv_bytes_def codec_simps)
next
  fix v :: transactional_value show "tv_bytes v \<noteq> []" using length_tv_bytes [of v] by auto
next
  fix rd v rest
  assume v: "valid_tv v" and rest: "br_rest rd = tv_bytes v @ rest"
  have a: "br_Read rd 8 = Inr (int64_bytes (tv_tx v), br_advance 8 rd)"
    using br_Read_append [of rd "int64_bytes (tv_tx v)"] rest by (simp add: tv_bytes_def) (metis length_0_conv length_int64_bytes zero_neq_numeral)
  note b = bool_codec.get_enc [of "br_advance 8 rd" "tv_is_deleted v" "bool_bytes (tv_is_frozen v) @ string_bytes (tv_value v) @ rest"]
  note c = bool_codec.get_enc [of "br_advance 9 rd" "tv_is_frozen v" "string_bytes (tv_value v) @ rest"]
  note d = string_codec.get_enc [of "tv_value v" "br_advance 10 rd" rest]
  show "tv_Read rd = Inr (v, br_advance (length (tv_bytes v)) rd)"
    using v rest a b c d by (simp add: tv_Read_def tv_bytes_def valid_tv_def)
qed

lemma tv_ToString_bytes: "tv_ToString v = tv_bytes v"
  by (simp add: tv_ToString_def tv_codec.extract_put)

lemma Parse_bytes: "valid_tv v \<Longrightarrow> ParseTransactionalValue (tv_bytes v) = Inr v"
  by (simp add: ParseTransactionalValue_def tv_codec.get_enc [where rest = "[]"])

subsection \<open>Operations\<close>

definition tt_sees :: "tx_storage \<Rightarrow> int \<Rightarrow> transactional_value \<Rightarrow> bool" where
  "tt_sees ts tx v \<longleftrightarrow> tv_is_frozen v \<or> tv_tx v = tx \<or> ts_IsCommited ts (tv_tx v)"

definition lookup_body :: "tx_storage \<Rightarrow> int \<Rightarrow> string option \<Rightarrow> row \<Rightarrow> string option step result" where
  "lookup_body ts tx result record =
     bindE (ParseTransactionalValue (row_value record)) (\<lambda>candidate.
       if tv_is_frozen candidate \<or> tv_tx candidate = tx \<or> ts_IsCommited ts (tv_tx candidate)
       then if tv_is_deleted candidate then Inr (Break None) else Inr (Break (Some (tv_value candidate)))
       else Inr (Continue result))"

definition tt_Lookup :: "crc32 \<Rightarrow> lsm_engine \<Rightarrow> tx_storage \<Rightarrow> int \<Rightarrow> string \<Rightarrow> string option result option" where
  "tt_Lookup crc e ts tx key =
     (case le_ScanKey crc e key of
        Inl err \<Rightarrow> Some (Inl err)
      | Inr it \<Rightarrow> iter_loop (ei_HasMore ki_HasMore) (ei_Next (ki_Next crc (le_lsm e))) (lookup_body ts tx) it None)"

text \<open>\<open>None\<close>: the row is locked and the coroutine waits.\<close>

definition tt_Upsert ::
    "tx_storage \<Rightarrow> lsm_engine \<Rightarrow> wal_env \<Rightarrow> int \<Rightarrow> string \<Rightarrow> string \<Rightarrow> (tx_storage \<times> lsm_engine \<times> wal_env) option" where
  "tt_Upsert ts e env tx key val =
     (case ts_AcquireRowLock ts tx key of
        None \<Rightarrow> None
      | Some ts \<Rightarrow>
          let v = tv_ToString \<lparr>tv_tx = tx, tv_is_deleted = False, tv_is_frozen = False, tv_value = val\<rparr>;
              (e, env) = le_Upsert e env \<lparr>row_key = key, row_value = v\<rparr>
          in Some (ts, e, env))"

definition tt_Delete ::
    "crc32 \<Rightarrow> tx_storage \<Rightarrow> lsm_engine \<Rightarrow> wal_env \<Rightarrow> int \<Rightarrow> string \<Rightarrow> (bool \<times> tx_storage \<times> lsm_engine \<times> wal_env) result option" where
  "tt_Delete crc ts e env tx key =
     (case tt_Lookup crc e ts tx key of
        None \<Rightarrow> None
      | Some (Inl err) \<Rightarrow> Some (Inl err)
      | Some (Inr None) \<Rightarrow> Some (Inr (False, ts, e, env))
      | Some (Inr (Some _)) \<Rightarrow>
          (case ts_AcquireRowLock ts tx key of
             None \<Rightarrow> None
           | Some ts \<Rightarrow>
               let v = tv_ToString \<lparr>tv_tx = tx, tv_is_deleted = True, tv_is_frozen = False, tv_value = []\<rparr>;
                   (e, env) = le_Upsert e env \<lparr>row_key = key, row_value = v\<rparr>
               in Some (Inr (True, ts, e, env))))"

record transactional_table_iterator =
  tti_rows :: "row list"
  tti_idx :: nat

definition tti_HasMore :: "transactional_table_iterator \<Rightarrow> bool" where
  "tti_HasMore it \<longleftrightarrow> tti_idx it < length (tti_rows it)"

definition tti_Next :: "transactional_table_iterator \<Rightarrow> (row \<times> transactional_table_iterator) result" where
  "tti_Next it =
     (if tti_idx it < length (tti_rows it)
      then Inr (tti_rows it ! tti_idx it, it\<lparr>tti_idx := tti_idx it + 1\<rparr>)
      else Inl OutOfBounds)"

definition scan_body :: "tx_storage \<Rightarrow> int \<Rightarrow> row list \<Rightarrow> row \<Rightarrow> row list step result" where
  "scan_body ts tx result record =
     bindE (ParseTransactionalValue (row_value record)) (\<lambda>candidate.
       if tv_tx candidate = tx \<or> ts_IsCommited ts (tv_tx candidate)
       then if tv_is_deleted candidate then Inr (Continue result)
            else if result \<noteq> [] \<and> row_key (last result) = row_key record then Inr (Continue result)
            else Inr (Continue (result @ [\<lparr>row_key = row_key record, row_value = tv_value candidate\<rparr>]))
       else Inr (Continue result))"

definition tt_Scan ::
    "crc32 \<Rightarrow> lsm_engine \<Rightarrow> tx_storage \<Rightarrow> int \<Rightarrow> string option \<Rightarrow> string option \<Rightarrow> transactional_table_iterator result option" where
  "tt_Scan crc e ts tx lower upper =
     (case le_ScanRange crc e lower upper of
        Inl err \<Rightarrow> Some (Inl err)
      | Inr it \<Rightarrow>
          map_option (map_sum id (\<lambda>rows. \<lparr>tti_rows = rows, tti_idx = 0\<rparr>))
            (iter_loop (ei_HasMore ri_HasMore) (ei_Next (ri_Next crc)) (scan_body ts tx) it []))"

text \<open>
  \<open>CompactStrategy::CompactRows\<close>. The loop carries \<open>last_added\<close> and the output;
  \<open>last_status\<close> is never read.
\<close>

definition compact_body ::
    "tx_storage \<Rightarrow> ('o \<Rightarrow> row \<times> int \<Rightarrow> 'o result) \<Rightarrow> row option \<times> 'o \<Rightarrow> row \<times> int \<Rightarrow> (row option \<times> 'o) step result" where
  "compact_body ts output_Write st input =
     (let (last_added, output) = st; (row, seq) = input
      in bindE (ParseTransactionalValue (row_value row)) (\<lambda>v.
           if tv_is_deleted v then Inr (Continue (last_added, output))
           else let status = ts_GetStatus ts (tv_tx v)
           in if status \<noteq> Some kCommited \<and> status \<noteq> Some kStarted then Inr (Continue (last_added, output))
           else let row = (if status = Some kCommited \<and> \<not> tv_is_frozen v
                           then row\<lparr>row_value := tv_ToString (v\<lparr>tv_is_frozen := True\<rparr>)\<rparr> else row)
           in if last_added = None \<or> row_key (the last_added) \<noteq> row_key row
              then bindE (output_Write output (row, seq)) (\<lambda>output. Inr (Continue (Some row, output)))
              else Inr (Continue (last_added, output))))"

definition CompactRows :: "tx_storage \<Rightarrow> row_compaction" where
  "CompactRows ts input_HasMore input_Next output_Write input output =
     map_option (map_sum id snd)
       (iter_loop input_HasMore input_Next (compact_body ts output_Write) input (None, output))"

definition tt_Compact :: "crc32 \<Rightarrow> lsm_engine \<Rightarrow> tx_storage \<Rightarrow> disk \<Rightarrow> (lsm_engine \<times> disk) result option" where
  "tt_Compact crc e ts d = le_Compact crc e d (CompactRows ts)"

subsection \<open>Versions\<close>

text \<open>The versions of a table, newest first: what its engine's records stand for.\<close>

definition is_version :: "lsm_record \<Rightarrow> bool" where
  "is_version r \<longleftrightarrow> (\<exists>v. valid_tv v \<and> rec_value r = tv_bytes v)"

definition version :: "lsm_record \<Rightarrow> transactional_value" where
  "version r = projr (ParseTransactionalValue (rec_value r))"

lemma is_version_parse: "is_version r \<Longrightarrow> ParseTransactionalValue (rec_value r) = Inr (version r)"
  by (auto simp: is_version_def version_def Parse_bytes)

lemma is_version_bytes: "is_version r \<Longrightarrow> rec_value r = tv_bytes (version r) \<and> valid_tv (version r)"
  by (auto simp: is_version_def version_def Parse_bytes)

lemma version_Record [simp]: "valid_tv v \<Longrightarrow> version (Record key seq (tv_bytes v)) = v \<and> is_version (Record key seq (tv_bytes v))"
  by (auto simp: version_def is_version_def Parse_bytes)

type_synonym versions = "(string \<times> transactional_value) list"

definition versions_of :: "lsm_record list \<Rightarrow> versions" where
  "versions_of log = map (\<lambda>r. (rec_key r, version r)) log"

fun vs_lookup :: "tx_storage \<Rightarrow> int \<Rightarrow> versions \<Rightarrow> string \<Rightarrow> string option" where
  "vs_lookup ts tx [] key = None"
| "vs_lookup ts tx ((k, v) # vs) key =
     (if k = key \<and> tt_sees ts tx v then if tv_is_deleted v then None else Some (tv_value v)
      else vs_lookup ts tx vs key)"

definition scan_sees :: "tx_storage \<Rightarrow> int \<Rightarrow> transactional_value \<Rightarrow> bool" where
  "scan_sees ts tx v \<longleftrightarrow> (tv_tx v = tx \<or> ts_IsCommited ts (tv_tx v)) \<and> \<not> tv_is_deleted v"

fun first_per_key :: "string option \<Rightarrow> versions \<Rightarrow> row list" where
  "first_per_key prev [] = []"
| "first_per_key prev ((k, v) # vs) =
     (if prev = Some k then first_per_key prev vs
      else \<lparr>row_key = k, row_value = tv_value v\<rparr> # first_per_key (Some k) vs)"

definition key_between :: "string option \<Rightarrow> string option \<Rightarrow> string \<Rightarrow> bool" where
  "key_between lower upper k \<longleftrightarrow>
     (case lower of None \<Rightarrow> True | Some lo \<Rightarrow> lo \<le> k) \<and> (case upper of None \<Rightarrow> True | Some up \<Rightarrow> k \<le> up)"

definition vs_scan :: "tx_storage \<Rightarrow> int \<Rightarrow> versions \<Rightarrow> string option \<Rightarrow> string option \<Rightarrow> row list" where
  "vs_scan ts tx vs lower upper =
     first_per_key None (filter (\<lambda>(k, v). scan_sees ts tx v)
       (sort_key fst (filter (\<lambda>(k, v). key_between lower upper k) vs)))"

definition tt_rep :: "crc32 \<Rightarrow> lsm_engine \<Rightarrow> int \<times> versions \<Rightarrow> bool" where
  "tt_rep crc e s \<longleftrightarrow> (\<exists>log. le_rep crc e (fst s, log) \<and> list_all is_version log \<and> snd s = versions_of log)"

subsection \<open>Lookup\<close>

lemma lookup_loop:
  "list_all is_version log \<Longrightarrow>
   list_loop (lookup_body ts tx) (map row_of (filter (\<lambda>r. rec_key r = key) log)) None = Inr (vs_lookup ts tx (versions_of log) key)"
  by (induction log) (auto simp: lookup_body_def row_of_def is_version_parse versions_of_def tt_sees_def)

lemma tt_Lookup_rep:
  assumes "tt_rep crc e (n, vs)"
  shows "tt_Lookup crc e ts tx key = Some (Inr (vs_lookup ts tx vs key))"
proof -
  from assms obtain log where log: "le_rep crc e (n, log)" "list_all is_version log" "vs = versions_of log"
    by (auto simp: tt_rep_def)
  with le_ScanKey_rep [OF log(1), of key] lookup_loop [OF log(2), of ts tx key] show ?thesis
    by (auto simp: tt_Lookup_def eki.rows_loop)
qed

subsection \<open>Scan\<close>

lemma scan_loop:
  assumes "list_all is_version rs"
  shows "list_loop (scan_body ts tx) (map row_of rs) acc =
    Inr (acc @ first_per_key (if acc = [] then None else Some (row_key (last acc)))
      (filter (\<lambda>(k, v). scan_sees ts tx v) (versions_of rs)))"
  using assms
proof (induction rs arbitrary: acc)
  case (Cons r rs)
  then have "ParseTransactionalValue (rec_value r) = Inr (version r)" by (simp add: is_version_parse)
  with Cons show ?case by (auto simp: scan_body_def row_of_def versions_of_def scan_sees_def)
qed (simp add: versions_of_def)

lemma sort_log:
  assumes "sorted_wrt (\<lambda>x y. rec_seq y < rec_seq x) log"
  shows "sort log = sort_key rec_key log"
proof (rule properties_for_sort)
  have "sorted_wrt (\<lambda>x y. rec_key x < rec_key y \<or> rec_key x = rec_key y \<and> rec_seq y < rec_seq x) (sort_key rec_key log)"
    using assms
  proof (induction log)
    case (Cons r log)
    let ?P = "\<lambda>x y. rec_key x < rec_key y \<or> rec_key x = rec_key y \<and> rec_seq y < rec_seq x"
    have "sorted_wrt ?P (insort_key rec_key r xs)"
      if "sorted_wrt ?P xs" "\<forall>x \<in> set xs. rec_seq x < rec_seq r" for xs
      using that by (induction xs) (auto simp: set_insort_key)
    with Cons show ?case by simp
  qed simp
  then show "sorted (sort_key rec_key log)"
    by (rule sorted_wrt_mono_rel [rotated]) (auto simp: record_less_eq_iff)
qed simp

lemma filter_sort_versions:
  "map (\<lambda>r. (rec_key r, version r)) (sort_key rec_key log) = sort_key fst (versions_of log)"
proof -
  have "map f (insort_key rec_key r xs) = insort_key fst (f r) (map f xs)"
    if "\<And>r. fst (f r) = rec_key r" for f :: "lsm_record \<Rightarrow> string \<times> transactional_value" and r xs
    by (induction xs) (simp_all add: that)
  then have "map f (sort_key rec_key log) = sort_key fst (map f log)"
    if "\<And>r. fst (f r) = rec_key r" for f :: "lsm_record \<Rightarrow> string \<times> transactional_value"
    using that by (induction log) simp_all
  then show ?thesis by (simp add: versions_of_def)
qed

lemma in_range_between: "in_range \<lparr>lower_bound = lower, upper_bound = upper\<rparr> = (\<lambda>r. key_between lower upper (rec_key r))"
  by (auto simp: fun_eq_iff in_range_def above_lower_def below_upper_def key_between_def split: option.splits)

lemma tt_Scan_rep:
  assumes "tt_rep crc e (n, vs)"
  shows "tt_Scan crc e ts tx lower upper = Some (Inr \<lparr>tti_rows = vs_scan ts tx vs lower upper, tti_idx = 0\<rparr>)"
proof -
  from assms obtain log where log: "le_rep crc e (n, log)" "list_all is_version log" and vs: "vs = versions_of log"
    by (auto simp: tt_rep_def)
  let ?f = "filter (in_range \<lparr>lower_bound = lower, upper_bound = upper\<rparr>) log"
  have "sorted_wrt (\<lambda>x y. rec_seq y < rec_seq x) ?f"
    using log(1) by (auto simp: le_rep_def log_rep_def intro: sorted_wrt_filter)
  then have sort: "sort ?f = sort_key rec_key ?f" by (rule sort_log)
  have filt: "versions_of ?f = filter (\<lambda>(k, v). key_between lower upper k) vs"
    by (simp add: vs versions_of_def filter_map in_range_between o_def)
  have ok: "list_all is_version (sort ?f)" using log(2) by (simp add: list_all_iff)
  have "versions_of (sort ?f) = sort_key fst (filter (\<lambda>(k, v). key_between lower upper k) vs)"
    unfolding sort filt [symmetric] by (subst versions_of_def) (rule filter_sort_versions)
  with le_ScanRange_rep [OF log(1), of lower upper] scan_loop [OF ok, of ts tx "[]"] show ?thesis
    by (auto simp: tt_Scan_def vs_scan_def eri.rows_loop)
qed

interpretation tti: iterator tti_HasMore tti_Next "\<lambda>it rows. rows = drop (tti_idx it) (tti_rows it)"
proof unfold_locales
  fix it :: transactional_table_iterator and row rows
  assume "row # rows = drop (tti_idx it) (tti_rows it)"
  moreover from this have "tti_idx it < length (tti_rows it)"
    by (metis drop_all linorder_not_le list.distinct(1))
  ultimately show "\<exists>it'. tti_Next it = Inr (row, it') \<and> rows = drop (tti_idx it') (tti_rows it')"
    by (simp add: tti_Next_def flip: Cons_nth_drop_Suc)
qed (simp add: tti_HasMore_def not_le)

end
