(* ===== verification/Table_Sessions.thy ===== *)
theory Table_Sessions
  imports Transactional_Table
begin

section \<open>A table under concurrent transactions\<close>

text \<open>
  Every interleaving of the operations of any number of transactions on a table, against its
  specification: a list of versions and the status of the transactions. What a transaction
  reads is then a fact about the list.
\<close>

datatype tt_op =
    TtBegin
  | TtUpsert int string string
  | TtDelete int string
  | TtLookup int string
  | TtScan int "string option" "string option"
  | TtCommit int
  | TtRollback int
  | TtFlush

datatype tt_output =
    TtTx int
  | TtDone
  | TtDeleted bool
  | TtValue "string option"
  | TtRows "row list"
  | TtWaits

type_synonym tt_world = "tx_storage \<times> lsm_engine \<times> wal_env"

text \<open>An operation that has to wait for a row leaves the state as it is.\<close>

fun tt_step :: "crc32 \<Rightarrow> tt_world \<Rightarrow> tt_op \<Rightarrow> (tt_world \<times> tt_output) result option" where
  "tt_step crc (ts, e, env) TtBegin = (let (tx, ts) = ts_Begin ts in Some (Inr ((ts, e, env), TtTx tx)))"
| "tt_step crc (ts, e, env) (TtUpsert tx key val) =
     Some (Inr (case tt_Upsert ts e env tx key val of None \<Rightarrow> ((ts, e, env), TtWaits) | Some w \<Rightarrow> (w, TtDone)))"
| "tt_step crc (ts, e, env) (TtDelete tx key) =
     (case tt_Delete crc ts e env tx key of
        None \<Rightarrow> Some (Inr ((ts, e, env), TtWaits))
      | Some r \<Rightarrow> Some (map_sum id (\<lambda>(b, w). (w, TtDeleted b)) r))"
| "tt_step crc (ts, e, env) (TtLookup tx key) =
     map_option (map_sum id (\<lambda>v. ((ts, e, env), TtValue v))) (tt_Lookup crc e ts tx key)"
| "tt_step crc (ts, e, env) (TtScan tx lower upper) =
     (case tt_Scan crc e ts tx lower upper of
        None \<Rightarrow> None
      | Some (Inl err) \<Rightarrow> Some (Inl err)
      | Some (Inr it) \<Rightarrow> map_option (map_sum id (\<lambda>rows. ((ts, e, env), TtRows rows))) (iter_loop tti_HasMore tti_Next collect it []))"
| "tt_step crc (ts, e, env) (TtCommit tx) = (let (ts, env) = ts_Commit ts tx env in Some (Inr ((ts, e, env), TtDone)))"
| "tt_step crc (ts, e, env) (TtRollback tx) = Some (Inr ((ts_Rollback ts tx, e, env), TtDone))"
| "tt_step crc (ts, e, env) TtFlush =
     Some (bindE (le_Flush crc e (fst env)) (\<lambda>(e, d). Inr ((ts, e, (d, snd env)), TtDone)))"

fun tt_run :: "crc32 \<Rightarrow> tt_world \<Rightarrow> tt_op list \<Rightarrow> tt_output list result option" where
  "tt_run crc w [] = Some (Inr [])"
| "tt_run crc w (op # ops) =
     (case tt_step crc w op of
        None \<Rightarrow> None
      | Some (Inl err) \<Rightarrow> Some (Inl err)
      | Some (Inr (w', out)) \<Rightarrow> map_option (map_sum id (\<lambda>outs. out # outs)) (tt_run crc w' ops))"

subsection \<open>The specification\<close>

definition new_version :: "int \<Rightarrow> string option \<Rightarrow> transactional_value" where
  "new_version tx val =
     \<lparr>tv_tx = tx, tv_is_deleted = (val = None), tv_is_frozen = False, tv_value = (case val of None \<Rightarrow> [] | Some v \<Rightarrow> v)\<rparr>"

definition ts_end :: "tx_storage \<Rightarrow> int \<Rightarrow> string \<Rightarrow> tx_storage" where
  "ts_end ts tx status = ts_ReleaseAllLocks (ts\<lparr>ts_tx_status := (ts_tx_status ts)(tx \<mapsto> status)\<rparr>) tx"

fun vs_step :: "tx_storage \<times> versions \<Rightarrow> tt_op \<Rightarrow> (tx_storage \<times> versions) \<times> tt_output" where
  "vs_step (ts, vs) TtBegin = ((snd (ts_Begin ts), vs), TtTx (fst (ts_Begin ts)))"
| "vs_step (ts, vs) (TtUpsert tx key val) =
     (case ts_AcquireRowLock ts tx key of
        None \<Rightarrow> ((ts, vs), TtWaits)
      | Some ts' \<Rightarrow> ((ts', (key, new_version tx (Some val)) # vs), TtDone))"
| "vs_step (ts, vs) (TtDelete tx key) =
     (if vs_lookup ts tx vs key = None then ((ts, vs), TtDeleted False)
      else case ts_AcquireRowLock ts tx key of
             None \<Rightarrow> ((ts, vs), TtWaits)
           | Some ts' \<Rightarrow> ((ts', (key, new_version tx None) # vs), TtDeleted True))"
| "vs_step (ts, vs) (TtLookup tx key) = ((ts, vs), TtValue (vs_lookup ts tx vs key))"
| "vs_step (ts, vs) (TtScan tx lower upper) = ((ts, vs), TtRows (vs_scan ts tx vs lower upper))"
| "vs_step (ts, vs) (TtCommit tx) = ((ts_end ts tx kCommited, vs), TtDone)"
| "vs_step (ts, vs) (TtRollback tx) = ((ts_end ts tx kRollbacked, vs), TtDone)"
| "vs_step (ts, vs) TtFlush = ((ts, vs), TtDone)"

fun vs_exec :: "tx_storage \<times> versions \<Rightarrow> tt_op list \<Rightarrow> tx_storage \<times> versions" where
  "vs_exec s [] = s"
| "vs_exec s (op # ops) = vs_exec (fst (vs_step s op)) ops"

fun vs_run :: "tx_storage \<times> versions \<Rightarrow> tt_op list \<Rightarrow> tt_output list" where
  "vs_run s [] = []"
| "vs_run s (op # ops) = snd (vs_step s op) # vs_run (fst (vs_step s op)) ops"

text \<open>A version with its key has to fit into a page; ids are 64-bit.\<close>

fun tt_op_fits :: "lsm_options \<Rightarrow> tt_op \<Rightarrow> bool" where
  "tt_op_fits opts (TtUpsert tx key val) \<longleftrightarrow> is_int64 tx \<and> is_string64 val \<and> 58 + length key + length val \<le> nat (page_size opts)"
| "tt_op_fits opts (TtDelete tx key) \<longleftrightarrow> is_int64 tx \<and> 58 + length key \<le> nat (page_size opts)"
| "tt_op_fits opts _ \<longleftrightarrow> True"

definition le_options :: "lsm_engine \<Rightarrow> lsm_options" where
  "le_options e = lsm_options (le_lsm e)"

lemma tt_rep_Upsert:
  assumes rep: "tt_rep crc e (n, vs)" and n: "n < kMaxSequence" and v: "valid_tv v"
    and fits: "58 + length key + length (tv_value v) \<le> nat (page_size (le_options e))"
    and up: "le_Upsert e env \<lparr>row_key = key, row_value = tv_bytes v\<rparr> = (e', env')"
  shows "tt_rep crc e' (n + 1, (key, v) # vs) \<and> le_options e' = le_options e"
proof -
  from rep obtain log where log: "le_rep crc e (n, log)" "list_all is_version log" "vs = versions_of log"
    by (auto simp: tt_rep_def)
  have "row_fits e \<lparr>row_key = key, row_value = tv_bytes v\<rparr>"
    using fits by (simp add: row_fits_def length_tv_bytes le_options_def)
  from le_rep_Upsert(1) [OF log(1) n this up] log v
  have "tt_rep crc e' (n + 1, (key, v) # vs)"
    by (auto simp: tt_rep_def versions_of_def intro!: exI [of _ "Record key n (tv_bytes v) # log"])
  moreover have "le_options e' = le_options e"
    using up by (auto simp: le_Upsert_def le_options_def lsm_Put_eq)
  ultimately show ?thesis by blast
qed

lemma tt_rep_Flush:
  assumes "tt_rep crc e s"
  shows "\<exists>e' d'. le_Flush crc e d = Inr (e', d') \<and> tt_rep crc e' s \<and> le_options e' = le_options e"
  using assms log_rep_Flush [of crc "le_lsm e" _ d] unfolding tt_rep_def le_rep_def le_options_def le_Flush_def
  by fastforce

lemma tt_step_refines:
  assumes rep: "tt_rep crc e (n, vs)" and n: "n < kMaxSequence" and fits: "tt_op_fits (le_options e) op"
  shows "\<exists>e' env' n'. tt_step crc (ts, e, env) op =
      Some (Inr ((fst (fst (vs_step (ts, vs) op)), e', env'), snd (vs_step (ts, vs) op))) \<and>
    tt_rep crc e' (n', snd (fst (vs_step (ts, vs) op))) \<and> n' \<le> n + 1 \<and> le_options e' = le_options e"
proof (cases op)
  case (TtUpsert tx key val)
  let ?v = "new_version tx (Some val)"
  obtain e' env' where up: "le_Upsert e env \<lparr>row_key = key, row_value = tv_bytes ?v\<rparr> = (e', env')" by (rule prod.exhaust)
  have "valid_tv ?v" using fits by (simp add: TtUpsert valid_tv_def new_version_def)
  from tt_rep_Upsert [OF rep n this _ up] fits rep up show ?thesis
    by (auto simp: TtUpsert tt_Upsert_def tv_ToString_bytes new_version_def Let_def split: option.split)
next
  case (TtDelete tx key)
  let ?v = "new_version tx None"
  obtain e' env' where up: "le_Upsert e env \<lparr>row_key = key, row_value = tv_bytes ?v\<rparr> = (e', env')" by (rule prod.exhaust)
  have "valid_tv ?v" using fits by (simp add: TtDelete valid_tv_def new_version_def)
  from tt_rep_Upsert [OF rep n this _ up] fits rep up show ?thesis
    by (auto simp: TtDelete tt_Delete_def tt_Lookup_rep [OF rep] tv_ToString_bytes new_version_def Let_def split: option.split)
next
  case (TtScan tx lower upper)
  with rep show ?thesis
    by (auto simp: tt_Scan_rep [OF rep] tti.iter_collect intro!: exI [of _ n])
next
  case TtFlush
  with tt_rep_Flush [OF rep, of "fst env"] show ?thesis by (auto intro!: exI [of _ n])
qed (use rep in \<open>auto simp: tt_Lookup_rep [OF rep] Let_def split_beta ts_Commit_def ts_Rollback_def ts_end_def intro!: exI [of _ n]\<close>)

lemma tt_run_refines:
  assumes "tt_rep crc e (n, vs)" "n + int (length ops) \<le> kMaxSequence" "list_all (tt_op_fits (le_options e)) ops"
  shows "tt_run crc (ts, e, env) ops = Some (Inr (vs_run (ts, vs) ops))"
  using assms
proof (induction ops arbitrary: ts e env n vs)
  case (Cons op ops)
  from Cons.prems obtain e' env' n' where st: "tt_step crc (ts, e, env) op =
      Some (Inr ((fst (fst (vs_step (ts, vs) op)), e', env'), snd (vs_step (ts, vs) op)))"
    "tt_rep crc e' (n', snd (fst (vs_step (ts, vs) op)))" "n' \<le> n + 1" "le_options e' = le_options e"
    using tt_step_refines [of crc e n vs op ts env] by auto
  with Cons.IH [OF st(2), of "fst (fst (vs_step (ts, vs) op))" env'] Cons.prems show ?case by simp
qed simp

lemma tt_rep_Init:
  assumes "good_options opts" "io_ListDirectory d base_dir = []"
  shows "\<exists>e. le_Init d (LsmEngine base_dir sid opts) = Inr e \<and> tt_rep crc e (1, []) \<and> le_options e = opts"
proof -
  have "lsm_options (Lsm base_dir opts) = opts" by (simp add: Lsm_def)
  with assms log_rep_empty [OF assms(1), of crc base_dir] show ?thesis
    by (auto simp: le_Init_def LsmEngine_def lsm_Init_empty tt_rep_def le_rep_def le_options_def versions_of_def)
qed

text \<open>A table to run: an empty directory and pages of 64 bytes.\<close>

definition small_options :: lsm_options where
  "small_options = \<lparr>max_records_in_mem_table = 1, max_ro_mem_tables = 1, page_size = 64, page_cache_capacity = 1\<rparr>"

definition new_table :: lsm_engine where
  "new_table = projr (le_Init [] (LsmEngine ''db'' ''t'' small_options))"

lemma good_small_options: "good_options small_options"
  by (simp add: small_options_def good_options_def good_page_size_def file_fits_def)

lemma new_table_rep: "tt_rep crc new_table (1, [])" "le_options new_table = small_options"
proof -
  have "io_ListDirectory [] ''db'' = []" by (simp add: io_ListDirectory_def)
  from tt_rep_Init [OF good_small_options this, of "''t''" crc]
  show "tt_rep crc new_table (1, [])" "le_options new_table = small_options"
    by (auto simp: new_table_def)
qed

lemma new_table_run:
  assumes "list_all (tt_op_fits small_options) ops" "int (length ops) < kMaxSequence"
  shows "tt_run crc (Tx_Storage, new_table, env) ops = Some (Inr (vs_run (Tx_Storage, []) ops))"
  using assms tt_run_refines [OF new_table_rep(1), of ops crc Tx_Storage env] new_table_rep(2) by simp

text \<open>
  C6. Tables are lists of versions. On a table started in an empty directory, every
  interleaving of begins, upserts, deletes, lookups, scans, commits and rollbacks of any
  transactions, with flushes anywhere in between, ends without an error, and each operation
  returns what the list of versions returns: a lookup the newest version of the key that is
  the transaction's own or committed, a scan the keys in range in order, a write waits exactly
  if its row is locked. Encodings, the tree, its files and the log are not observable.
\<close>

theorem table_refines_versions:
  assumes "good_options opts" and "io_ListDirectory d base_dir = []"
    and "list_all (tt_op_fits opts) ops" and "int (length ops) < kMaxSequence"
  shows "\<exists>e. le_Init d (LsmEngine base_dir sid opts) = Inr e \<and>
    tt_run crc (Tx_Storage, e, env) ops = Some (Inr (vs_run (Tx_Storage, []) ops))"
proof -
  from tt_rep_Init [OF assms(1,2), of sid crc] obtain e where
    "le_Init d (LsmEngine base_dir sid opts) = Inr e" "tt_rep crc e (1, [])" "le_options e = opts" by blast
  with assms(3,4) tt_run_refines [of crc e 1 "[]" ops Tx_Storage env] show ?thesis by simp
qed

lemmas vs_run_simps =
  Tx_Storage_def kInitialTxId_def ts_Begin_def ts_AcquireRowLock_def ts_ReleaseAllLocks_def ts_end_def
  new_version_def tt_sees_def ts_IsCommited_def vs_scan_def scan_sees_def key_between_def Let_def List.insert_def

theorem table_refines_versions_witness:
  "\<exists>e. le_Init [] (LsmEngine ''db'' ''t'' small_options) = Inr e \<and>
    tt_run (\<lambda>_. 0) (Tx_Storage, e, Writer_Open [] ''wal'')
      [TtBegin, TtBegin, TtUpsert 10 ''k'' ''v'', TtUpsert 11 ''k'' ''w'', TtLookup 11 ''k'', TtCommit 10, TtLookup 11 ''k'', TtScan 11 None None] =
      Some (Inr [TtTx 10, TtTx 11, TtDone, TtWaits, TtValue None, TtDone, TtValue (Some ''v''),
        TtRows [\<lparr>row_key = ''k'', row_value = ''v''\<rparr>]])"
  using table_refines_versions [OF good_small_options, of "[]" "''db''" "[TtBegin, TtBegin, TtUpsert 10 ''k'' ''v'', TtUpsert 11 ''k'' ''w'', TtLookup 11 ''k'', TtCommit 10, TtLookup 11 ''k'', TtScan 11 None None]"
      "''t''" "\<lambda>_. 0" "Writer_Open [] ''wal''"]
  by (simp add: small_options_def io_ListDirectory_def kMaxSequence_def vs_run_simps)

subsection \<open>Isolation\<close>

lemma vs_lookup_cong:
  "(\<And>k v. (k, v) \<in> set vs \<Longrightarrow> tt_sees ts tx v = tt_sees ts' tx v) \<Longrightarrow> vs_lookup ts tx vs key = vs_lookup ts' tx vs key"
  by (induction ts tx vs key rule: vs_lookup.induct) auto

lemma status_frame:
  "ts_AcquireRowLock ts tx key = Some ts' \<Longrightarrow> ts_IsCommited ts' = ts_IsCommited ts"
  "ts_IsCommited (fst (ts_Commit ts tx env)) tx' \<longleftrightarrow> tx' = tx \<or> ts_IsCommited ts tx'"
  "ts_IsCommited (ts_Rollback ts tx) tx' \<longleftrightarrow> tx' \<noteq> tx \<and> ts_IsCommited ts tx'"
  by (auto simp: ts_AcquireRowLock_def ts_IsCommited_def fun_eq_iff ts_Commit_def ts_Rollback_def Let_def split: if_splits)

lemma tt_Upsert_rep:
  assumes rep: "tt_rep crc e (n, vs)" and n: "n < kMaxSequence" and fits: "tt_op_fits (le_options e) (TtUpsert tx key val)"
    and up: "tt_Upsert ts e env tx key val = Some (ts', e', env')"
  shows "tt_rep crc e' (n + 1, (key, new_version tx (Some val)) # vs) \<and> ts_AcquireRowLock ts tx key = Some ts'"
proof -
  let ?v = "new_version tx (Some val)"
  have v: "valid_tv ?v" and "58 + length key + length (tv_value ?v) \<le> nat (page_size (le_options e))"
    using fits by (simp_all add: valid_tv_def new_version_def)
  moreover have "le_Upsert e env \<lparr>row_key = key, row_value = tv_bytes ?v\<rparr> = (e', env')" "ts_AcquireRowLock ts tx key = Some ts'"
    using up by (auto simp: tt_Upsert_def tv_ToString_bytes new_version_def Let_def split: option.splits prod.splits)
  ultimately show ?thesis using tt_rep_Upsert [OF rep n] by blast
qed

text \<open>
  C10. Reading is read-committed. After a started transaction has written a value it reads it
  back; every lookup of every other transaction returns what it returned before the write; when
  the writer commits the others read the new value, and when it rolls back they read what they
  read before.
\<close>

theorem upsert_is_isolated:
  assumes rep: "tt_rep crc e (n, vs)" and n: "n < kMaxSequence" and fits: "tt_op_fits (le_options e) (TtUpsert tx key val)"
    and started: "ts_IsStarted ts tx" and other: "tx' \<noteq> tx"
    and up: "tt_Upsert ts e env tx key val = Some (ts2, e2, env2)"
  shows "tt_Lookup crc e2 ts2 tx key = Some (Inr (Some val)) \<and>
    tt_Lookup crc e2 ts2 tx' k = tt_Lookup crc e ts tx' k \<and>
    tt_Lookup crc e2 (fst (ts_Commit ts2 tx env2)) tx' key = Some (Inr (Some val)) \<and>
    tt_Lookup crc e2 (ts_Rollback ts2 tx) tx' k = tt_Lookup crc e ts tx' k"
proof -
  from tt_Upsert_rep [OF rep n fits up] have rep2: "tt_rep crc e2 (n + 1, (key, new_version tx (Some val)) # vs)"
    and lock: "ts_AcquireRowLock ts tx key = Some ts2" by blast+
  have nc: "\<not> ts_IsCommited ts tx" using started by (simp add: ts_IsStarted_def ts_IsCommited_def)
  have same: "vs_lookup ts2 tx' vs k = vs_lookup ts tx' vs k" "vs_lookup (ts_Rollback ts2 tx) tx' vs k = vs_lookup ts tx' vs k"
    using nc by (auto intro!: vs_lookup_cong simp: tt_sees_def status_frame status_frame(1) [OF lock])
  show ?thesis
    using other nc same
    by (simp add: tt_Lookup_rep [OF rep2] tt_Lookup_rep [OF rep] tt_sees_def new_version_def status_frame status_frame(1) [OF lock])
qed

theorem upsert_is_isolated_witness:
  "\<exists>e ts2 e2 env2. tt_Upsert (snd (ts_Begin Tx_Storage)) e (Writer_Open [] ''wal'') 10 ''k'' ''v'' = Some (ts2, e2, env2) \<and>
    tt_Lookup (\<lambda>_. 0) e2 ts2 10 ''k'' = Some (Inr (Some ''v'')) \<and>
    tt_Lookup (\<lambda>_. 0) e2 ts2 11 ''k'' = tt_Lookup (\<lambda>_. 0) e (snd (ts_Begin Tx_Storage)) 11 ''k'' \<and>
    tt_Lookup (\<lambda>_. 0) e2 (fst (ts_Commit ts2 10 env2)) 11 ''k'' = Some (Inr (Some ''v''))"
proof -
  let ?ts = "snd (ts_Begin Tx_Storage)"
  note e = new_table_rep(1) [of "\<lambda>_. 0"] new_table_rep(2)
  obtain w where "tt_Upsert ?ts new_table (Writer_Open [] ''wal'') 10 ''k'' ''v'' = Some w"
    by (simp add: tt_Upsert_def vs_run_simps split_beta)
  then obtain ts2 e2 env2 where up: "tt_Upsert ?ts new_table (Writer_Open [] ''wal'') 10 ''k'' ''v'' = Some (ts2, e2, env2)"
    by (metis prod_cases3)
  have "ts_IsStarted ?ts 10" by (simp add: vs_run_simps ts_IsStarted_def)
  with e upsert_is_isolated [OF e(1) _ _ _ _ up, of 11 "''k''"] up show ?thesis
    by (intro exI [of _ new_table] exI [of _ ts2] exI [of _ e2] exI [of _ env2]) (simp add: small_options_def kMaxSequence_def)
qed



subsection \<open>Scans and lookups\<close>

lemma map_of_insort_key: "map_of (insort_key fst (k, v) xs) = (map_of xs)(k \<mapsto> v)"
  by (induction xs) auto

lemma map_of_sort_key: "map_of (sort_key fst xs) = map_of xs"
  by (induction xs) (auto simp: map_of_insort_key)

lemma first_per_key_map_of:
  assumes "sorted (map fst ws)" "\<And>p. prev = Some p \<Longrightarrow> \<forall>k \<in> fst ` set ws. p \<le> k"
  shows "\<lparr>row_key = k, row_value = val\<rparr> \<in> set (first_per_key prev ws) \<longleftrightarrow>
    prev \<noteq> Some k \<and> map_option tv_value (map_of ws k) = Some val"
  using assms
proof (induction prev ws rule: first_per_key.induct)
  case (2 prev k' v ws)
  show ?case
  proof (cases "prev = Some k'")
    case True
    with 2 show ?thesis by auto
  next
    case False
    have "\<And>p. Some k' = Some p \<Longrightarrow> \<forall>k \<in> fst ` set ws. p \<le> k" using 2(3) by simp
    with 2(2) [OF False] 2(3) have IH: "\<lparr>row_key = k, row_value = val\<rparr> \<in> set (first_per_key (Some k') ws) \<longleftrightarrow>
      k' \<noteq> k \<and> map_option tv_value (map_of ws k) = Some val" by simp
    have "map_of ws p = None" if "prev = Some p" "p \<noteq> k'" for p
    proof -
      have "p < k'" using 2(4) [OF that(1)] that(2) by (simp add: order.strict_iff_order)
      then have "p \<notin> fst ` set ws" using 2(3) by auto
      then show ?thesis by (simp add: map_of_eq_None_iff)
    qed
    with False IH show ?thesis by auto
  qed
qed simp

lemma first_per_key_strict:
  assumes "sorted (map fst ws)" "\<And>p. prev = Some p \<Longrightarrow> \<forall>k \<in> fst ` set ws. p \<le> k"
  shows "sorted_wrt (<) (map row_key (first_per_key prev ws)) \<and>
    (\<forall>r \<in> set (first_per_key prev ws). row_key r \<in> fst ` set ws \<and> (\<forall>p. prev = Some p \<longrightarrow> p < row_key r))"
  using assms
proof (induction prev ws rule: first_per_key.induct)
  case (2 prev k v ws)
  show ?case
  proof (cases "prev = Some k")
    case True
    with 2 show ?thesis by auto
  next
    case False
    have "\<And>p. Some k = Some p \<Longrightarrow> \<forall>k' \<in> fst ` set ws. p \<le> k'" using 2(3) by simp
    with 2(2) [OF False] 2(3) have IH: "sorted_wrt (<) (map row_key (first_per_key (Some k) ws))"
      "\<forall>r \<in> set (first_per_key (Some k) ws). row_key r \<in> fst ` set ws \<and> k < row_key r" by auto
    moreover have "p < k" if "prev = Some p" for p using 2(4) [OF that] False that by (simp add: order.strict_iff_order)
    ultimately show ?thesis using False by (auto intro: less_trans)
  qed
qed simp

lemma vs_lookup_live:
  assumes "\<forall>(k, v) \<in> set vs. \<not> tv_is_deleted v \<and> \<not> tv_is_frozen v"
  shows "vs_lookup ts tx vs key = map_option tv_value (map_of (filter (\<lambda>(k, v). scan_sees ts tx v) vs) key)"
  using assms by (induction ts tx vs key rule: vs_lookup.induct) (auto simp: tt_sees_def scan_sees_def)

lemma vs_scan_sorted_filter:
  "vs_scan ts tx vs lower upper =
     first_per_key None (sort_key fst (filter (\<lambda>(k, v). scan_sees ts tx v \<and> key_between lower upper k) vs))"
  unfolding vs_scan_def filter_sort [symmetric] by (simp add: case_prod_unfold conj_commute)

lemma map_of_filter_key:
  "map_of (filter (\<lambda>(k, v). P v \<and> Q k) vs) key = (if Q key then map_of (filter (\<lambda>(k, v). P v) vs) key else None)"
  by (induction vs) auto

text \<open>
  C23. As long as no version is a deletion mark or has been frozen by compaction, a scan agrees
  with lookups: its rows are in strictly ascending key order, and a row is in it exactly if its
  key is within the bounds and a lookup of the key by the same transaction returns its value.
\<close>

theorem scan_agrees_with_lookup:
  assumes rep: "tt_rep crc e (n, vs)" and live: "\<forall>(k, v) \<in> set vs. \<not> tv_is_deleted v \<and> \<not> tv_is_frozen v"
  shows "\<exists>rows. tt_Scan crc e ts tx lower upper = Some (Inr \<lparr>tti_rows = rows, tti_idx = 0\<rparr>) \<and>
    sorted_wrt (<) (map row_key rows) \<and>
    (\<forall>key val. \<lparr>row_key = key, row_value = val\<rparr> \<in> set rows \<longleftrightarrow>
       key_between lower upper key \<and> tt_Lookup crc e ts tx key = Some (Inr (Some val)))"
proof (intro exI conjI allI)
  let ?ws = "sort_key fst (filter (\<lambda>(k, v). scan_sees ts tx v \<and> key_between lower upper k) vs)"
  let ?rows = "vs_scan ts tx vs lower upper"
  show "tt_Scan crc e ts tx lower upper = Some (Inr \<lparr>tti_rows = ?rows, tti_idx = 0\<rparr>)" by (rule tt_Scan_rep [OF rep])
  show "sorted_wrt (<) (map row_key ?rows)"
    unfolding vs_scan_sorted_filter using first_per_key_strict [of ?ws None] by simp
  fix key val
  have "\<lparr>row_key = key, row_value = val\<rparr> \<in> set ?rows \<longleftrightarrow> map_option tv_value (map_of ?ws key) = Some val"
    unfolding vs_scan_sorted_filter using first_per_key_map_of [of ?ws None key val] by simp
  also have "map_of ?ws key = (if key_between lower upper key then map_of (filter (\<lambda>(k, v). scan_sees ts tx v) vs) key else None)"
    unfolding map_of_sort_key by (rule map_of_filter_key)
  finally show "\<lparr>row_key = key, row_value = val\<rparr> \<in> set ?rows \<longleftrightarrow>
      key_between lower upper key \<and> tt_Lookup crc e ts tx key = Some (Inr (Some val))"
    by (simp add: tt_Lookup_rep [OF rep] vs_lookup_live [OF live])
qed

theorem scan_agrees_with_lookup_witness:
  "\<exists>e rows. tt_Scan (\<lambda>_. 0) e (snd (ts_Begin Tx_Storage)) 10 None (Some ''k'') = Some (Inr \<lparr>tti_rows = rows, tti_idx = 0\<rparr>) \<and>
    \<lparr>row_key = ''k'', row_value = ''v''\<rparr> \<in> set rows"
proof -
  note e = new_table_rep(1) [of "\<lambda>_. 0"] new_table_rep(2)
  let ?v = "new_version 10 (Some ''v'')"
  obtain e1 env1 where up: "le_Upsert new_table (Writer_Open [] ''wal'') \<lparr>row_key = ''k'', row_value = tv_bytes ?v\<rparr> = (e1, env1)"
    by (rule prod.exhaust)
  have e1: "tt_rep (\<lambda>_. 0) e1 (2, [(''k'', ?v)])"
    using tt_rep_Upsert [OF e(1) _ _ _ up] e(2) by (simp add: small_options_def kMaxSequence_def valid_tv_def new_version_def)
  moreover have "\<forall>(k, v) \<in> set [(''k'', ?v)]. \<not> tv_is_deleted v \<and> \<not> tv_is_frozen v" by (simp add: new_version_def)
  ultimately obtain rows where
    "tt_Scan (\<lambda>_. 0) e1 (snd (ts_Begin Tx_Storage)) 10 None (Some ''k'') = Some (Inr \<lparr>tti_rows = rows, tti_idx = 0\<rparr>)"
    "\<forall>key val. \<lparr>row_key = key, row_value = val\<rparr> \<in> set rows \<longleftrightarrow>
       key_between None (Some ''k'') key \<and> tt_Lookup (\<lambda>_. 0) e1 (snd (ts_Begin Tx_Storage)) 10 key = Some (Inr (Some val))"
    using scan_agrees_with_lookup by blast
  moreover have "tt_Lookup (\<lambda>_. 0) e1 (snd (ts_Begin Tx_Storage)) 10 ''k'' = Some (Inr (Some ''v''))"
    by (simp add: tt_Lookup_rep [OF e1] tt_sees_def new_version_def)
  ultimately show ?thesis by (auto simp: key_between_def)
qed

subsection \<open>Deviations from what a reader would expect\<close>


text \<open>
  Reads are not repeatable: a transaction that reads a key twice can get two values, when
  another transaction commits a write in between, so the isolation is read-committed and not a
  snapshot.
\<close>

lemma reads_are_not_repeatable:
  "tt_run crc (Tx_Storage, new_table, env)
     [TtBegin, TtLookup 10 ''k'', TtBegin, TtUpsert 11 ''k'' ''v'', TtCommit 11, TtLookup 10 ''k''] =
   Some (Inr [TtTx 10, TtValue None, TtTx 11, TtDone, TtDone, TtValue (Some ''v'')])"
  by (subst new_table_run) (simp_all add: vs_run_simps small_options_def kMaxSequence_def)



end
