(* ===== verification/Table_Compaction.thy ===== *)
theory Table_Compaction
  imports Table_Sessions
begin

section \<open>Compaction of a table\<close>

text \<open>
  \<open>CompactRows\<close> is a strategy in the sense of the theory \<open>Lsm_Compact\<close>: it keeps, of each key,
  the newest version that is not a deletion mark and whose transaction is committed or started.
  What compaction does to lookups follows: nothing, if all transactions that wrote to the
  tables on disk have ended and none deleted anything, and three ways to lose a value otherwise.
\<close>

subsection \<open>What the strategy keeps\<close>

definition kept_version :: "tx_storage \<Rightarrow> transactional_value \<Rightarrow> transactional_value" where
  "kept_version ts v =
     (if ts_GetStatus ts (tv_tx v) = Some kCommited \<and> \<not> tv_is_frozen v then v\<lparr>tv_is_frozen := True\<rparr> else v)"

definition keeps :: "tx_storage \<Rightarrow> transactional_value \<Rightarrow> bool" where
  "keeps ts v \<longleftrightarrow> \<not> tv_is_deleted v \<and> ts_GetStatus ts (tv_tx v) \<in> {Some kCommited, Some kStarted}"

fun compact_keep :: "tx_storage \<Rightarrow> string option \<Rightarrow> lsm_record list \<Rightarrow> lsm_record list" where
  "compact_keep ts prev [] = []"
| "compact_keep ts prev (r # rs) =
     (if keeps ts (version r) \<and> prev \<noteq> Some (rec_key r)
      then Record (rec_key r) (rec_seq r) (tv_bytes (kept_version ts (version r))) # compact_keep ts (Some (rec_key r)) rs
      else compact_keep ts prev rs)"

lemma compact_loop:
  assumes "list_all is_version rs"
  shows "map_sum id snd (list_loop (compact_body ts (lo_Write crc)) (map (\<lambda>r. (row_of r, rec_seq r)) rs) (added, b)) =
    sb_AddAll crc b (compact_keep ts (map_option row_key added) rs)"
  using assms
proof (induction rs arbitrary: added b)
  case (Cons r rs)
  then have "is_version r" by simp
  then have v: "ParseTransactionalValue (rec_value r) = Inr (version r)" "rec_value r = tv_bytes (version r)"
    using is_version_parse is_version_bytes by blast+
  let ?row = "\<lparr>row_key = rec_key r, row_value = tv_bytes (kept_version ts (version r))\<rparr>"
  have body: "compact_body ts (lo_Write crc) (added, b) (row_of r, rec_seq r) =
      (if keeps ts (version r) \<and> map_option row_key added \<noteq> Some (rec_key r)
       then bindE (lo_Write crc b (?row, rec_seq r)) (\<lambda>b. Inr (Continue (Some ?row, b)))
       else Inr (Continue (added, b)))"
    using v by (cases added) (auto simp: compact_body_def keeps_def kept_version_def row_of_def tv_ToString_bytes Let_def)
  show ?case
  proof (cases "keeps ts (version r) \<and> map_option row_key added \<noteq> Some (rec_key r)")
    case True
    have out: "lo_Write crc b (?row, rec_seq r) = sb_Add crc b (Record (rec_key r) (rec_seq r) (tv_bytes (kept_version ts (version r))))"
      by (simp add: lo_Write_def)
    have "compact_body ts (lo_Write crc) (added, b) (row_of r, rec_seq r) =
      bindE (lo_Write crc b (?row, rec_seq r)) (\<lambda>b. Inr (Continue (Some ?row, b)))" unfolding body using True by (rule if_P)
    with out True Cons.IH [of "Some ?row"] Cons.prems show ?thesis
      by (cases "sb_Add crc b (Record (rec_key r) (rec_seq r) (tv_bytes (kept_version ts (version r))))") auto
  next
    case False
    have "compact_body ts (lo_Write crc) (added, b) (row_of r, rec_seq r) = Inr (Continue (added, b))"
      unfolding body using False by (rule if_not_P)
    with False Cons.IH [of added] Cons.prems show ?thesis by auto
  qed
qed simp

lemma compact_keep_keys:
  assumes "sorted rs" "\<And>p. prev = Some p \<Longrightarrow> \<forall>r \<in> set rs. p \<le> rec_key r"
  shows "sorted_wrt (\<lambda>x y. rec_key x < rec_key y) (compact_keep ts prev rs) \<and>
    (\<forall>r \<in> set (compact_keep ts prev rs). rec_key r \<in> rec_key ` set rs \<and> (\<forall>p. prev = Some p \<longrightarrow> p < rec_key r))"
  using assms
proof (induction ts prev rs rule: compact_keep.induct)
  case (2 ts prev r rs)
  have le: "\<forall>x \<in> set rs. rec_key r \<le> rec_key x" using 2(3) by (auto dest: record_le_key)
  show ?case
  proof (cases "keeps ts (version r) \<and> prev \<noteq> Some (rec_key r)")
    case True
    have "sorted_wrt (\<lambda>x y. rec_key x < rec_key y) (compact_keep ts (Some (rec_key r)) rs) \<and>
      (\<forall>x \<in> set (compact_keep ts (Some (rec_key r)) rs). rec_key x \<in> rec_key ` set rs \<and> rec_key r < rec_key x)"
      using 2(1) [OF True] 2(3) le by auto
    moreover have "p < rec_key r" if "prev = Some p" for p
      using 2(4) [OF that] True that by (auto simp: order.strict_iff_order)
    ultimately show ?thesis using True by (auto intro: less_trans)
  next
    case False
    have "sorted_wrt (\<lambda>x y. rec_key x < rec_key y) (compact_keep ts prev rs) \<and>
      (\<forall>r \<in> set (compact_keep ts prev rs). rec_key r \<in> rec_key ` set rs \<and> (\<forall>p. prev = Some p \<longrightarrow> p < rec_key r))"
      using 2(2) [OF False] 2(3,4) by auto
    with False show ?thesis by auto
  qed
qed simp

lemma compact_keep_from:
  assumes "list_all is_version rs" "r \<in> set (compact_keep ts prev rs)"
  shows "is_version r \<and> (\<exists>r' \<in> set rs. rec_key r = rec_key r' \<and> rec_seq r = rec_seq r' \<and> length (rec_value r) = length (rec_value r'))"
  using assms
proof (induction ts prev rs rule: compact_keep.induct)
  case (2 ts prev r' rs)
  have "is_version r'" using 2(3) by simp
  then have "valid_tv (version r')" "rec_value r' = tv_bytes (version r')" using is_version_bytes by blast+
  then have "valid_tv (kept_version ts (version r'))" "length (tv_bytes (kept_version ts (version r'))) = length (rec_value r')"
    by (simp_all add: kept_version_def valid_tv_def length_tv_bytes)
  with 2 show ?case by (auto split: if_splits)
qed simp

lemma compact_keep_length: "length (compact_keep ts prev rs) \<le> length rs"
  by (induction ts prev rs rule: compact_keep.induct) auto

interpretation table_compaction: lsm_compaction crc "LsmEngineCompactStrategy crc (CompactRows ts)" "compact_keep ts None" "list_all is_version"
  for crc ts
proof unfold_locales
  fix mg rs b
  assume "mg_rep crc mg rs" "list_all is_version rs"
  then show "LsmEngineCompactStrategy crc (CompactRows ts) mg b = Some (sb_AddAll crc b (compact_keep ts None rs))"
    using compact_loop [of rs ts crc None b] by (simp add: LsmEngineCompactStrategy_def CompactRows_def emg.seq_rows_loop)
next
  fix rs :: "lsm_record list"
  assume "sorted rs"
  then have "sorted_wrt (\<lambda>x y. rec_key x < rec_key y) (compact_keep ts None rs)" using compact_keep_keys [of rs None ts] by simp
  then show "sorted (compact_keep ts None rs)" by (rule sorted_wrt_mono_rel [rotated]) (simp add: record_less_eq_iff)
next
  fix rs r
  assume "list_all is_version rs" "r \<in> set (compact_keep ts None rs)"
  then show "\<exists>r' \<in> set rs. rec_key r = rec_key r' \<and> rec_seq r = rec_seq r' \<and> length (rec_value r) = length (rec_value r')"
    using compact_keep_from by blast
qed (rule compact_keep_length)

subsection \<open>Lookups and the levels of a tree\<close>

lemma vs_lookup_append_cong:
  "vs_lookup ts tx vs key = vs_lookup ts tx vs' key \<Longrightarrow> vs_lookup ts tx (ws @ vs) key = vs_lookup ts tx (ws @ vs') key"
  by (induction ts tx ws key rule: vs_lookup.induct) auto

lemma vs_lookup_filter_key: "vs_lookup ts tx (versions_of (filter (\<lambda>r. rec_key r = key) rs)) key = vs_lookup ts tx (versions_of rs) key"
  by (induction rs) (auto simp: versions_of_def)

lemma versions_of_append: "versions_of (rs @ rs') = versions_of rs @ versions_of rs'"
  by (simp add: versions_of_def)

lemma tt_Lookup_levels:
  assumes "lsm_inv crc (le_lsm e) sss" "list_all is_version (concat (lsm_levels (le_lsm e) sss))"
  shows "tt_Lookup crc e ts tx key = Some (Inr (vs_lookup ts tx (versions_of (concat (lsm_levels (le_lsm e) sss))) key))"
proof -
  from LsmKeyIterator_Create_rep [of crc "le_lsm e" sss key] assms(1) obtain it where
    "lsm_ScanKey crc (le_lsm e) key = Inr it"
    "ki_rep crc (le_lsm e) it (filter (\<lambda>r. rec_key r = key) (concat (lsm_levels (le_lsm e) sss)))"
    by (auto simp: lsm_inv_def lsm_ScanKey_def)
  with lookup_loop [OF assms(2), of ts tx key] show ?thesis
    by (simp add: tt_Lookup_def le_ScanKey_def eki.rows_loop)
qed

definition mem_levels :: "lsm \<Rightarrow> lsm_record list" where
  "mem_levels l = concat (mt_impl (lsm_mem_table l) # rev (map mt_impl (lsm_ro_mem_tables l)))"

lemma concat_levels: "concat (lsm_levels l sss) = mem_levels l @ concat (rev sss)"
  by (simp add: mem_levels_def lsm_levels_def)

text \<open>What a lookup finds below the mem tables does not depend on how the tables are split.\<close>

lemma vs_lookup_tables:
  assumes "lsm_inv crc l sss"
  shows "vs_lookup ts tx (versions_of (concat (rev sss))) key = vs_lookup ts tx (versions_of (sort (concat sss))) key"
proof -
  have "\<forall>xs \<in> set (rev sss). sorted xs"
    using assms levels_sorted [of crc l sss] by (simp add: lsm_inv_def lsm_levels_def)
  moreover have "sorted_wrt newer (rev sss)" using assms by (simp add: lsm_inv_def lsm_levels_def sorted_wrt_append)
  ultimately have "sorted (filter (\<lambda>r. rec_key r = key) (concat (rev sss)))" by (rule key_levels_sorted)
  then have "filter (\<lambda>r. rec_key r = key) (concat (rev sss)) = filter (\<lambda>r. rec_key r = key) (sort (concat (rev sss)))"
    by (simp add: filter_sort sorted_sort_id)
  also have "sort (concat (rev sss)) = sort (concat sss)"
    by (intro properties_for_sort) (simp_all add: mset_concat_rev)
  finally show ?thesis by (metis vs_lookup_filter_key)
qed

text \<open>The tables of an engine can be compacted: versions that fit into pages.\<close>

definition compactable :: "crc32 \<Rightarrow> lsm_engine \<Rightarrow> lsm_record list list \<Rightarrow> bool" where
  "compactable crc e sss \<longleftrightarrow>
     lsm_inv crc (le_lsm e) sss \<and> list_all is_version (concat (lsm_levels (le_lsm e) sss)) \<and>
     good_page_size (page_size (le_options e)) \<and> list_all (storable (page_size (le_options e))) (concat sss) \<and>
     file_fits (page_size (le_options e)) (length (concat sss))"

lemma tt_Compact_lookup:
  assumes ok: "compactable crc e sss"
  shows "\<exists>e' d'. tt_Compact crc e ts d = Some (Inr (e', d')) \<and> le_CountSSTables e' = 1 \<and>
    (\<forall>ts' tx key. tt_Lookup crc e' ts' tx key =
       Some (Inr (vs_lookup ts' tx (versions_of (mem_levels (le_lsm e) @ compact_keep ts None (sort (concat sss)))) key)))"
proof -
  let ?l = "le_lsm e"
  have inv: "lsm_inv crc ?l sss" and vers: "list_all is_version (mem_levels ?l)" "list_all is_version (sort (concat sss))"
    using ok by (auto simp: compactable_def concat_levels list_all_iff)
  from table_compaction.compact_correct [OF inv vers(2), of d ts] ok obtain t d' where
    c: "lsm_Compact crc ?l d (LsmEngineCompactStrategy crc (CompactRows ts)) = Some (Inr (?l\<lparr>lsm_ss_tables := [t]\<rparr>, d'))"
    and inv': "lsm_inv crc (?l\<lparr>lsm_ss_tables := [t]\<rparr>) [compact_keep ts None (sort (concat sss))]"
    by (auto simp: compactable_def le_options_def)
  let ?e = "e\<lparr>le_lsm := ?l\<lparr>lsm_ss_tables := [t]\<rparr>\<rparr>"
  have mem: "mem_levels (le_lsm ?e) = mem_levels ?l" by (simp add: mem_levels_def)
  have lev: "concat (lsm_levels (le_lsm ?e) [compact_keep ts None (sort (concat sss))]) =
      mem_levels ?l @ compact_keep ts None (sort (concat sss))"
    by (simp only: concat_levels mem) simp
  have "list_all is_version (compact_keep ts None (sort (concat sss)))"
    using compact_keep_from [OF vers(2), of _ ts None] unfolding list_all_iff by blast
  with vers(1) inv' have "tt_Lookup crc ?e ts' tx key =
       Some (Inr (vs_lookup ts' tx (versions_of (mem_levels ?l @ compact_keep ts None (sort (concat sss)))) key))" for ts' tx key
    using tt_Lookup_levels [of crc ?e "[compact_keep ts None (sort (concat sss))]", unfolded lev] by simp
  moreover have "tt_Compact crc e ts d = Some (Inr (?e, d'))" by (simp add: tt_Compact_def le_Compact_def c)
  ultimately show ?thesis by (auto simp: le_CountSSTables_def lsm_CountSSTables_def)
qed

text \<open>A version whose transaction has ended and which compaction can treat safely.\<close>

definition settled :: "tx_storage \<Rightarrow> transactional_value \<Rightarrow> bool" where
  "settled ts v \<longleftrightarrow> \<not> tv_is_deleted v \<and>
     (ts_GetStatus ts (tv_tx v) = Some kCommited \<or> ts_GetStatus ts (tv_tx v) = Some kRollbacked \<and> \<not> tv_is_frozen v)"

lemma compact_keep_lookup:
  assumes "sorted rs" "\<And>p. prev = Some p \<Longrightarrow> \<forall>r \<in> set rs. p \<le> rec_key r"
    and "list_all is_version rs" "\<forall>r \<in> set rs. settled ts (version r)" "ts_IsStarted ts tx"
  shows "vs_lookup ts tx (versions_of (compact_keep ts prev rs)) key =
    (if prev = Some key then None else vs_lookup ts tx (versions_of rs) key)"
  using assms
proof (induction ts prev rs rule: compact_keep.induct)
  case (2 ts prev r rs)
  have le: "\<forall>x \<in> set rs. rec_key r \<le> rec_key x" using 2(3) by (auto dest: record_le_key)
  have valid: "valid_tv (kept_version ts (version r))"
    using 2(5) is_version_bytes [of r] by (simp add: kept_version_def valid_tv_def)
  have other: "tv_tx (version r) \<noteq> tx \<or> ts_GetStatus ts (tv_tx (version r)) = Some kCommited" and set: "settled ts (version r)"
    using 2(6,7) by (auto simp: settled_def ts_IsStarted_def ts_GetStatus_def)
  show ?case
  proof (cases "keeps ts (version r) \<and> prev \<noteq> Some (rec_key r)")
    case True
    then have com: "ts_GetStatus ts (tv_tx (version r)) = Some kCommited" "\<not> tv_is_deleted (version r)"
      using set by (auto simp: keeps_def settled_def)
    then have seen: "tt_sees ts tx (version r)" "tt_sees ts tx (kept_version ts (version r))"
      "tv_value (kept_version ts (version r)) = tv_value (version r)" "\<not> tv_is_deleted (kept_version ts (version r))"
      by (simp_all add: tt_sees_def kept_version_def ts_IsCommited_def ts_GetStatus_def)
    have IH: "vs_lookup ts tx (versions_of (compact_keep ts (Some (rec_key r)) rs)) key =
        (if rec_key r = key then None else vs_lookup ts tx (versions_of rs) key)"
      using 2(1) [OF True] 2(3,5,6,7) le by auto
    have "vs_lookup ts tx (versions_of rs) key = None" if "prev = Some key"
    proof -
      have "key < rec_key r" using 2(4) [OF that] True that by (auto simp: order.strict_iff_order)
      then have "filter (\<lambda>x. rec_key x = key) rs = []" using le by (auto simp: filter_empty_conv)
      then show ?thesis using vs_lookup_filter_key [of ts tx key rs] by (simp add: versions_of_def)
    qed
    with True IH seen com valid show ?thesis by (auto simp: versions_of_def)
  next
    case False
    then have "prev = Some (rec_key r) \<or> \<not> tt_sees ts tx (version r)"
      using set other by (auto simp: keeps_def settled_def tt_sees_def ts_IsCommited_def ts_GetStatus_def)
    moreover have "vs_lookup ts tx (versions_of (compact_keep ts prev rs)) key =
      (if prev = Some key then None else vs_lookup ts tx (versions_of rs) key)"
      using 2(2) [OF False] 2(3,4,5,6,7) by auto
    ultimately show ?thesis using False by (auto simp: versions_of_def)
  qed
qed (simp add: versions_of_def)


subsection \<open>Two versions of a key on disk\<close>

text \<open>The table of the examples: two versions of one key, the second newer, flushed to one file.\<close>

definition on_disk :: "crc32 \<Rightarrow> transactional_value \<Rightarrow> transactional_value \<Rightarrow> lsm_engine" where
  "on_disk crc a b =
     (let env = Writer_Open [] ''wal'';
          e = fst (le_Upsert new_table env \<lparr>row_key = ''k'', row_value = tv_bytes a\<rparr>);
          e = fst (le_Upsert e env \<lparr>row_key = ''k'', row_value = tv_bytes b\<rparr>)
      in fst (projr (le_Flush crc e [])))"

lemma new_table_eq: "new_table = \<lparr>le_id = ''t'', le_lsm = (Lsm ''db'' small_options)\<lparr>lsm_next_seq_no := 1\<rparr>, le_wal_writer = False\<rparr>"
  using lsm_Init_empty [of "[]" "''db''" small_options]
  by (simp add: new_table_def le_Init_def LsmEngine_def io_ListDirectory_def)

lemma small_put_twice:
  fixes r1 r2 :: lsm_record
  assumes "r1 = Record ''k'' 1 v1" "r2 = Record ''k'' 2 v2"
  shows "snd (lsm_Put (snd (lsm_Put ((Lsm ''db'' small_options)\<lparr>lsm_next_seq_no := 1\<rparr>) ''k'' v1)) ''k'' v2) =
    (Lsm ''db'' small_options)\<lparr>lsm_next_seq_no := 3, lsm_ro_mem_tables := [mt_Put (mt_Put MemTable r1) r2]\<rparr>"
  by (simp add: assms lsm_Put_eq lsm_DoPut_def Let_def Lsm_def small_options_def mt_Size_def mt_Put_def MemTable_def)

lemma on_disk_compactable:
  assumes a: "valid_tv a" "length (tv_value a) \<le> 5" and b: "valid_tv b" "length (tv_value b) \<le> 5"
  shows "compactable crc (on_disk crc a b) [[Record ''k'' 2 (tv_bytes b), Record ''k'' 1 (tv_bytes a)]] \<and>
    mem_levels (le_lsm (on_disk crc a b)) = []"
proof -
  let ?r1 = "Record ''k'' 1 (tv_bytes a)" and ?r2 = "Record ''k'' 2 (tv_bytes b)"
  let ?l0 = "(Lsm ''db'' small_options)\<lparr>lsm_next_seq_no := 1\<rparr>"
  let ?l1 = "snd (lsm_Put ?l0 ''k'' (tv_bytes a))" and ?l2 = "snd (lsm_Put (snd (lsm_Put ?l0 ''k'' (tv_bytes a))) ''k'' (tv_bytes b))"
  have fit: "op_fits small_options (OpPut ''k'' (tv_bytes a))" "op_fits small_options (OpPut ''k'' (tv_bytes b))"
    using a b by (simp_all add: small_options_def length_tv_bytes)
  have o: "lsm_options ?l0 = small_options" by (simp add: Lsm_def)
  have rep1: "log_rep crc ?l1 (2, [?r1])" "lsm_options ?l1 = small_options"
    using log_rep_Put [OF log_rep_empty [OF good_small_options, of crc "''db''"] _ _ prod.collapse [symmetric]] fit(1) o
    by (simp_all add: kMaxSequence_def)
  have rep2: "log_rep crc ?l2 (3, [?r2, ?r1])" "lsm_options ?l2 = small_options"
    using log_rep_Put [OF rep1(1) _ _ prod.collapse [symmetric]] fit(2) rep1(2) by (simp_all add: kMaxSequence_def)
  note l2 = small_put_twice [OF refl refl, of "tv_bytes a" "tv_bytes b"]
  from rep2(1) obtain sss where inv: "lsm_inv crc ?l2 sss" "lsm_fits ?l2" by (auto simp: log_rep_def)
  have "lsm_ss_tables ?l2 = []" unfolding l2 by (simp add: Lsm_def)
  with inv(1) have "sss = []" by (simp add: lsm_inv_def lsm_tables_ok_def)
  with lsm_Flush_rep [OF inv, of "[]"] obtain l3 d3 where fl: "lsm_Flush crc ?l2 [] = Inr (l3, d3)"
    and inv3: "lsm_inv crc l3 (map mt_impl (lsm_ro_mem_tables ?l2))" and ro: "lsm_ro_mem_tables l3 = []"
    and eqs: "lsm_options l3 = lsm_options ?l2" "lsm_mem_table l3 = lsm_mem_table ?l2" by auto
  have recs: "map mt_impl (lsm_ro_mem_tables ?l2) = [[?r2, ?r1]]" "mt_impl (lsm_mem_table ?l2) = []"
    unfolding l2 by (simp_all add: mt_Put_def MemTable_def Lsm_def record_less_eq_iff)
  have mem: "mem_levels l3 = []" using recs(2) by (simp add: mem_levels_def ro eqs)
  have disk: "le_lsm (on_disk crc a b) = l3"
    using fl by (simp add: on_disk_def Let_def le_Upsert_def new_table_eq le_Flush_def split_beta)
  have "compactable crc (on_disk crc a b) [[?r2, ?r1]]"
    unfolding compactable_def disk concat_levels mem using inv3 a b rep2(2) recs(1)
    by (auto simp: le_options_def disk eqs small_options_def good_page_size_def storable_def length_record_bytes
        length_tv_bytes file_fits_def)
  with mem disk show ?thesis by simp
qed

lemma on_disk_lookups:
  assumes a: "valid_tv a" "length (tv_value a) \<le> 5" and b: "valid_tv b" "length (tv_value b) \<le> 5"
  shows "tt_Lookup crc (on_disk crc a b) ts' tx ''k'' = Some (Inr (vs_lookup ts' tx [(''k'', b), (''k'', a)] ''k''))"
    and "\<exists>e' d'. tt_Compact crc (on_disk crc a b) ts d = Some (Inr (e', d')) \<and>
      (\<forall>ts' tx. tt_Lookup crc e' ts' tx ''k'' =
         Some (Inr (vs_lookup ts' tx (if keeps ts b then [(''k'', kept_version ts b)]
           else if keeps ts a then [(''k'', kept_version ts a)] else []) ''k'')))"
proof -
  note c = on_disk_compactable [OF assms, of crc]
  let ?sss = "[[Record ''k'' 2 (tv_bytes b), Record ''k'' 1 (tv_bytes a)]]"
  have kept: "valid_tv (kept_version ts a)" "valid_tv (kept_version ts b)"
    using a b by (simp_all add: kept_version_def valid_tv_def)
  from c a b show "tt_Lookup crc (on_disk crc a b) ts' tx ''k'' = Some (Inr (vs_lookup ts' tx [(''k'', b), (''k'', a)] ''k''))"
    using tt_Lookup_levels [of crc "on_disk crc a b" ?sss ts' tx "''k''"]
    by (simp add: compactable_def concat_levels versions_of_def)
  have "sort (concat ?sss) = concat ?sss" by (simp add: record_less_eq_iff)
  then have "versions_of (compact_keep ts None (sort (concat ?sss))) =
      (if keeps ts b then [(''k'', kept_version ts b)] else if keeps ts a then [(''k'', kept_version ts a)] else [])"
    using a b kept by (simp add: versions_of_def)
  with c tt_Compact_lookup [of crc "on_disk crc a b" ?sss ts d]
  show "\<exists>e' d'. tt_Compact crc (on_disk crc a b) ts d = Some (Inr (e', d')) \<and>
      (\<forall>ts' tx. tt_Lookup crc e' ts' tx ''k'' =
         Some (Inr (vs_lookup ts' tx (if keeps ts b then [(''k'', kept_version ts b)]
           else if keeps ts a then [(''k'', kept_version ts a)] else []) ''k'')))"
    by (auto simp del: concat.simps)
qed

text \<open>Transaction 10 has committed, 11 and 12 are running.\<close>

definition three_txs :: tx_storage where
  "three_txs = snd (ts_Begin (snd (ts_Begin (fst (ts_Commit (snd (ts_Begin Tx_Storage)) 10 (Writer_Open [] ''wal''))))))"

lemma three_txs_status:
  "ts_tx_status three_txs = [10 \<mapsto> kCommited, 11 \<mapsto> kStarted, 12 \<mapsto> kStarted]"
  by (simp add: three_txs_def ts_Commit_def vs_run_simps fun_eq_iff)


subsection \<open>What compaction loses\<close>

text \<open>
  Compaction throws away a committed value when a running transaction has a newer version on
  disk: a third transaction reads the committed value before, nothing after, and nothing for
  good when the running transaction rolls back.
\<close>

lemma compaction_drops_committed_value:
  "\<exists>e' d'. tt_Lookup crc (on_disk crc (new_version 10 (Some ''a'')) (new_version 11 (Some ''b''))) three_txs 12 ''k'' = Some (Inr (Some ''a'')) \<and>
    tt_Compact crc (on_disk crc (new_version 10 (Some ''a'')) (new_version 11 (Some ''b''))) three_txs d = Some (Inr (e', d')) \<and>
    tt_Lookup crc e' three_txs 12 ''k'' = Some (Inr None) \<and> tt_Lookup crc e' (ts_Rollback three_txs 11) 12 ''k'' = Some (Inr None)"
proof -
  let ?a = "new_version 10 (Some ''a'')" and ?b = "new_version 11 (Some ''b'')"
  have v: "valid_tv ?a" "length (tv_value ?a) \<le> 5" "valid_tv ?b" "length (tv_value ?b) \<le> 5"
    by (simp_all add: new_version_def valid_tv_def)
  have "keeps three_txs ?b = True" "kept_version three_txs ?b = ?b"
    by (simp_all add: keeps_def kept_version_def ts_GetStatus_def three_txs_status new_version_def)
  note kept = this
  from on_disk_lookups(2) [OF v, of crc three_txs d] obtain e' d' where
    c: "tt_Compact crc (on_disk crc ?a ?b) three_txs d = Some (Inr (e', d'))"
    and after: "\<And>ts' tx. tt_Lookup crc e' ts' tx ''k'' = Some (Inr (vs_lookup ts' tx [(''k'', ?b)] ''k''))"
    unfolding kept by auto
  show ?thesis
    by (intro exI [of _ e'] exI [of _ d'] conjI c; unfold after on_disk_lookups(1) [OF v])
      (simp_all add: tt_sees_def new_version_def status_frame ts_IsCommited_def [of three_txs] three_txs_status)
qed

text \<open>
  Compaction throws away deletion marks and keeps what they hide: a key that is deleted by a
  committed transaction reads as its old value again after compaction.
\<close>

lemma compaction_resurrects_deleted_key:
  "\<exists>e' d'. tt_Lookup crc (on_disk crc (new_version 10 (Some ''a'')) (new_version 10 None)) three_txs 12 ''k'' = Some (Inr None) \<and>
    tt_Compact crc (on_disk crc (new_version 10 (Some ''a'')) (new_version 10 None)) three_txs d = Some (Inr (e', d')) \<and>
    tt_Lookup crc e' three_txs 12 ''k'' = Some (Inr (Some ''a''))"
proof -
  let ?a = "new_version 10 (Some ''a'')" and ?b = "new_version 10 None"
  have v: "valid_tv ?a" "length (tv_value ?a) \<le> 5" "valid_tv ?b" "length (tv_value ?b) \<le> 5"
    by (simp_all add: new_version_def valid_tv_def)
  have "keeps three_txs ?b = False" "keeps three_txs ?a = True" "kept_version three_txs ?a = ?a\<lparr>tv_is_frozen := True\<rparr>"
    by (simp_all add: keeps_def kept_version_def ts_GetStatus_def three_txs_status new_version_def)
  note kept = this
  from on_disk_lookups(2) [OF v, of crc three_txs d] obtain e' d' where
    c: "tt_Compact crc (on_disk crc ?a ?b) three_txs d = Some (Inr (e', d'))"
    and after: "\<And>ts' tx. tt_Lookup crc e' ts' tx ''k'' = Some (Inr (vs_lookup ts' tx [(''k'', ?a\<lparr>tv_is_frozen := True\<rparr>)] ''k''))"
    unfolding kept by auto
  show ?thesis
    by (intro exI [of _ e'] exI [of _ d'] conjI c; unfold after on_disk_lookups(1) [OF v])
      (simp_all add: tt_sees_def new_version_def status_frame ts_IsCommited_def [of three_txs] three_txs_status)
qed


text \<open>
  A version that an earlier compaction froze is lost by the next one when the status of its
  transaction is no longer known, as after a restart with a cleaned log: it can be read
  before and not after.
\<close>

lemma compaction_drops_frozen_value:
  "\<exists>e' d'. tt_Lookup crc (on_disk crc ((new_version 9 (Some ''a''))\<lparr>tv_is_frozen := True\<rparr>) ((new_version 9 (Some ''b''))\<lparr>tv_is_frozen := True\<rparr>)) three_txs 12 ''k'' = Some (Inr (Some ''b'')) \<and>
    tt_Compact crc (on_disk crc ((new_version 9 (Some ''a''))\<lparr>tv_is_frozen := True\<rparr>) ((new_version 9 (Some ''b''))\<lparr>tv_is_frozen := True\<rparr>)) three_txs d = Some (Inr (e', d')) \<and>
    tt_Lookup crc e' three_txs 12 ''k'' = Some (Inr None)"
proof -
  let ?a = "(new_version 9 (Some ''a''))\<lparr>tv_is_frozen := True\<rparr>" and ?b = "(new_version 9 (Some ''b''))\<lparr>tv_is_frozen := True\<rparr>"
  have v: "valid_tv ?a" "length (tv_value ?a) \<le> 5" "valid_tv ?b" "length (tv_value ?b) \<le> 5"
    by (simp_all add: new_version_def valid_tv_def)
  have "keeps three_txs ?b = False" "keeps three_txs ?a = False"
    by (simp_all add: keeps_def ts_GetStatus_def three_txs_status new_version_def)
  note kept = this
  from on_disk_lookups(2) [OF v, of crc three_txs d] obtain e' d' where
    c: "tt_Compact crc (on_disk crc ?a ?b) three_txs d = Some (Inr (e', d'))"
    and after: "\<And>ts' tx. tt_Lookup crc e' ts' tx ''k'' = Some (Inr (vs_lookup ts' tx [] ''k''))"
    unfolding kept by auto
  show ?thesis
    by (intro exI [of _ e'] exI [of _ d'] conjI c; unfold after on_disk_lookups(1) [OF v])
      (simp_all add: tt_sees_def new_version_def status_frame ts_IsCommited_def [of three_txs] three_txs_status)
qed

end
