(* ===== verification/Wal_Correct.thy ===== *)
theory Wal_Correct
  imports Wal
begin

section \<open>Correctness of the write-ahead log\<close>

text \<open>
  What the writer leaves on disk, what the reader finds there, and that the one is the
  other: the events of all segments in the order they were written.
\<close>

subsection \<open>Reading a page of events\<close>

definition events_bytes :: "event list \<Rightarrow> bytes" where
  "events_bytes evs = concat (map event_bytes evs)"

lemma events_bytes_simps [simp]:
  "events_bytes [] = []" "events_bytes (ev # evs) = event_bytes ev @ events_bytes evs"
  "events_bytes (evs @ evs') = events_bytes evs @ events_bytes evs'"
  by (simp_all add: events_bytes_def)

text \<open>Handling events one after the other, until one fails.\<close>

fun handle_all :: "(event \<Rightarrow> 's \<Rightarrow> 's result) \<Rightarrow> event list \<Rightarrow> 's \<Rightarrow> 's \<times> error option" where
  "handle_all handle [] s = (s, None)"
| "handle_all handle (ev # evs) s =
     (case handle ev s of Inl e \<Rightarrow> (s, Some e) | Inr s' \<Rightarrow> handle_all handle evs s')"

lemma handle_all_cong:
  "(\<And>ev s. ev \<in> set evs \<Longrightarrow> h ev s = h' ev s) \<Longrightarrow> handle_all h evs s = handle_all h' evs s"
  by (induction evs arbitrary: s) (auto split: sum.split)

lemma parse_page_events:
  assumes "list_all valid_event evs" and "br_rest rd = events_bytes evs @ rest"
  shows "parse_page handle rd s =
    (case handle_all handle evs s of
       (s', Some e) \<Rightarrow> (s', Some e)
     | (s', None) \<Rightarrow> parse_page handle (br_advance (length (events_bytes evs)) rd) s')"
  using assms
proof (induction evs arbitrary: rd s)
  case (Cons ev evs)
  have more: "br_HasMore rd" using Cons.prems length_event_bytes [of ev] by (auto simp: br_HasMore_iff_rest)
  have parse: "ParseEvent rd = Inr (ev, br_advance (length (event_bytes ev)) rd)"
    using Cons.prems event_codec.get_enc [of ev rd "events_bytes evs @ rest"] by simp
  show ?case
  proof (cases "handle ev s")
    case (Inl e)
    then show ?thesis by (subst parse_page.simps) (simp add: more parse)
  next
    case (Inr s')
    with Cons.IH [of "br_advance (length (event_bytes ev)) rd" s'] Cons.prems
    show ?thesis by (subst parse_page.simps) (simp add: more parse)
  qed
qed simp

text \<open>
  A file of the log holds events if it is at most one page of them, followed by zeros. Less
  than eight bytes of padding would be read as the start of a type.
\<close>

definition holds_events :: "bytes \<Rightarrow> event list \<Rightarrow> bool" where
  "holds_events c evs \<longleftrightarrow>
     list_all valid_event evs \<and>
     (\<exists>k. c = events_bytes evs @ replicate k (CHR 0x00) \<and> (k = 0 \<or> 8 \<le> k) \<and> int (length c) \<le> kWalPageSize)"

definition no_ub :: "('a \<Rightarrow> 's \<Rightarrow> 's result) \<Rightarrow> bool" where
  "no_ub handle \<longleftrightarrow> (\<forall>x s. handle x s \<noteq> Inl OutOfBounds)"

lemma handle_all_no_ub: "no_ub handle \<Longrightarrow> snd (handle_all handle evs s) \<noteq> Some OutOfBounds"
  by (induction evs arbitrary: s) (auto simp: no_ub_def split: sum.split)

lemma parse_page_file:
  assumes "holds_events c evs" "snd (handle_all handle evs s) \<noteq> Some OutOfBounds"
  shows "fst (parse_page handle (BufferReader c) s) = fst (handle_all handle evs s) \<and>
    snd (parse_page handle (BufferReader c) s) \<noteq> Some OutOfBounds"
proof -
  from assms obtain k where v: "list_all valid_event evs" and c: "c = events_bytes evs @ replicate k (CHR 0x00)"
    and k: "k = 0 \<or> 8 \<le> k" by (auto simp: holds_events_def)
  let ?rd = "br_advance (length (events_bytes evs)) (BufferReader c)"
  have rest: "br_rest ?rd = replicate k (CHR 0x00)" by (simp add: c)
  have "parse_page handle ?rd s' = (s', if k = 0 then None else Some OutOfRange)" for s'
    using k rest ParseEvent_padding [OF rest]
    by (subst parse_page.simps) (auto simp: br_HasMore_iff_rest)
  moreover have "br_rest (BufferReader c) = events_bytes evs @ replicate k (CHR 0x00)" by (simp add: c)
  note parse_page_events [OF v this, of handle s]
  ultimately show ?thesis
    using assms(2) by (auto split: prod.splits option.splits)
qed

subsection \<open>Reading the segments\<close>

lemma ReadSegment_page:
  assumes "fr_pos fr = 0" "int (length (fr_content fr)) \<le> kWalPageSize"
  shows "ReadSegment on_page fr seg s =
    (if fr_content fr = [] then Inr s
     else case on_page \<lparr>segment_no = seg, page_no = 0\<rparr> (fr_content fr) s of
       (s', None) \<Rightarrow> Inr s' | (s', Some e) \<Rightarrow> if e = OutOfBounds then Inl OutOfBounds else Inr s')"
proof (cases "fr_content fr = []")
  case True
  with assms show ?thesis by (subst ReadSegment.simps) (simp add: fr_Read_def kWalPageSize_def)
next
  case False
  have n: "nat kWalPageSize \<noteq> 0" by (simp add: kWalPageSize_def)
  let ?fr = "fr\<lparr>fr_pos := length (fr_content fr)\<rparr>"
  have r: "fr_Read fr (nat kWalPageSize) = Inr (fr_content fr, ?fr)"
    using assms False by (simp add: fr_Read_def le_nat_iff Let_def)
  have "ReadSegment on_page ?fr seg s' = Inr s'" for s'
    using n by (subst ReadSegment.simps) (simp add: fr_Read_def)
  with False r show ?thesis by (subst ReadSegment.simps) (auto split: prod.split option.split)
qed

lemma ReadSegment_events:
  assumes h: "holds_events c evs" and ub: "snd (handle_all (handle seg) evs s) \<noteq> Some OutOfBounds"
  shows "ReadSegment (\<lambda>pos buf. parse_page (handle (segment_no pos)) (BufferReader buf))
      \<lparr>fr_path = p, fr_content = c, fr_pos = 0\<rparr> seg s = Inr (fst (handle_all (handle seg) evs s))"
proof (cases "c = []")
  case True
  have "evs = []"
  proof (cases evs)
    case (Cons ev evs')
    with h True length_event_bytes [of ev] show ?thesis by (auto simp: holds_events_def)
  qed simp
  with True h show ?thesis by (subst ReadSegment_page) (auto simp: holds_events_def)
next
  case False
  with parse_page_file [OF h ub] h show ?thesis
    by (subst ReadSegment_page) (auto simp: holds_events_def split: prod.split option.split)
qed

lemma GetSegmentNo_numbered: "i < 10000 \<Longrightarrow> GetSegmentNoFromName (numbered_name ''.wal.sdb'' i) = int i"
  using stoll_fmt04d [of "int i" "''.wal.sdb''"]
  by (simp add: GetSegmentNoFromName_def numbered_name_def is_digit_def)

lemma ReadSegments_events:
  assumes "list_all2 (\<lambda>(i, c) evs. i < 10000 \<and> map_of d (numbered_path dir ''.wal.sdb'' i) = Some c \<and> holds_events c evs) xs evss"
    and "\<And>seg. no_ub (handle seg)"
  shows "ReadSegments (\<lambda>pos buf. parse_page (handle (segment_no pos)) (BufferReader buf)) d dir
      (map (numbered_name ''.wal.sdb'') (map fst xs)) s =
    Inr (foldl (\<lambda>s (i, evs). fst (handle_all (handle (int i)) evs s)) s (zip (map fst xs) evss))"
  using assms(1)
proof (induction arbitrary: s rule: list_all2_induct)
  case (Cons x xs evs evss)
  obtain i c where x: "x = (i, c)" by (cases x)
  with Cons have "fr_Open d (dir @ ''/'' @ numbered_name ''.wal.sdb'' i) =
      Inr \<lparr>fr_path = dir @ ''/'' @ numbered_name ''.wal.sdb'' i, fr_content = c, fr_pos = 0\<rparr>"
    and h: "holds_events c evs" "i < 10000" by (auto simp: fr_Open_def numbered_path_def)
  with Cons.IH show ?case
    by (simp add: x GetSegmentNo_numbered ReadSegment_events [of c evs handle "int i", OF h(1) handle_all_no_ub [OF assms(2)]])
qed simp

definition wal_holds :: "disk \<Rightarrow> string \<Rightarrow> (nat \<times> bytes) list \<Rightarrow> event list list \<Rightarrow> bool" where
  "wal_holds d dir xs evss \<longleftrightarrow>
     dir_holds d dir ''.wal.sdb'' xs \<and> (\<forall>i \<in> fst ` set xs. i < 10000) \<and>
     list_all2 (\<lambda>x evs. holds_events (snd x) evs) xs evss"

lemma segments_at:
  assumes dir: "dir_holds d dir ''.wal.sdb'' xs" and lt: "\<forall>i \<in> fst ` set xs. i < 10000" and P: "list_all2 (\<lambda>x evs. P (snd x) evs) xs evss"
  shows "list_all2 (\<lambda>(i, c) evs. i < 10000 \<and> map_of d (numbered_path dir ''.wal.sdb'' i) = Some c \<and> P c evs) xs evss"
proof (rule list_all2_all_nthI)
  show "length xs = length evss" using P by (rule list_all2_lengthD)
  fix n
  assume n: "n < length xs"
  then have "xs ! n \<in> set xs" by simp
  moreover have "P (snd (xs ! n)) (evss ! n)" using list_all2_nthD [OF P n] .
  ultimately show "(case xs ! n of (i, c) \<Rightarrow> \<lambda>evs. i < 10000 \<and> map_of d (numbered_path dir ''.wal.sdb'' i) = Some c \<and> P c evs) (evss ! n)"
    using dir lt by (auto simp: dir_holds_def split: prod.split)
qed

lemma wal_holds_segments:
  assumes wal: "wal_holds d dir xs evss"
  shows "sort (io_ListDirectory d dir) = map (numbered_name ''.wal.sdb'') (map fst xs)"
    and "list_all2 (\<lambda>(i, c) evs. i < 10000 \<and> map_of d (numbered_path dir ''.wal.sdb'' i) = Some c \<and> holds_events c evs) xs evss"
  using wal dir_holds_listing [of d dir "''.wal.sdb''" xs] segments_at [of d dir xs holds_events evss] by (simp_all add: wal_holds_def)

lemma Reader_Read_sorted:
  "sort (io_ListDirectory d dir) = segments \<Longrightarrow> Reader_Read on_page d dir s = ReadSegments on_page d dir segments s"
  by (auto simp: Reader_Read_def Let_def)

lemma Reader_Read_segments:
  "wal_holds d dir xs evss \<Longrightarrow>
   Reader_Read on_page d dir s = ReadSegments on_page d dir (map (numbered_name ''.wal.sdb'') (map fst xs)) s"
  by (rule Reader_Read_sorted [OF wal_holds_segments(1)])

lemma Reader_Read_events:
  assumes wal: "wal_holds d dir xs evss" and ub: "\<And>seg. no_ub (handle seg)"
  shows "Reader_Read (\<lambda>pos buf. parse_page (handle (segment_no pos)) (BufferReader buf)) d dir s =
    Inr (foldl (\<lambda>s (i, evs). fst (handle_all (handle (int i)) evs s)) s (zip (map fst xs) evss))"
  using ReadSegments_events [OF wal_holds_segments(2) [OF wal] ub] by (simp add: Reader_Read_segments [OF wal])

text \<open>A strategy that handles every event of the log without an error has handled all of them in order.\<close>

lemma handle_all_append:
  "handle_all handle (evs @ evs') s =
     (case handle_all handle evs s of (s', None) \<Rightarrow> handle_all handle evs' s' | (s', Some e) \<Rightarrow> (s', Some e))"
  by (induction evs arbitrary: s) (auto split: sum.split)

lemma ReadSegments_total:
  assumes "list_all2 (\<lambda>(i, c) evs. i < 10000 \<and> map_of d (numbered_path dir ''.wal.sdb'' i) = Some c \<and> holds_events c evs) xs evss"
    and "handle_all handle (concat evss) s = (s', None)"
  shows "ReadSegments (\<lambda>pos buf. parse_page handle (BufferReader buf)) d dir (map (numbered_name ''.wal.sdb'') (map fst xs)) s = Inr s'"
  using assms
proof (induction arbitrary: s rule: list_all2_induct)
  case (Cons x xs evs evss)
  obtain i c where x: "x = (i, c)" by (cases x)
  with Cons have "fr_Open d (dir @ ''/'' @ numbered_name ''.wal.sdb'' i) =
      Inr \<lparr>fr_path = dir @ ''/'' @ numbered_name ''.wal.sdb'' i, fr_content = c, fr_pos = 0\<rparr>"
    and h: "holds_events c evs" "i < 10000" by (auto simp: fr_Open_def numbered_path_def)
  moreover obtain s1 where s1: "handle_all handle evs s = (s1, None)" "handle_all handle (concat evss) s1 = (s', None)"
    using Cons.prems by (auto simp: handle_all_append split: prod.splits option.splits)
  moreover have "ReadSegment (\<lambda>pos buf. parse_page handle (BufferReader buf))
      \<lparr>fr_path = dir @ ''/'' @ numbered_name ''.wal.sdb'' i, fr_content = c, fr_pos = 0\<rparr> (int i) s = Inr s1"
    using ReadSegment_events [OF h(1), of "\<lambda>_. handle" "int i" s] s1(1) by simp
  ultimately show ?case using Cons.IH by (simp add: x GetSegmentNo_numbered)
qed simp

lemma Recover_total:
  assumes "wal_holds d dir xs evss" "handle_all ev_Apply (concat evss) s = (s', None)"
  shows "Recover ev_Apply d dir s = Inr s'"
  using ReadSegments_total [OF wal_holds_segments(2) [OF assms(1)] assms(2)]
  by (simp add: Recover_def RecoveryStrategy_def [abs_def] Reader_Read_segments [OF assms(1)])

subsection \<open>What the writer leaves on disk\<close>

text \<open>A complete page: its events, padded with zeros.\<close>

definition segment_image :: "event list \<Rightarrow> bytes" where
  "segment_image evs =
     events_bytes evs @ replicate (nat kWalPageSize - length (events_bytes evs)) (CHR 0x00)"

definition small_event :: "event \<Rightarrow> bool" where
  "small_event ev \<longleftrightarrow> valid_event ev \<and> int (length (event_bytes ev)) \<le> kWalPageSize"

text \<open>How the events are distributed over pages; \<open>cur\<close> is what is on the current page.\<close>

fun wal_pages :: "event list \<Rightarrow> event list \<Rightarrow> event list list" where
  "wal_pages cur [] = [cur]"
| "wal_pages cur (ev # evs) =
     (if int (length (events_bytes cur)) + int (length (event_bytes ev)) > kWalPageSize
      then cur # wal_pages [ev] evs else wal_pages (cur @ [ev]) evs)"

definition ww_rep :: "disk \<Rightarrow> wal_writer \<Rightarrow> string \<Rightarrow> (nat \<times> bytes) list \<Rightarrow> nat \<Rightarrow> event list \<Rightarrow> bool" where
  "ww_rep d w dir xs n cur \<longleftrightarrow>
     dir_holds d dir ''.wal.sdb'' (xs @ [(n, events_bytes cur)]) \<and>
     ww_wal_dir_path w = dir \<and> ww_segment_no w = int n \<and> ww_pages_in_segment w = 0 \<and>
     ww_page_size w = int (length (events_bytes cur)) \<and>
     fw_path (ww_segment_writer w) = numbered_path dir ''.wal.sdb'' n \<and>
     fw_content (ww_segment_writer w) = events_bytes cur \<and> fw_append (ww_segment_writer w)"

lemma segment_path_numbered: "segment_path dir (int n) = numbered_path dir ''.wal.sdb'' n"
  by (simp add: segment_path_def numbered_path_def numbered_name_def)

lemma concat_wal_pages: "concat (wal_pages cur evs) = cur @ evs"
  by (induction cur evs rule: wal_pages.induct) auto

lemma wal_pages_not_Nil [simp]: "wal_pages cur evs \<noteq> []"
  by (induction cur evs rule: wal_pages.induct) auto

lemma fw_Write_frame [simp]: "fw_path (fw_Write fw bs) = fw_path fw" "fw_append (fw_Write fw bs) = fw_append fw"
  by (simp_all add: fw_Write_def Let_def)

lemma dir_holds_FSync:
  assumes ok: "dir_holds d dir sfx (xs @ [(n, c0)])" and p: "fw_path fw = numbered_path dir sfx n"
  shows "dir_holds (fw_FSync fw d) dir sfx (xs @ [(n, fw_content fw)])"
proof -
  have "map_of d (fw_path fw) = Some c0" using ok by (simp add: dir_holds_def p)
  then have "fw_path fw \<in> fst ` set d" by (simp add: in_fst_set_conv)
  then show ?thesis
    using ok by (intro dir_holds_update_last [OF ok])
      (simp_all add: fw_FSync_def distinct_update dir_holds_def p update_conv')
qed

lemma ww_append:
  assumes rep: "ww_rep d w dir xs n cur"
  shows "ww_rep (fw_FSync (fw_Write (ww_segment_writer w) (event_bytes ev)) d)
    (w\<lparr>ww_segment_writer := fw_Write (ww_segment_writer w) (event_bytes ev),
       ww_page_size := ww_page_size w + int (length (event_bytes ev))\<rparr>) dir xs n (cur @ [ev])"
  using rep dir_holds_FSync [of d dir "''.wal.sdb''" xs n "events_bytes cur" "fw_Write (ww_segment_writer w) (event_bytes ev)"]
  by (auto simp: ww_rep_def fw_Write_append)

lemma dir_holds_OpenSegment:
  assumes ok: "dir_holds d dir ''.wal.sdb'' xs" and n: "\<forall>i \<in> fst ` set xs. i < n"
    and w: "ww_wal_dir_path w = dir" "ww_segment_no w = int n" "ww_page_size w = 0"
    and op: "ww_OpenSegment d w = (d', w')"
  shows "ww_rep d' w' dir xs n []"
proof -
  let ?p = "numbered_path dir ''.wal.sdb'' n"
  have "\<not> ?p \<in> fst ` set d"
  proof
    assume a: "?p \<in> fst ` set d"
    have "in_directory dir ?p" by (rule in_directory_numbered) simp
    with a ok obtain i where "i \<in> fst ` set xs" "?p = numbered_path dir ''.wal.sdb'' i"
      unfolding dir_holds_def by blast
    then show False using n by auto
  qed
  then have none: "map_of d ?p = None" by (simp add: in_fst_set_conv)
  have d': "d' = AList.update ?p [] d" and w': "w' = w\<lparr>ww_pages_in_segment := 0,
      ww_segment_writer := \<lparr>fw_path = ?p, fw_content = [], fw_pos = 0, fw_append = True\<rparr>\<rparr>"
    using op by (auto simp: ww_OpenSegment_def fw_Open_def Let_def w segment_path_numbered none)
  have "dir_holds d' dir ''.wal.sdb'' (xs @ [(n, [])])"
    using ok n by (intro dir_holds_snoc [OF ok]) (auto simp: d' dir_holds_def distinct_update update_conv')
  then show ?thesis by (simp add: ww_rep_def w' w)
qed

lemma ww_FlushPage_rep:
  assumes rep: "ww_rep d w dir xs n cur" and ne: "cur \<noteq> []" and le: "int (length (events_bytes cur)) \<le> kWalPageSize"
    and fl: "ww_FlushPage d w = (d', w')"
  shows "ww_rep d' w' dir (xs @ [(n, segment_image cur)]) (Suc n) []"
proof -
  define fw where "fw = (if ww_page_size w < kWalPageSize
    then fw_Write (ww_segment_writer w) (replicate (nat (kWalPageSize - ww_page_size w)) (CHR 0x00)) else ww_segment_writer w)"
  have "0 < length (events_bytes cur)" using ne length_event_bytes [of "hd cur"] by (cases cur) auto
  then have nz: "ww_page_size w \<noteq> 0" using rep by (simp add: ww_rep_def)
  have fw: "fw_path fw = numbered_path dir ''.wal.sdb'' n" "fw_content fw = segment_image cur"
    using rep le by (auto simp: fw_def ww_rep_def fw_Write_append segment_image_def nat_diff_distrib')
  have "dir_holds (fw_FSync fw d) dir ''.wal.sdb'' (xs @ [(n, segment_image cur)])"
    using dir_holds_FSync [of d dir "''.wal.sdb''" xs n "events_bytes cur" fw] rep fw by (simp add: ww_rep_def)
  moreover have "ww_OpenSegment (fw_FSync fw d) (w\<lparr>ww_segment_writer := fw, ww_page_size := 0,
      ww_pages_in_segment := ww_pages_in_segment w + 1, ww_segment_no := int (Suc n)\<rparr>) = (d', w')"
    using fl nz rep by (simp add: ww_FlushPage_def ww_FlushSegment_def kMaxPagesInSegment_def ww_rep_def fw_def [symmetric] Let_def add.commute)
  moreover have "\<forall>i \<in> fst ` set (xs @ [(n, segment_image cur)]). i < Suc n"
    using rep by (auto simp: ww_rep_def dir_holds_def sorted_wrt_append)
  ultimately show ?thesis using rep by (intro dir_holds_OpenSegment) (simp_all add: ww_rep_def)
qed

text \<open>The files of a list of complete pages, numbered from \<open>n\<close>.\<close>

fun page_files :: "nat \<Rightarrow> event list list \<Rightarrow> (nat \<times> bytes) list" where
  "page_files n [] = []"
| "page_files n (p # ps) = (n, segment_image p) # page_files (Suc n) ps"

lemma ww_WriteAll_rep:
  assumes "ww_rep d w dir xs n cur" "list_all small_event evs" "int (length (events_bytes cur)) \<le> kWalPageSize"
    and "ww_WriteAll d w evs = (d', w')"
  shows "ww_rep d' w' dir (xs @ page_files n (butlast (wal_pages cur evs)))
    (n + length (butlast (wal_pages cur evs))) (last (wal_pages cur evs))"
  using assms
proof (induction evs arbitrary: d w xs n cur)
  case (Cons ev evs)
  obtain d1 w1 where w1: "ww_Write d w ev = (d1, w1)" by fastforce
  then have all: "ww_WriteAll d1 w1 evs = (d', w')" "list_all small_event evs" using Cons.prems by auto
  have bytes: "bw_Extract (FlushEvent BufferWriter ev) = event_bytes ev" by (rule event_codec.extract_put)
  have sz: "ww_page_size w = int (length (events_bytes cur))" using Cons.prems(1) by (simp add: ww_rep_def)
  show ?case
  proof (cases "int (length (events_bytes cur)) + int (length (event_bytes ev)) > kWalPageSize")
    case False
    then have "ww_rep d1 w1 dir xs n (cur @ [ev])"
      using w1 ww_append [OF Cons.prems(1), of ev] by (auto simp: ww_Write_def bytes sz Let_def)
    from Cons.IH [OF this all(2) _ all(1)] False show ?thesis by simp
  next
    case True
    have ne: "cur \<noteq> []" using True Cons.prems(2) by (auto simp: small_event_def)
    obtain d2 w2 where fl: "ww_FlushPage d w = (d2, w2)" by fastforce
    from ww_FlushPage_rep [OF Cons.prems(1) ne Cons.prems(3) fl] have
      "ww_rep d2 w2 dir (xs @ [(n, segment_image cur)]) (Suc n) []" .
    from ww_append [OF this, of ev] w1 fl True have r1: "ww_rep d1 w1 dir (xs @ [(n, segment_image cur)]) (Suc n) [ev]"
      by (auto simp: ww_Write_def bytes sz Let_def)
    have "int (length (events_bytes [ev])) \<le> kWalPageSize" using Cons.prems(2) by (simp add: small_event_def)
    from Cons.IH [OF r1 all(2) this all(1)] True show ?thesis by (cases "wal_pages [ev] evs") simp_all
  qed
qed simp

lemma Writer_Open_rep:
  assumes wal: "wal_holds d dir xs evss" and op: "Writer_Open d dir = (d0, w0)"
  shows "ww_rep d0 w0 dir xs (if xs = [] then 0 else Suc (fst (last xs))) []"
proof -
  let ?n = "if xs = [] then 0 else Suc (fst (last xs))"
  have ok: "dir_holds d dir ''.wal.sdb'' xs" and few: "\<forall>i \<in> fst ` set xs. i < 10000"
    using wal by (auto simp: wal_holds_def)
  have list: "sort (io_ListDirectory d dir) = map (numbered_name ''.wal.sdb'') (map fst xs)"
    using ok few by (intro dir_holds_listing) simp_all
  then have no: "(if sort (io_ListDirectory d dir) \<noteq> [] then GetSegmentNoFromName (last (sort (io_ListDirectory d dir))) + 1 else 0) = int ?n"
    using few by (cases xs rule: rev_cases) (auto simp: GetSegmentNo_numbered last_map)
  have "\<forall>i \<in> fst ` set xs. i < ?n"
    using ok by (cases xs rule: rev_cases) (auto simp: dir_holds_def sorted_wrt_append less_Suc_eq)
  with ok op show ?thesis
    unfolding Writer_Open_def Let_def no by (intro dir_holds_OpenSegment) simp_all
qed

text \<open>Pages that are padded with no zeros or with at least eight.\<close>

definition well_padded :: "event list \<Rightarrow> bool" where
  "well_padded evs \<longleftrightarrow> int (length (events_bytes evs)) = kWalPageSize \<or> int (length (events_bytes evs)) + 8 \<le> kWalPageSize"

lemma wal_pages_fit:
  "list_all small_event evs \<Longrightarrow> list_all valid_event cur \<Longrightarrow> int (length (events_bytes cur)) \<le> kWalPageSize \<Longrightarrow>
   \<forall>p \<in> set (wal_pages cur evs). list_all valid_event p \<and> int (length (events_bytes p)) \<le> kWalPageSize"
  by (induction cur evs rule: wal_pages.induct) (auto simp: small_event_def)

lemma holds_events_segment:
  assumes "list_all valid_event p" "int (length (events_bytes p)) \<le> kWalPageSize" "well_padded p"
  shows "holds_events (segment_image p) p"
  unfolding holds_events_def using assms
  by (auto simp: segment_image_def well_padded_def intro!: exI [of _ "nat kWalPageSize - length (events_bytes p)"])

lemma page_files_events:
  "\<forall>p \<in> set ps. list_all valid_event p \<and> int (length (events_bytes p)) \<le> kWalPageSize \<and> well_padded p \<Longrightarrow>
   list_all2 (\<lambda>x evs. holds_events (snd x) evs) (page_files n ps) ps"
  by (induction ps arbitrary: n) (auto intro: holds_events_segment)

lemma fst_page_files: "fst ` set (page_files n ps) = {n..<n + length ps}"
  by (induction ps arbitrary: n) auto

text \<open>
  The log while its writer is open: the events \<open>old\<close> that were there before, and the events
  \<open>evs\<close> written since, in segments from number \<open>n\<close> on.
\<close>

definition wal_at :: "disk \<Rightarrow> wal_writer \<Rightarrow> string \<Rightarrow> nat \<Rightarrow> event list \<Rightarrow> event list \<Rightarrow> bool" where
  "wal_at d w dir n old evs \<longleftrightarrow>
     list_all small_event evs \<and>
     (\<exists>xs evss. (\<forall>i \<in> fst ` set xs. i < n) \<and> list_all2 (\<lambda>x evs. holds_events (snd x) evs) xs evss \<and> concat evss = old \<and>
        ww_rep d w dir (xs @ page_files n (butlast (wal_pages [] evs))) (n + length (butlast (wal_pages [] evs)))
          (last (wal_pages [] evs)))"

lemma wal_at_open:
  assumes wal: "wal_holds d dir xs evss" and op: "Writer_Open d dir = (d0, w0)"
  shows "wal_at d0 w0 dir (if xs = [] then 0 else Suc (fst (last xs))) (concat evss) []"
proof -
  have "\<forall>i \<in> fst ` set xs. i < (if xs = [] then 0 else Suc (fst (last xs)))"
    using wal by (cases xs rule: rev_cases) (auto simp: wal_holds_def dir_holds_def sorted_wrt_append less_Suc_eq)
  with Writer_Open_rep [OF wal op] wal show ?thesis
    by (auto simp: wal_at_def wal_holds_def intro!: exI [of _ xs] exI [of _ evss])
qed

lemma wal_pages_snoc:
  "wal_pages cur (evs @ [ev]) =
     (if int (length (events_bytes (last (wal_pages cur evs)))) + int (length (event_bytes ev)) > kWalPageSize
      then wal_pages cur evs @ [[ev]] else butlast (wal_pages cur evs) @ [last (wal_pages cur evs) @ [ev]])"
  by (induction cur evs rule: wal_pages.induct) auto

lemma page_files_append: "page_files n (ps @ qs) = page_files n ps @ page_files (n + length ps) qs"
  by (induction ps arbitrary: n) simp_all

lemma small_pages_fit:
  "list_all small_event evs \<Longrightarrow> p \<in> set (wal_pages [] evs) \<Longrightarrow> list_all valid_event p \<and> int (length (events_bytes p)) \<le> kWalPageSize"
  using wal_pages_fit [of evs "[]"] by (simp add: kWalPageSize_def)

lemma wal_at_Write:
  assumes at: "wal_at d w dir n old evs" and small: "small_event ev" and wr: "ww_Write d w ev = (d', w')"
  shows "wal_at d' w' dir n old (evs @ [ev])"
proof -
  obtain qs cur where ps: "wal_pages [] evs = qs @ [cur]"
    using wal_pages_not_Nil [of "[]" evs] by (cases "wal_pages [] evs" rule: rev_cases) auto
  from at obtain xs evss where xs: "\<forall>i \<in> fst ` set xs. i < n" "list_all2 (\<lambda>x evs. holds_events (snd x) evs) xs evss" "concat evss = old"
    and evs: "list_all small_event evs" and rep: "ww_rep d w dir (xs @ page_files n qs) (n + length qs) cur"
    by (auto simp: wal_at_def ps)
  have "int (length (events_bytes cur)) \<le> kWalPageSize" using small_pages_fit [OF evs, of cur] by (simp add: ps)
  from ww_WriteAll_rep [OF rep _ this, of "[ev]"] small wr have
    "ww_rep d' w' dir (xs @ page_files n qs @ page_files (n + length qs) (butlast (wal_pages cur [ev])))
       (n + length qs + length (butlast (wal_pages cur [ev]))) (last (wal_pages cur [ev]))" by simp
  then have "ww_rep d' w' dir (xs @ page_files n (butlast (wal_pages [] (evs @ [ev]))))
      (n + length (butlast (wal_pages [] (evs @ [ev])))) (last (wal_pages [] (evs @ [ev])))"
    unfolding wal_pages_snoc ps by (auto simp: page_files_append butlast_append split: if_splits)
  with xs evs small show ?thesis unfolding wal_at_def by auto
qed

lemma wal_at_WriteAll:
  "wal_at d w dir n old evs \<Longrightarrow> list_all small_event evs' \<Longrightarrow> ww_WriteAll d w evs' = (d', w') \<Longrightarrow> wal_at d' w' dir n old (evs @ evs')"
proof (induction evs' arbitrary: d w evs)
  case (Cons ev evs')
  obtain d1 w1 where w1: "ww_Write d w ev = (d1, w1)" by (rule prod.exhaust)
  with Cons.prems wal_at_Write [OF Cons.prems(1) _ w1] Cons.IH [of d1 w1 "evs @ [ev]"] show ?case by simp
qed simp

lemma wal_at_frame:
  assumes "wal_at d w dir n old evs" "same_in dir d d'" "distinct (map fst d')"
  shows "wal_at d' w dir n old evs"
proof -
  have "ww_rep d' w dir xs m cur" if "ww_rep d w dir xs m cur" for xs m cur
    using that dir_holds_frame [OF _ assms(2,3)] by (auto simp: ww_rep_def)
  with assms(1) show ?thesis unfolding wal_at_def by blast
qed

text \<open>The writer touches only the directory of the log.\<close>

lemma in_directory_segment: "in_directory dir (segment_path dir (int n))"
  by (simp add: segment_path_numbered in_directory_numbered)

lemma only_in_FSync: "in_directory dir (fw_path fw) \<Longrightarrow> only_in dir d (fw_FSync fw d)"
  by (simp add: fw_FSync_def only_in_update)

lemma only_in_OpenSegment:
  "ww_wal_dir_path w = dir \<Longrightarrow> ww_segment_no w = int n \<Longrightarrow> only_in dir d (fst (ww_OpenSegment d w))"
  using in_directory_segment [of dir n] by (simp add: ww_OpenSegment_def fw_Open_def Let_def only_in_update)

lemma only_in_FlushPage:
  assumes "ww_rep d w dir xs n cur"
  shows "only_in dir d (fst (ww_FlushPage d w)) \<and> in_directory dir (fw_path (ww_segment_writer (snd (ww_FlushPage d w))))"
proof -
  have w: "in_directory dir (fw_path (ww_segment_writer w))" "ww_wal_dir_path w = dir" "ww_segment_no w = int n"
    using assms in_directory_numbered [of "''.wal.sdb''" dir n] by (simp_all add: ww_rep_def)
  define fw where "fw = (if ww_page_size w < kWalPageSize
    then fw_Write (ww_segment_writer w) (replicate (nat (kWalPageSize - ww_page_size w)) (CHR 0x00)) else ww_segment_writer w)"
  define w1 where "w1 = w\<lparr>ww_segment_writer := fw, ww_page_size := 0, ww_pages_in_segment := ww_pages_in_segment w + 1\<rparr>"
  let ?w2 = "w1\<lparr>ww_segment_no := int (Suc n)\<rparr>" and ?d1 = "fw_FSync fw d"
  have fl: "ww_FlushPage d w = (if ww_page_size w = 0 then (d, w)
      else if ww_pages_in_segment w1 \<ge> kMaxPagesInSegment then ww_OpenSegment ?d1 ?w2 else (?d1, w1))"
    by (simp add: ww_FlushPage_def ww_FlushSegment_def Let_def fw_def [symmetric] w1_def w add.commute)
  have p: "in_directory dir (fw_path fw)" using w by (simp add: fw_def)
  have "only_in dir ?d1 (fst (ww_OpenSegment ?d1 ?w2))"
    using w by (intro only_in_OpenSegment [of _ _ "Suc n"]) (simp_all add: w1_def)
  moreover have "in_directory dir (fw_path (ww_segment_writer (snd (ww_OpenSegment ?d1 ?w2))))"
    using in_directory_segment [of dir "Suc n"] w by (simp add: ww_OpenSegment_def fw_Open_def Let_def w1_def del: of_nat_Suc)
  moreover note only_in_FSync [OF p, of d]
  ultimately show ?thesis using w p by (auto simp: fl w1_def intro: only_in_trans)
qed

lemma only_in_Write:
  assumes "wal_at d w dir n old evs" "ww_Write d w ev = (d', w')"
  shows "only_in dir d d'"
proof -
  from assms(1) obtain xs m cur where rep: "ww_rep d w dir xs m cur" by (auto simp: wal_at_def)
  then have w: "in_directory dir (fw_path (ww_segment_writer w))"
    using in_directory_numbered [of "''.wal.sdb''" dir m] by (simp add: ww_rep_def)
  from assms(2) only_in_FlushPage [OF rep] w show ?thesis
    by (auto simp: ww_Write_def Let_def split_beta split: if_splits
        intro: only_in_FSync only_in_trans [OF _ only_in_FSync])
qed

lemma only_in_Writer_Open:
  assumes wal: "wal_holds d dir xs evss"
  shows "only_in dir d (fst (Writer_Open d dir))"
proof -
  have "\<exists>n. (if sort (io_ListDirectory d dir) \<noteq> [] then GetSegmentNoFromName (last (sort (io_ListDirectory d dir))) + 1 else 0) = int n"
    using wal unfolding wal_holds_segments(1) [OF wal]
    by (cases xs rule: rev_cases) (auto simp: GetSegmentNo_numbered wal_holds_def intro: exI [of _ "Suc n" for n])
  then show ?thesis unfolding Writer_Open_def Let_def by (auto intro!: only_in_OpenSegment)
qed

text \<open>What a reader finds.\<close>

lemma wal_at_segment_no: "wal_at d w dir n old evs \<Longrightarrow> ww_segment_no w = int n + int (length (wal_pages [] evs)) - 1"
  by (cases "wal_pages [] evs" rule: rev_cases) (auto simp: wal_at_def ww_rep_def)

lemma wal_at_segments:
  assumes at: "wal_at d w dir n old evs" and few: "n + length (wal_pages [] evs) \<le> 10000"
  shows "\<exists>xs evss. (\<forall>i \<in> fst ` set xs. i < n) \<and> concat evss = old \<and> list_all2 (\<lambda>x evs. holds_events (snd x) evs) xs evss \<and>
    (let ys = xs @ page_files n (butlast (wal_pages [] evs)) @ [(n + length (butlast (wal_pages [] evs)), events_bytes (last (wal_pages [] evs)))]
     in dir_holds d dir ''.wal.sdb'' ys \<and> (\<forall>i \<in> fst ` set ys. i < 10000)) \<and>
    holds_events (events_bytes (last (wal_pages [] evs))) (last (wal_pages [] evs))"
proof -
  let ?ps = "wal_pages [] evs"
  let ?ys = "page_files n (butlast ?ps) @ [(n + length (butlast ?ps), events_bytes (last ?ps))]"
  from at obtain xs evss where xs: "\<forall>i \<in> fst ` set xs. i < n" "list_all2 (\<lambda>x evs. holds_events (snd x) evs) xs evss" "concat evss = old"
    and evs: "list_all small_event evs"
    and rep: "ww_rep d w dir (xs @ page_files n (butlast ?ps)) (n + length (butlast ?ps)) (last ?ps)" by (auto simp: wal_at_def)
  have len: "n + length (butlast ?ps) < 10000"
    using few by (cases "wal_pages [] evs" rule: rev_cases) simp_all
  have "\<forall>i \<in> fst ` set ?ys. i < 10000"
    unfolding set_append image_Un fst_page_files using len by simp
  then have "\<forall>i \<in> fst ` set (xs @ ?ys). i < 10000"
    using xs(1) len unfolding set_append image_Un by fastforce
  moreover have "dir_holds d dir ''.wal.sdb'' (xs @ ?ys)" using rep by (simp add: ww_rep_def)
  moreover have "holds_events (events_bytes (last ?ps)) (last ?ps)"
    using small_pages_fit [OF evs, of "last ?ps"] by (auto simp: holds_events_def intro: exI [of _ 0])
  ultimately show ?thesis unfolding Let_def using xs by blast
qed

lemma wal_at_files:
  assumes at: "wal_at d w dir n old evs" and pad: "list_all well_padded (butlast (wal_pages [] evs))"
    and few: "n + length (wal_pages [] evs) \<le> 10000"
  shows "\<exists>xs evss. (\<forall>i \<in> fst ` set xs. i < n) \<and> concat evss = old \<and>
    wal_holds d dir (xs @ page_files n (butlast (wal_pages [] evs)) @ [(n + length (butlast (wal_pages [] evs)), events_bytes (last (wal_pages [] evs)))])
      (evss @ wal_pages [] evs)"
proof -
  let ?ps = "wal_pages [] evs"
  let ?ys = "page_files n (butlast ?ps) @ [(n + length (butlast ?ps), events_bytes (last ?ps))]"
  from wal_at_segments [OF at few] obtain xs evss where xs: "\<forall>i \<in> fst ` set xs. i < n"
      "list_all2 (\<lambda>x evs. holds_events (snd x) evs) xs evss" "concat evss = old"
    and dir: "dir_holds d dir ''.wal.sdb'' (xs @ ?ys)" "\<forall>i \<in> fst ` set (xs @ ?ys). i < 10000"
    and last: "holds_events (events_bytes (last ?ps)) (last ?ps)" unfolding Let_def by blast
  have "list_all small_event evs" using at by (simp add: wal_at_def)
  then have "list_all2 (\<lambda>x evs. holds_events (snd x) evs) (page_files n (butlast ?ps)) (butlast ?ps)"
    using small_pages_fit pad by (intro page_files_events) (auto simp: list_all_iff dest: in_set_butlastD)
  with last have "list_all2 (\<lambda>x evs. holds_events (snd x) evs) ?ys (butlast ?ps @ [last ?ps])"
    by (intro list_all2_appendI) simp_all
  then have "list_all2 (\<lambda>x evs. holds_events (snd x) evs) (xs @ ?ys) (evss @ ?ps)"
    using xs(2) by (intro list_all2_appendI) simp_all
  with dir have "wal_holds d dir (xs @ ?ys) (evss @ ?ps)" by (simp only: wal_holds_def)
  then show ?thesis using xs(1,3) by blast
qed

lemma wal_at_holds:
  assumes "wal_at d w dir n old evs" "list_all well_padded (butlast (wal_pages [] evs))" "n + length (wal_pages [] evs) \<le> 10000"
  shows "\<exists>xs evss. wal_holds d dir xs evss \<and> concat evss = old @ evs"
proof -
  from wal_at_files [OF assms] obtain xs evss where "wal_holds d dir xs (evss @ wal_pages [] evs)" "concat evss = old" by blast
  moreover from this have "concat (evss @ wal_pages [] evs) = old @ evs" by (simp add: concat_wal_pages)
  ultimately show ?thesis by blast
qed

text \<open>
  C7. The log loses nothing and keeps the order: opening the log of a directory and writing
  events, across page and segment boundaries, leaves a directory from which recovery reads
  exactly the events that were there before followed by the events written, in order. Events
  fit into a page, no page is left with one to seven bytes of padding, and the segment
  numbers have four digits.
\<close>

theorem wal_write_then_recover:
  assumes "wal_holds d dir xs evss" and "Writer_Open d dir = (d0, w0)" and "ww_WriteAll d0 w0 evs = (d', w')"
    and "list_all small_event evs" and "list_all well_padded (butlast (wal_pages [] evs))"
    and "(if xs = [] then 0 else Suc (fst (last xs))) + length (wal_pages [] evs) \<le> 10000"
  shows "Recover (\<lambda>ev acc. Inr (acc @ [ev])) d' dir [] = Inr (concat evss @ evs)"
proof -
  from wal_at_WriteAll [OF wal_at_open [OF assms(1,2)] assms(4,3)]
  have at: "wal_at d' w' dir (if xs = [] then 0 else Suc (fst (last xs))) (concat evss) evs" by simp
  from wal_at_holds [OF at assms(5,6)] obtain ys pss where wal: "wal_holds d' dir ys pss" "concat pss = concat evss @ evs" by blast
  have "handle_all (\<lambda>ev acc. Inr (acc @ [ev])) es acc = (acc @ es, None)" for es acc
    by (induction es arbitrary: acc) simp_all
  then have "handle_all (\<lambda>ev acc. Inr (acc @ [ev])) (concat pss) [] = (concat evss @ evs, None)" by (simp add: wal(2))
  then show ?thesis by (rule Recover_total [OF wal(1)])
qed

lemma wal_holds_empty: "wal_holds [] dir [] []"
  by (simp add: wal_holds_def dir_holds_def)

theorem wal_write_then_recover_witness:
  "Recover (\<lambda>ev acc. Inr (acc @ [ev]))
     (fst (ww_WriteAll (fst (Writer_Open [] ''wal'')) (snd (Writer_Open [] ''wal''))
        [LsmStorageUpsertEvent ''t'' 1 ''k'' ''v'', TxStorageCommitEvent 10])) ''wal'' [] =
   Inr (concat [] @ [LsmStorageUpsertEvent ''t'' 1 ''k'' ''v'', TxStorageCommitEvent 10])"
  by (rule wal_write_then_recover [OF wal_holds_empty prod.collapse [symmetric] prod.collapse [symmetric]])
    (simp_all add: small_event_def kWalPageSize_def well_padded_def)

text \<open>
  A complete page with one to seven bytes of padding makes every reader of the log read
  past the end of the page buffer.
\<close>

lemma short_padding_parse:
  assumes v: "list_all valid_event evs" and len: "int (length (events_bytes evs)) \<le> kWalPageSize" "\<not> well_padded evs"
    and all: "handle_all handle evs s = (s', None)"
  shows "parse_page handle (BufferReader (segment_image evs)) s = (s', Some OutOfBounds)"
proof -
  let ?k = "nat kWalPageSize - length (events_bytes evs)"
  let ?rd = "br_advance (length (events_bytes evs)) (BufferReader (segment_image evs))"
  have k: "0 < ?k" "?k < 8" using len by (auto simp: kWalPageSize_def well_padded_def)
  have rest: "br_rest ?rd = replicate ?k (CHR 0x00)" by (simp add: segment_image_def)
  have "parse_page handle ?rd s' = (s', Some OutOfBounds)" for s'
    using k rest ParseEvent_short [of ?rd]
    by (subst parse_page.simps) (auto simp: br_HasMore_iff_rest)
  moreover have "br_rest (BufferReader (segment_image evs)) = events_bytes evs @ replicate ?k (CHR 0x00)"
    by (simp add: segment_image_def)
  note parse_page_events [OF v this, of handle s]
  ultimately show ?thesis using all by simp
qed

text \<open>A reader that comes through the log of a writer has met no such page.\<close>

lemma ReadSegments_padded:
  assumes "list_all2 (\<lambda>(i, c) evs. i < 10000 \<and> map_of d (numbered_path dir ''.wal.sdb'' i) = Some c \<and>
      (holds_events c evs \<or> c = segment_image evs \<and> list_all valid_event evs \<and> int (length (events_bytes evs)) \<le> kWalPageSize)) xs evss"
    and "handle_all handle (concat evss) s = (s', None)"
    and "ReadSegments (\<lambda>pos buf. parse_page handle (BufferReader buf)) d dir (map (numbered_name ''.wal.sdb'') (map fst xs)) s = Inr t"
  shows "list_all2 (\<lambda>x evs. holds_events (snd x) evs) xs evss"
  using assms
proof (induction arbitrary: s rule: list_all2_induct)
  case (Cons x xs evs evss)
  obtain i c where x: "x = (i, c)" by (cases x)
  let ?read = "ReadSegment (\<lambda>pos buf. parse_page handle (BufferReader buf))
      \<lparr>fr_path = dir @ ''/'' @ numbered_name ''.wal.sdb'' i, fr_content = c, fr_pos = 0\<rparr> (int i) s"
  obtain s1 where s1: "handle_all handle evs s = (s1, None)" "handle_all handle (concat evss) s1 = (s', None)"
    using Cons.prems by (auto simp: handle_all_append split: prod.splits option.splits)
  have op: "fr_Open d (dir @ ''/'' @ numbered_name ''.wal.sdb'' i) =
      Inr \<lparr>fr_path = dir @ ''/'' @ numbered_name ''.wal.sdb'' i, fr_content = c, fr_pos = 0\<rparr>" and i: "i < 10000"
    using Cons(1) x by (auto simp: fr_Open_def numbered_path_def)
  have h: "holds_events c evs"
  proof (rule ccontr)
    assume bad: "\<not> holds_events c evs"
    then have c: "c = segment_image evs" "list_all valid_event evs" "int (length (events_bytes evs)) \<le> kWalPageSize"
      using Cons(1) x by auto
    then have np: "\<not> well_padded evs" using bad holds_events_segment by blast
    have "length c = nat kWalPageSize" using c(3) by (simp add: c(1) segment_image_def kWalPageSize_def)
    then have "int (length c) \<le> kWalPageSize" "c \<noteq> []" by (auto simp: kWalPageSize_def)
    then have "?read = Inl OutOfBounds"
      using short_padding_parse [OF c(2,3) np s1(1)] by (subst ReadSegment_page) (simp_all add: c(1))
    with Cons.prems(2) op i show False by (simp add: x GetSegmentNo_numbered)
  qed
  have "?read = Inr s1" using ReadSegment_events [OF h, of "\<lambda>_. handle" "int i" s] s1(1) by simp
  with Cons.IH [OF s1(2)] Cons.prems(2) op i h show ?case by (simp add: x GetSegmentNo_numbered)
qed simp

lemma length_page_files: "length (page_files n ps) = length ps"
  by (induction ps arbitrary: n) auto

lemma wal_at_padded:
  assumes at: "wal_at d w dir n old evs" and few: "n + length (wal_pages [] evs) \<le> 10000"
    and all: "handle_all ev_Apply (old @ evs) s = (s', None)" and rd: "Recover ev_Apply d dir s = Inr t"
  shows "list_all well_padded (butlast (wal_pages [] evs))"
proof -
  let ?ps = "wal_pages [] evs"
  let ?bs = "butlast ?ps"
  from wal_at_segments [OF at few] obtain xs evss ys where xs: "list_all2 (\<lambda>x evs. holds_events (snd x) evs) xs evss" "concat evss = old"
    and ys: "ys = xs @ page_files n ?bs @ [(n + length ?bs, events_bytes (last ?ps))]"
    and dir: "dir_holds d dir ''.wal.sdb'' ys" "\<forall>i \<in> fst ` set ys. i < 10000"
    and last: "holds_events (events_bytes (last ?ps)) (last ?ps)" unfolding Let_def by blast
  let ?P = "\<lambda>c evs. holds_events c evs \<or> c = segment_image evs \<and> list_all valid_event evs \<and> int (length (events_bytes evs)) \<le> kWalPageSize"
  have "list_all small_event evs" using at by (simp add: wal_at_def)
  note fit = small_pages_fit [OF this]
  have "list_all2 (\<lambda>x evs. ?P (snd x) evs) (page_files n ps) ps" if "set ps \<subseteq> set ?ps" for n ps
    using that fit by (induction ps arbitrary: n) auto
  then have "list_all2 (\<lambda>x evs. ?P (snd x) evs) (page_files n ?bs) ?bs" by (meson in_set_butlastD subsetI)
  moreover have "list_all2 (\<lambda>x evs. ?P (snd x) evs) xs evss" by (rule list_all2_mono [OF xs(1)]) simp
  ultimately have P: "list_all2 (\<lambda>x evs. ?P (snd x) evs) ys (evss @ ?bs @ [last ?ps])"
    unfolding ys using last by (intro list_all2_appendI) simp_all
  have "sort (io_ListDirectory d dir) = map (numbered_name ''.wal.sdb'') (map fst ys)" using dir by (intro dir_holds_listing) auto
  note sorted = Reader_Read_sorted [OF this]
  have "ReadSegments (\<lambda>pos buf. parse_page ev_Apply (BufferReader buf)) d dir (map (numbered_name ''.wal.sdb'') (map fst ys)) s = Inr t"
    using rd by (simp only: Recover_def RecoveryStrategy_def [abs_def] sorted)
  moreover have "concat (evss @ ?bs @ [last ?ps]) = old @ evs" using xs(2) concat_wal_pages [of "[]" evs] by simp
  ultimately have "list_all2 (\<lambda>x evs. holds_events (snd x) evs) ys (evss @ ?bs @ [last ?ps])"
    using ReadSegments_padded [OF segments_at [OF dir P]] all by simp
  then have "list_all2 (\<lambda>x evs. holds_events (snd x) evs) (page_files n ?bs) ?bs"
    using list_all2_lengthD [OF xs(1)] by (simp add: ys list_all2_append length_page_files del: append_butlast_last_id)
  moreover have "well_padded p" if "holds_events (segment_image p) p" for p
    using that by (auto simp: holds_events_def segment_image_def well_padded_def)
  then have "list_all2 (\<lambda>x evs. holds_events (snd x) evs) (page_files n ps) ps \<Longrightarrow> list_all well_padded ps" for n ps
    by (induction ps arbitrary: n) auto
  ultimately show ?thesis by blast
qed

subsection \<open>Cleaning\<close>

lemma AccumutaePersistence_lookup:
  "map_of (AccumutaePersistence seg b sp) =
     (map_of sp)(seg \<mapsto> (case map_of sp seg of None \<Rightarrow> b | Some b' \<Rightarrow> b' \<and> b))"
  by (auto simp: AccumutaePersistence_def update_conv' map_add_def fun_eq_iff split: option.split)

lemma cleaner_segment:
  "map_of (fst (handle_all (\<lambda>ev sp. Inr (AccumutaePersistence seg (P ev) sp)) evs sp)) =
     (if evs = [] then map_of sp
      else (map_of sp)(seg \<mapsto> (case map_of sp seg of None \<Rightarrow> list_all P evs | Some b \<Rightarrow> b \<and> list_all P evs)))"
  by (induction evs arbitrary: sp) (auto simp: AccumutaePersistence_lookup fun_eq_iff split: option.split)

lemma cleaner_segments:
  assumes "distinct is" "length is = length evss" "\<forall>i \<in> set is. map_of sp (int i) = None"
  shows "map_of (foldl (\<lambda>sp (i, evs). fst (handle_all (\<lambda>ev sp. Inr (AccumutaePersistence (int i) (P ev) sp)) evs sp)) sp (zip is evss)) k =
    (case map_of (zip (map int is) evss) k of
       None \<Rightarrow> map_of sp k
     | Some evs \<Rightarrow> if evs = [] then None else Some (list_all P evs))"
  using assms(2,1,3)
proof (induction "is" evss arbitrary: sp rule: list_induct2)
  case (Cons i "is" evs evss)
  let ?sp = "fst (handle_all (\<lambda>ev sp. Inr (AccumutaePersistence (int i) (P ev) sp)) evs sp)"
  have "\<forall>i' \<in> set is. map_of ?sp (int i') = None" using Cons.prems by (auto simp: cleaner_segment)
  moreover have "map_of (zip (map int is) evss) (int i) = None"
    using Cons by (simp add: map_of_zip_is_None image_iff)
  ultimately show ?case
    using Cons.IH [of ?sp] Cons.prems by (auto simp: cleaner_segment split: option.split)
qed simp

definition may_delete :: "int option \<Rightarrow> int \<Rightarrow> bool" where
  "may_delete retain_from seg \<longleftrightarrow> (case retain_from of None \<Rightarrow> True | Some from \<Rightarrow> seg < from)"

lemma DeleteObsoleteSegments_lookup:
  "map_of (DeleteObsoleteSegments d dir retain sp) path =
     (if \<exists>seg. (seg, True) \<in> set sp \<and> may_delete retain seg \<and> path = segment_path dir seg then None else map_of d path)"
proof (induction sp arbitrary: d)
  case (Cons x sp)
  obtain seg p where x: "x = (seg, p)" by (cases x)
  have "DeleteObsoleteSegments d dir retain (x # sp) =
      DeleteObsoleteSegments (if p \<and> may_delete retain seg then io_Remove d (segment_path dir seg) else d) dir retain sp"
    by (auto simp: x may_delete_def split: option.split)
  with Cons.IH show ?case by (auto simp: x)
qed simp

lemma segment_path_eq: "segment_path dir (int n) = segment_path dir seg \<longleftrightarrow> seg = int n"
proof (cases "seg < 0")
  case True
  have "list_all is_digit (fmt04d (int n))" by (rule fmt04d_digits) simp
  then have "fmt04d (int n) \<noteq> fmt04d seg" using True by (auto simp: fmt04d_def is_digit_def)
  with True show ?thesis by (simp add: segment_path_def)
qed (simp add: segment_path_def fmt04d_inj eq_commute)

text \<open>Whatever the cleaner finds out about the segments, it removes none that is to be retained.\<close>

lemma wal_Clean_retains:
  assumes "wal_Clean ev_IsPersistent d dir (Some from) = Inr d'" "from \<le> int n"
  shows "map_of d' (segment_path dir (int n)) = map_of d (segment_path dir (int n))"
  using assms by (auto simp: wal_Clean_def bindE_Inr_conv DeleteObsoleteSegments_lookup segment_path_eq may_delete_def)

lemma distinct_AccumutaePersistence: "distinct (map fst sp) \<Longrightarrow> distinct (map fst (AccumutaePersistence seg b sp))"
  by (auto simp: AccumutaePersistence_def distinct_update map_of_eq_None_iff split: option.split)

lemma distinct_cleaner_segment:
  "distinct (map fst sp) \<Longrightarrow>
   distinct (map fst (fst (handle_all (\<lambda>ev sp. Inr (AccumutaePersistence seg (P ev) sp)) evs sp)))"
  by (induction evs arbitrary: sp) (simp_all add: distinct_AccumutaePersistence)

lemma distinct_cleaner_segments:
  "distinct (map fst sp) \<Longrightarrow>
   distinct (map fst (foldl (\<lambda>sp (i, evs). fst (handle_all (\<lambda>ev sp. Inr (AccumutaePersistence (int i) (P ev) sp)) evs sp)) sp xs))"
  by (induction xs arbitrary: sp) (auto simp: distinct_cleaner_segment)

lemma in_zip_int: "(seg, x) \<in> set (zip (map int is) ys) \<longleftrightarrow> (\<exists>i. (i, x) \<in> set (zip is ys) \<and> seg = int i)"
  unfolding zip_map1 by auto

lemma wal_Clean_lookup:
  assumes wal: "wal_holds d dir xs evss" and ub: "\<forall>ev. ev_IsPersistent ev \<noteq> Inl OutOfBounds"
    and total: "\<forall>ev \<in> set (concat evss). ev_IsPersistent ev = Inr (P ev)"
  shows "\<exists>d'. wal_Clean ev_IsPersistent d dir retain_from = Inr d' \<and>
    (\<forall>path. map_of d' path =
      (if \<exists>i evs. (i, evs) \<in> set (zip (map fst xs) evss) \<and> evs \<noteq> [] \<and> list_all P evs \<and>
          may_delete retain_from (int i) \<and> path = segment_path dir (int i)
       then None else map_of d path))"
proof -
  let ?f = "\<lambda>sp (i, evs). fst (handle_all (\<lambda>ev sp. Inr (AccumutaePersistence (int i) (P ev) sp)) evs sp)"
  let ?sp = "foldl ?f [] (zip (map fst xs) evss)"
  have len: "length (map fst xs) = length evss" and dist: "distinct (map fst xs)"
    using wal strict_sorted_iff by (auto simp: wal_holds_def dir_holds_def dest: list_all2_lengthD)
  let ?g = "\<lambda>seg ev sp. bindE (ev_IsPersistent ev) (\<lambda>b. Inr (AccumutaePersistence seg b sp))"
  have "no_ub (?g seg)" for seg using ub by (auto simp: no_ub_def bindE_def split: sum.splits)
  note read = Reader_Read_events [OF wal, of ?g "[]", OF this]
  have "foldl (\<lambda>sp (i, evs). fst (handle_all (?g (int i)) evs sp)) [] (zip (map fst xs) evss) = ?sp"
    using total by (intro foldl_cong refl) (auto dest!: set_zip_rightD intro!: arg_cong [where f = fst] handle_all_cong)
  with read have "wal_Clean ev_IsPersistent d dir retain_from = Inr (DeleteObsoleteSegments d dir retain_from ?sp)"
    by (simp add: wal_Clean_def CleanerStrategy_def [abs_def])
  moreover have "(seg, True) \<in> set ?sp \<longleftrightarrow>
      (\<exists>i evs. (i, evs) \<in> set (zip (map fst xs) evss) \<and> evs \<noteq> [] \<and> list_all P evs \<and> seg = int i)" for seg
  proof -
    have "(seg, True) \<in> set ?sp \<longleftrightarrow> map_of ?sp seg = Some True"
      using distinct_cleaner_segments [of "[]"] by simp
    also have "\<dots> \<longleftrightarrow> (\<exists>evs. map_of (zip (map int (map fst xs)) evss) seg = Some evs \<and> evs \<noteq> [] \<and> list_all P evs)"
      unfolding cleaner_segments [OF dist len, of "[]", simplified]
      by (simp split: option.split)
    also have "\<dots> \<longleftrightarrow> (\<exists>evs. (seg, evs) \<in> set (zip (map int (map fst xs)) evss) \<and> evs \<noteq> [] \<and> list_all P evs)"
      using dist len by (simp add: distinct_map inj_on_def)
    finally show ?thesis unfolding in_zip_int by blast
  qed
  ultimately show ?thesis by (auto simp: DeleteObsoleteSegments_lookup)
qed

text \<open>
  C21. Cleaning the log, when the persistence of every event in it is known, removes exactly the
  segments that have events, all of which are persistent, and that lie below the segment to retain from; every other file, in
  particular every segment with an event that is not persistent or that a follower still
  needs, is left as it is.
\<close>

theorem wal_clean_exact:
  assumes wal: "wal_holds d dir xs evss" and ub: "\<forall>ev. ev_IsPersistent ev \<noteq> Inl OutOfBounds"
    and total: "\<forall>ev \<in> set (concat evss). ev_IsPersistent ev = Inr (P ev)"
  shows "\<exists>d'. wal_Clean ev_IsPersistent d dir retain_from = Inr d' \<and>
    (\<forall>path. map_of d' path =
      (if \<exists>i evs. (i, evs) \<in> set (zip (map fst xs) evss) \<and> evs \<noteq> [] \<and> list_all P evs \<and>
          may_delete retain_from (int i) \<and> path = segment_path dir (int i)
       then None else map_of d path))"
  using assms by (rule wal_Clean_lookup)

lemma wal_holds_single:
  assumes "holds_events c evs" "n < 10000"
  shows "wal_holds [(numbered_path dir ''.wal.sdb'' n, c)] dir [(n, c)] [evs]"
  using assms by (simp add: wal_holds_def dir_holds_def)

theorem wal_clean_exact_witness:
  "\<exists>d'. wal_Clean (\<lambda>ev. Inr True) [(numbered_path ''wal'' ''.wal.sdb'' 0, event_bytes (TxStorageCommitEvent 10))] ''wal'' None = Inr d' \<and>
    map_of d' (segment_path ''wal'' 0) = None"
proof -
  have "holds_events (event_bytes (TxStorageCommitEvent 10)) [TxStorageCommitEvent 10]"
    by (simp add: holds_events_def kWalPageSize_def)
  then have "wal_holds [(numbered_path ''wal'' ''.wal.sdb'' 0, event_bytes (TxStorageCommitEvent 10))] ''wal''
      [(0, event_bytes (TxStorageCommitEvent 10))] [[TxStorageCommitEvent 10]]"
    by (rule wal_holds_single) simp
  from wal_clean_exact [OF this, of "\<lambda>ev. Inr True" "\<lambda>ev. True" None] show ?thesis
    by (auto simp: may_delete_def list_all_iff)
qed

end
