(* ===== verification/Database_Model.thy ===== *)
theory Database_Model
  imports Table_Compaction Wal_Correct
begin

section \<open>The database\<close>

text \<open>
  \<open>src/src/server/database\<close>: the database with its storages (\<open>database.cpp\<close>), the catalog of
  tables (\<open>catalog.cpp\<close>), sessions (\<open>session.cpp\<close>), the system views and the jobs, and what the
  events of the log do to a database (\<open>wal/events\<close>). A session holds a reference to the context,
  so every operation takes the whole database and returns it. Its record is the \<open>Context\<close>
  together with the disk and the directories its \<open>io_manager\<close> works on.
\<close>

definition kSysTransactions :: string where "kSysTransactions = ''sys_transactions''"
definition kSysTables :: string where "kSysTables = ''sys_tables''"
definition kWal :: string where "kWal = ''wal''"

definition kInternalTables :: "string list" where
  "kInternalTables = [kSysTransactions, kSysTables, kWal]"

record database =
  db_base_dir :: string
  db_lsm_options :: lsm_options
  db_wal_writer :: "wal_writer option"
  db_storages :: "(string \<times> lsm_engine) list"
  db_tx_storage :: tx_storage
  db_is_initialized :: bool
  db_disk :: disk
  db_dirs :: "string list"

definition Database :: "disk \<Rightarrow> string list \<Rightarrow> string \<Rightarrow> lsm_options \<Rightarrow> database" where
  "Database d dirs base_dir opts =
     \<lparr>db_base_dir = base_dir, db_lsm_options = opts, db_wal_writer = None, db_storages = [],
      db_tx_storage = Tx_Storage, db_is_initialized = False, db_disk = d, db_dirs = dirs\<rparr>"

text \<open>Calls that may fail and may not return.\<close>

definition bindM :: "'a result option \<Rightarrow> ('a \<Rightarrow> 'b result option) \<Rightarrow> 'b result option" where
  "bindM m f = (case m of None \<Rightarrow> None | Some (Inl e) \<Rightarrow> Some (Inl e) | Some (Inr x) \<Rightarrow> f x)"

lemma bindM_simps [simp]:
  "bindM None f = None" "bindM (Some (Inl e)) f = Some (Inl e)" "bindM (Some (Inr x)) f = f x"
  by (simp_all add: bindM_def)

text \<open>What \<open>catch (const std::exception&)\<close> catches: everything but undefined behaviour and aborts.\<close>

definition is_exception :: "error \<Rightarrow> bool" where
  "is_exception e \<longleftrightarrow> e \<noteq> OutOfBounds \<and> e \<noteq> AssertionFailed"

text \<open>The log as the engines and the transaction storage see it; without a writer nobody looks at it.\<close>

definition db_env :: "database \<Rightarrow> wal_env" where
  "db_env db =
     (db_disk db,
      case db_wal_writer db of
        Some w \<Rightarrow> w
      | None \<Rightarrow> \<lparr>ww_wal_dir_path = [], ww_segment_writer = \<lparr>fw_path = [], fw_content = [], fw_pos = 0, fw_append = True\<rparr>,
                 ww_page_size = 0, ww_pages_in_segment = 0, ww_segment_no = 0\<rparr>)"

definition db_set_env :: "wal_env \<Rightarrow> database \<Rightarrow> database" where
  "db_set_env env db = db\<lparr>db_disk := fst env, db_wal_writer := map_option (\<lambda>_. snd env) (db_wal_writer db)\<rparr>"

definition storages_at :: "database \<Rightarrow> string \<Rightarrow> lsm_engine result" where
  "storages_at db sid = (case map_of (db_storages db) sid of None \<Rightarrow> Inl OutOfRange | Some e \<Rightarrow> Inr e)"

definition try_emplace :: "string \<Rightarrow> lsm_engine \<Rightarrow> (string \<times> lsm_engine) list \<Rightarrow> (string \<times> lsm_engine) list" where
  "try_emplace sid e storages = (if map_of storages sid = None then storages @ [(sid, e)] else storages)"

definition set_storage :: "string \<Rightarrow> lsm_engine \<Rightarrow> database \<Rightarrow> database" where
  "set_storage sid e db = db\<lparr>db_storages := AList.update sid e (db_storages db)\<rparr>"

subsection \<open>The transactional tables of a database\<close>

text \<open>
  A \<open>TransactionalTable\<close> on the storage \<open>sid\<close> of the database, for the transaction \<open>tx\<close>.
\<close>

definition tx_Lookup :: "crc32 \<Rightarrow> database \<Rightarrow> string \<Rightarrow> int \<Rightarrow> string \<Rightarrow> string option result option" where
  "tx_Lookup crc db sid tx key =
     bindM (Some (storages_at db sid)) (\<lambda>e. tt_Lookup crc e (db_tx_storage db) tx key)"

definition tx_Upsert :: "database \<Rightarrow> string \<Rightarrow> int \<Rightarrow> string \<Rightarrow> string \<Rightarrow> database result option" where
  "tx_Upsert db sid tx key val =
     bindM (Some (storages_at db sid)) (\<lambda>e.
       case tt_Upsert (db_tx_storage db) e (db_env db) tx key val of
         None \<Rightarrow> None
       | Some (ts, e, env) \<Rightarrow> Some (Inr (set_storage sid e (db_set_env env (db\<lparr>db_tx_storage := ts\<rparr>)))))"

definition tx_Delete :: "crc32 \<Rightarrow> database \<Rightarrow> string \<Rightarrow> int \<Rightarrow> string \<Rightarrow> (bool \<times> database) result option" where
  "tx_Delete crc db sid tx key =
     bindM (Some (storages_at db sid)) (\<lambda>e.
     bindM (tt_Delete crc (db_tx_storage db) e (db_env db) tx key) (\<lambda>(b, ts, e, env).
       Some (Inr (b, set_storage sid e (db_set_env env (db\<lparr>db_tx_storage := ts\<rparr>))))))"

definition tx_Scan ::
    "crc32 \<Rightarrow> database \<Rightarrow> string \<Rightarrow> int \<Rightarrow> string option \<Rightarrow> string option \<Rightarrow> transactional_table_iterator result option" where
  "tx_Scan crc db sid tx lower upper =
     bindM (Some (storages_at db sid)) (\<lambda>e. tt_Scan crc e (db_tx_storage db) tx lower upper)"

definition tx_Compact :: "crc32 \<Rightarrow> database \<Rightarrow> string \<Rightarrow> database result option" where
  "tx_Compact crc db sid =
     bindM (Some (storages_at db sid)) (\<lambda>e.
     bindM (tt_Compact crc e (db_tx_storage db) (db_disk db)) (\<lambda>(e, d).
       Some (Inr (set_storage sid e (db\<lparr>db_disk := d\<rparr>)))))"

subsection \<open>Catalog\<close>

definition kCreated :: int where "kCreated = 1"
definition kDropped :: int where "kDropped = 2"

record table_info =
  ti_status :: int
  ti_id :: string

definition ti_ToString :: "table_info \<Rightarrow> string" where
  "ti_ToString info = int64_bytes (ti_status info) @ ti_id info"

definition ParseRecord :: "string \<Rightarrow> table_info result" where
  "ParseRecord data =
     (if length data < 8 then Inl OutOfBounds
      else Inr \<lparr>ti_status = bytes_int64 (take 8 data), ti_id = drop 8 data\<rparr>)"

lemma ParseRecord_ToString: "is_int64 (ti_status info) \<Longrightarrow> ParseRecord (ti_ToString info) = Inr info"
  by (simp add: ParseRecord_def ti_ToString_def)

definition cat_GetTableInfo :: "crc32 \<Rightarrow> database \<Rightarrow> int \<Rightarrow> string \<Rightarrow> table_info option result option" where
  "cat_GetTableInfo crc db tx name =
     bindM (tx_Lookup crc db kSysTables tx name) (\<lambda>raw.
       case raw of
         None \<Rightarrow> Some (Inr None)
       | Some data \<Rightarrow> Some (bindE (ParseRecord data) (\<lambda>record. Inr (Some record))))"

text \<open>The id is what \<open>GenerateUuid\<close> returns.\<close>

definition cat_AddStorage :: "crc32 \<Rightarrow> database \<Rightarrow> int \<Rightarrow> string \<Rightarrow> string \<Rightarrow> (string \<times> database) result option" where
  "cat_AddStorage crc db tx uuid name =
     (if name \<in> set kInternalTables then Some (Inl (DatabaseException ''Table already exists''))
      else bindM (cat_GetTableInfo crc db tx name) (\<lambda>info.
        if (case info of None \<Rightarrow> False | Some i \<Rightarrow> ti_status i = kCreated)
        then Some (Inl (DatabaseException (''Table '' @ name @ '' already exists'')))
        else bindM (tx_Upsert db kSysTables tx name (ti_ToString \<lparr>ti_status = kCreated, ti_id = uuid\<rparr>)) (\<lambda>db.
               Some (Inr (uuid, db)))))"

definition cat_DeleteStorage :: "crc32 \<Rightarrow> database \<Rightarrow> int \<Rightarrow> string \<Rightarrow> database result option" where
  "cat_DeleteStorage crc db tx name =
     (if name \<in> set kInternalTables then Some (Inl (DatabaseException ''Cannot drop system table''))
      else bindM (cat_GetTableInfo crc db tx name) (\<lambda>info.
        case info of
          None \<Rightarrow> Some (Inr db)
        | Some i \<Rightarrow>
            if ti_status i = kDropped then Some (Inr db)
            else tx_Upsert db kSysTables tx name (ti_ToString (i\<lparr>ti_status := kDropped\<rparr>))))"

definition cat_GetStorageId :: "crc32 \<Rightarrow> database \<Rightarrow> int \<Rightarrow> string \<Rightarrow> string option result option" where
  "cat_GetStorageId crc db tx name =
     bindM (cat_GetTableInfo crc db tx name) (\<lambda>info.
       case info of
         None \<Rightarrow> Some (Inr None)
       | Some i \<Rightarrow> if ti_status i = kDropped then Some (Inr None) else Some (Inr (Some (ti_id i))))"

text \<open>\<open>table/transform_iterator.cpp\<close>: an iterator over the transformed rows of another.\<close>

record transform_iterator =
  tri_iter :: transactional_table_iterator
  tri_transform :: "row \<Rightarrow> row result"

definition tri_HasMore :: "transform_iterator \<Rightarrow> bool" where
  "tri_HasMore it = tti_HasMore (tri_iter it)"

definition tri_Next :: "transform_iterator \<Rightarrow> (row \<times> transform_iterator) result" where
  "tri_Next it =
     bindE (tti_Next (tri_iter it)) (\<lambda>(row, i).
     bindE (tri_transform it row) (\<lambda>row. Inr (row, it\<lparr>tri_iter := i\<rparr>)))"

definition MakeTransformIterator :: "transactional_table_iterator \<Rightarrow> (row \<Rightarrow> row result) \<Rightarrow> transform_iterator" where
  "MakeTransformIterator it f = \<lparr>tri_iter = it, tri_transform = f\<rparr>"

definition cat_Scan :: "crc32 \<Rightarrow> database \<Rightarrow> int \<Rightarrow> string option \<Rightarrow> string option \<Rightarrow> transform_iterator result option" where
  "cat_Scan crc db tx lower upper =
     bindM (tx_Scan crc db kSysTables tx lower upper) (\<lambda>it.
       Some (Inr (MakeTransformIterator it (\<lambda>row.
         bindE (ParseRecord (row_value row)) (\<lambda>info. Inr \<lparr>row_key = row_key row, row_value = ti_id info\<rparr>)))))"

subsection \<open>Sessions\<close>

record session =
  ses_tx :: int
  ses_is_autocommit :: bool

definition ses_Start :: "database \<Rightarrow> int option \<Rightarrow> (session \<times> database) result" where
  "ses_Start db tx =
     (case tx of
        Some t \<Rightarrow>
          if \<not> ts_IsStarted (db_tx_storage db) t
          then Inl (DatabaseException (''Invalid transaction id: '' @ tx_ToString t))
          else Inr (\<lparr>ses_tx = t, ses_is_autocommit = False\<rparr>, db)
      | None \<Rightarrow>
          let (t, ts) = ts_Begin (db_tx_storage db)
          in Inr (\<lparr>ses_tx = t, ses_is_autocommit = True\<rparr>, db\<lparr>db_tx_storage := ts\<rparr>))"

definition ses_Commit :: "database \<Rightarrow> session \<Rightarrow> database" where
  "ses_Commit db s =
     (let (ts, env) = ts_Commit (db_tx_storage db) (ses_tx s) (db_env db)
      in db_set_env env (db\<lparr>db_tx_storage := ts\<rparr>))"

definition ses_Finish :: "database \<Rightarrow> session \<Rightarrow> int \<times> database" where
  "ses_Finish db s = (ses_tx s, if ses_is_autocommit s then ses_Commit db s else db)"

definition ses_GetTx :: "session \<Rightarrow> int" where
  "ses_GetTx s = ses_tx s"

definition ses_Begin :: "database \<Rightarrow> (session \<times> database) result" where
  "ses_Begin db = ses_Start db None"

definition new_engine :: "database \<Rightarrow> string \<Rightarrow> lsm_engine result" where
  "new_engine db sid =
     bindE (le_Init (db_disk db) (LsmEngine (db_base_dir db @ ''/'' @ sid) sid (db_lsm_options db))) (\<lambda>e.
       Inr (if db_wal_writer db = None then e else le_StartLogInto e))"

definition ses_CreateTable :: "crc32 \<Rightarrow> database \<Rightarrow> session \<Rightarrow> string \<Rightarrow> string \<Rightarrow> database result option" where
  "ses_CreateTable crc db s uuid name =
     bindM (cat_AddStorage crc db (ses_tx s) uuid name) (\<lambda>(storage_id, db).
       let db = db\<lparr>db_dirs := io_CreateDirectory (db_dirs db) (db_base_dir db @ ''/'' @ storage_id)\<rparr>
       in bindM (Some (new_engine db storage_id)) (\<lambda>e.
            Some (Inr (db\<lparr>db_storages := try_emplace storage_id e (db_storages db)\<rparr>))))"

definition ses_DropTable :: "crc32 \<Rightarrow> database \<Rightarrow> session \<Rightarrow> string \<Rightarrow> database result option" where
  "ses_DropTable crc db s name =
     (case cat_DeleteStorage crc db (ses_tx s) name of
        Some (Inl e) \<Rightarrow> if is_exception e then Some (Inr db) else Some (Inl e)
      | r \<Rightarrow> r)"

datatype table_ref = SysTables | SysTransactions | UserTable (storage_id: string)

definition ses_GetTable :: "crc32 \<Rightarrow> database \<Rightarrow> session \<Rightarrow> string \<Rightarrow> table_ref option result option" where
  "ses_GetTable crc db s name =
     (if name = kSysTables then Some (Inr (Some SysTables))
      else if name = kSysTransactions then Some (Inr (Some SysTransactions))
      else bindM (cat_GetStorageId crc db (ses_tx s) name) (\<lambda>sid.
        case sid of
          None \<Rightarrow> Some (Inr None)
        | Some sid \<Rightarrow> bindM (Some (storages_at db sid)) (\<lambda>_. Some (Inr (Some (UserTable sid))))))"

definition ses_CountSSTables :: "crc32 \<Rightarrow> database \<Rightarrow> session \<Rightarrow> string \<Rightarrow> nat result option" where
  "ses_CountSSTables crc db s name =
     bindM (cat_GetStorageId crc db (ses_tx s) name) (\<lambda>sid.
       case sid of
         None \<Rightarrow> Some (Inr 0)
       | Some sid \<Rightarrow> bindM (Some (storages_at db sid)) (\<lambda>e. Some (Inr (le_CountSSTables e))))"

subsection \<open>Tables and system views\<close>

text \<open>
  The virtual operations of \<open>table::Table\<close>, for the transaction \<open>tx\<close>: the system views are
  read-only, \<open>sys_transactions\<close> cannot be scanned, and \<open>Compact\<close> does nothing on a view.
\<close>

definition kCannotMutate :: error where
  "kCannotMutate = DatabaseException ''Cannot perform mutation on system view''"

fun tbl_Upsert :: "database \<Rightarrow> int \<Rightarrow> table_ref \<Rightarrow> string \<Rightarrow> string \<Rightarrow> database result option" where
  "tbl_Upsert db tx (UserTable sid) key val = tx_Upsert db sid tx key val"
| "tbl_Upsert db tx _ key val = Some (Inl kCannotMutate)"

fun tbl_Lookup :: "crc32 \<Rightarrow> database \<Rightarrow> int \<Rightarrow> table_ref \<Rightarrow> string \<Rightarrow> string option result option" where
  "tbl_Lookup crc db tx (UserTable sid) key = tx_Lookup crc db sid tx key"
| "tbl_Lookup crc db tx SysTables key = cat_GetStorageId crc db tx key"
| "tbl_Lookup crc db tx SysTransactions key =
     Some (bindE (tx_FromString key) (\<lambda>t. Inr (ts_GetStatus (db_tx_storage db) t)))"

fun tbl_Delete :: "crc32 \<Rightarrow> database \<Rightarrow> int \<Rightarrow> table_ref \<Rightarrow> string \<Rightarrow> (bool \<times> database) result option" where
  "tbl_Delete crc db tx (UserTable sid) key = tx_Delete crc db sid tx key"
| "tbl_Delete crc db tx _ key = Some (Inl kCannotMutate)"

fun tbl_Scan :: "crc32 \<Rightarrow> database \<Rightarrow> int \<Rightarrow> table_ref \<Rightarrow> string option \<Rightarrow> string option \<Rightarrow> transform_iterator result option" where
  "tbl_Scan crc db tx (UserTable sid) lower upper =
     bindM (tx_Scan crc db sid tx lower upper) (\<lambda>it. Some (Inr (MakeTransformIterator it Inr)))"
| "tbl_Scan crc db tx SysTables lower upper = cat_Scan crc db tx lower upper"
| "tbl_Scan crc db tx SysTransactions lower upper = Some (Inl (DatabaseException ''Unimplemented''))"

fun tbl_Compact :: "crc32 \<Rightarrow> database \<Rightarrow> table_ref \<Rightarrow> database result option" where
  "tbl_Compact crc db (UserTable sid) = tx_Compact crc db sid"
| "tbl_Compact crc db _ = Some (Inr db)"

subsection \<open>Database\<close>

definition db_EnsureStorageForRecover :: "database \<Rightarrow> string \<Rightarrow> (lsm_engine \<times> database) result" where
  "db_EnsureStorageForRecover db sid =
     (case map_of (db_storages db) sid of
        Some e \<Rightarrow> Inr (e, db)
      | None \<Rightarrow>
          let db = db\<lparr>db_dirs := io_CreateDirectory (db_dirs db) (db_base_dir db @ ''/'' @ sid)\<rparr>
          in bindE (new_engine db sid) (\<lambda>e. Inr (e, db\<lparr>db_storages := try_emplace sid e (db_storages db)\<rparr>)))"

definition db_GetStorageForRecover :: "database \<Rightarrow> string \<Rightarrow> lsm_engine result" where
  "db_GetStorageForRecover db sid = storages_at db sid"

text \<open>What the events of the log do (\<open>wal/events/*.cpp\<close>).\<close>

definition TxStorageCommitEvent_Apply :: "int \<Rightarrow> database \<Rightarrow> database result" where
  "TxStorageCommitEvent_Apply tx db = Inr (db\<lparr>db_tx_storage := ts_RecoverFromLog (db_tx_storage db) tx\<rparr>)"

definition TxStorageCommitEvent_IsPersistent :: "int \<Rightarrow> bool result" where
  "TxStorageCommitEvent_IsPersistent tx = Inr True"

declare TxStorageCommitEvent_Apply_def [simp] TxStorageCommitEvent_IsPersistent_def [simp]

fun ev_Apply :: "event \<Rightarrow> database \<Rightarrow> database result" where
  "ev_Apply (LsmStorageUpsertEvent sid seq key val) db =
     bindE (db_EnsureStorageForRecover db sid) (\<lambda>(e, db).
       Inr (set_storage sid (le_RecoverFromLog e seq key val) db))"
| "ev_Apply (TxStorageCommitEvent tx) db = TxStorageCommitEvent_Apply tx db"

fun ev_IsPersistent :: "database \<Rightarrow> event \<Rightarrow> bool result" where
  "ev_IsPersistent db (LsmStorageUpsertEvent sid seq key val) =
     bindE (db_GetStorageForRecover db sid) (\<lambda>e. Inr (le_IsPersistent e seq))"
| "ev_IsPersistent db (TxStorageCommitEvent tx) = TxStorageCommitEvent_IsPersistent tx"

fun db_InitTables :: "database \<Rightarrow> string list \<Rightarrow> database result" where
  "db_InitTables db [] = Inr db"
| "db_InitTables db (name # names) =
     bindE (le_Init (db_disk db) (LsmEngine (db_base_dir db @ ''/'' @ name) name (db_lsm_options db))) (\<lambda>e.
       db_InitTables (db\<lparr>db_storages := try_emplace name e (db_storages db)\<rparr>) names)"

definition db_Init :: "database \<Rightarrow> database result" where
  "db_Init db =
     (if db_is_initialized db then Inr db
      else
        let db = db\<lparr>db_dirs := io_CreateDirectory (db_dirs db) (db_base_dir db @ ''/'' @ kSysTransactions), db_tx_storage := Tx_Storage\<rparr>;
            db = db\<lparr>db_dirs := io_CreateDirectory (db_dirs db) (db_base_dir db @ ''/'' @ kSysTables)\<rparr>
        in bindE (db_InitTables db [kSysTables]) (\<lambda>db.
           let dir_content = filter (\<lambda>name. name \<notin> set kInternalTables) (io_ListEntries (db_disk db) (db_dirs db) (db_base_dir db))
           in bindE (db_InitTables db dir_content) (\<lambda>db.
              let wal_path = db_base_dir db @ ''/wal''
              in bindE (Recover ev_Apply (db_disk db) wal_path db) (\<lambda>db.
                 let (d, w) = Writer_Open (db_disk db) wal_path
                 in Inr (db\<lparr>db_disk := d, db_wal_writer := Some w,
                            db_tx_storage := ts_StartLogInto (db_tx_storage db),
                            db_storages := map (\<lambda>(sid, e). (sid, le_StartLogInto e)) (db_storages db),
                            db_is_initialized := True\<rparr>)))))"

fun db_FlushAll :: "crc32 \<Rightarrow> database \<Rightarrow> string list \<Rightarrow> database result" where
  "db_FlushAll crc db [] = Inr db"
| "db_FlushAll crc db (sid # sids) =
     bindE (storages_at db sid) (\<lambda>e.
     bindE (le_Flush crc e (db_disk db)) (\<lambda>(e, d).
       db_FlushAll crc (set_storage sid e (db\<lparr>db_disk := d\<rparr>)) sids))"

definition db_Flush :: "crc32 \<Rightarrow> database \<Rightarrow> database result" where
  "db_Flush crc db = db_FlushAll crc db (map fst (db_storages db))"

definition db_StartSession :: "database \<Rightarrow> int option \<Rightarrow> (session \<times> database) result" where
  "db_StartSession db tx =
     (if \<not> db_is_initialized db then Inl (DatabaseException ''Database is not ready'') else ses_Start db tx)"

subsection \<open>Jobs\<close>

definition Flush_Step :: "crc32 \<Rightarrow> database \<Rightarrow> database result" where
  "Flush_Step crc db = db_Flush crc db"

text \<open>The body ends the loop when a call fails or does not return.\<close>

definition compaction_body ::
    "crc32 \<Rightarrow> session \<Rightarrow> database result option \<Rightarrow> row \<Rightarrow> database result option step result" where
  "compaction_body crc s acc table_info =
     (let r = bindM acc (\<lambda>db.
            bindM (ses_GetTable crc db s (row_key table_info)) (\<lambda>table.
              case table of None \<Rightarrow> Some (Inr db) | Some t \<Rightarrow> tbl_Compact crc db t))
      in case r of Some (Inr _) \<Rightarrow> Inr (Continue r) | _ \<Rightarrow> Inr (Break r))"

text \<open>
  The iterator over \<open>sys_tables\<close> owns its rows, so the loop runs on them; the session is never
  finished.
\<close>

definition Compaction_Step :: "crc32 \<Rightarrow> database \<Rightarrow> database result option" where
  "Compaction_Step crc db =
     bindM (Some (db_StartSession db None)) (\<lambda>(s, db).
     bindM (ses_GetTable crc db s kSysTables) (\<lambda>sys_tables.
       case sys_tables of
         None \<Rightarrow> Some (Inr db)
       | Some t \<Rightarrow>
           bindM (tbl_Scan crc db (ses_tx s) t None None) (\<lambda>iter.
           bindM (iter_loop tri_HasMore tri_Next (compaction_body crc s) iter (Some (Inr db))) (\<lambda>r. r))))"

definition WalCleaner_Step :: "database \<Rightarrow> string \<Rightarrow> int option \<Rightarrow> database result" where
  "WalCleaner_Step db wal_dir_path min_retained_segment =
     bindE (wal_Clean (ev_IsPersistent db) (db_disk db) wal_dir_path min_retained_segment) (\<lambda>d.
       Inr (db\<lparr>db_disk := d\<rparr>))"

end
