(* ===== verification/Database_Inv.thy ===== *)
theory Database_Inv
  imports Database_Model
begin

section \<open>The invariant of a running database\<close>

text \<open>
  A database that was started in an empty directory, may have crashed and been restarted since, and
  has not been compacted or cleaned: for every storage the log of its versions, and the events of the
  write-ahead log. Every version of every storage has its event in the log, in order, and the
  committed transactions are exactly those with a commit event. \<open>Init\<close> establishes the invariant
  and every operation of a session, every flush and every restart preserve it.
\<close>

type_synonym storage_logs = "(string \<times> (int \<times> lsm_record list)) list"

fun upsert_of :: "string \<Rightarrow> event \<Rightarrow> bool" where
  "upsert_of sid (LsmStorageUpsertEvent sid' seq key val) \<longleftrightarrow> sid' = sid"
| "upsert_of sid (TxStorageCommitEvent tx) \<longleftrightarrow> False"

definition upsert_event :: "string \<Rightarrow> lsm_record \<Rightarrow> event" where
  "upsert_event sid r = LsmStorageUpsertEvent sid (rec_seq r) (rec_key r) (rec_value r)"

definition log_ok :: "lsm_options \<Rightarrow> string \<Rightarrow> int \<times> lsm_record list \<Rightarrow> event list \<Rightarrow> bool" where
  "log_ok opts sid s evs \<longleftrightarrow>
     fst s = int (length (snd s)) + 1 \<and> fst s \<le> kMaxSequence \<and> map rec_seq (rev (snd s)) = map int [1..<Suc (length (snd s))] \<and>
     filter (upsert_of sid) evs = map (upsert_event sid) (rev (snd s)) \<and>
     (\<forall>r \<in> set (snd s). is_version r \<and> op_fits opts (OpPut (rec_key r) (rec_value r)))"

definition engine_ok :: "crc32 \<Rightarrow> database \<Rightarrow> string \<Rightarrow> lsm_engine \<Rightarrow> int \<times> lsm_record list \<Rightarrow> bool" where
  "engine_ok crc db sid e s \<longleftrightarrow>
     le_id e = sid \<and> le_wal_writer e \<and> lsm_base_dir (le_lsm e) = db_base_dir db @ ''/'' @ sid \<and>
     lsm_options (le_lsm e) = db_lsm_options db \<and> plain_rep crc (le_lsm e) (db_disk db) s"

definition good_sid :: "string \<Rightarrow> bool" where
  "good_sid sid \<longleftrightarrow> CHR ''/'' \<notin> set sid \<and> (sid = kSysTables \<or> sid \<notin> set kInternalTables)"

definition dirs_ok :: "database \<Rightarrow> string set \<Rightarrow> bool" where
  "dirs_ok db sids \<longleftrightarrow>
     distinct (db_dirs db) \<and> set (db_dirs db) = (\<lambda>sid. db_base_dir db @ ''/'' @ sid) ` insert kSysTransactions sids \<and>
     distinct (map fst (db_disk db)) \<and>
     (\<forall>path \<in> fst ` set (db_disk db). \<exists>sid \<in> insert kWal sids. in_directory (db_base_dir db @ ''/'' @ sid) path)"

definition ts_bounded :: "tx_storage \<Rightarrow> bool" where
  "ts_bounded ts \<longleftrightarrow> (\<forall>tx. ts_tx_status ts tx \<noteq> None \<longrightarrow> tx < ts_next_tx_id ts)"

definition events_ok :: "tx_storage \<Rightarrow> string set \<Rightarrow> event list \<Rightarrow> bool" where
  "events_ok ts sids evs \<longleftrightarrow> ts_bounded ts \<and>
     (\<forall>ev \<in> set evs. \<forall>sid. upsert_of sid ev \<longrightarrow> sid \<in> sids) \<and>
     (\<forall>tx. ts_IsCommited ts tx \<longleftrightarrow> TxStorageCommitEvent tx \<in> set evs)"

text \<open>
  Where the running server writes its log: it found the events \<open>snd st\<close> when it started, in segments
  below \<open>fst st\<close>, and the events it has written since are in the segments from there on.
\<close>

definition log_at :: "nat \<times> event list \<Rightarrow> disk \<Rightarrow> wal_writer \<Rightarrow> string \<Rightarrow> event list \<Rightarrow> bool" where
  "log_at st d w dir evs \<longleftrightarrow> (\<exists>new. evs = snd st @ new \<and> wal_at d w dir (fst st) (snd st) new)"

definition db_inv_at :: "nat \<times> event list \<Rightarrow> crc32 \<Rightarrow> database \<Rightarrow> storage_logs \<Rightarrow> event list \<Rightarrow> bool" where
  "db_inv_at st crc db logs evs \<longleftrightarrow>
     db_is_initialized db \<and> good_options (db_lsm_options db) \<and> ts_wal_writer (db_tx_storage db) \<and>
     (\<exists>w. db_wal_writer db = Some w \<and> log_at st (db_disk db) w (db_base_dir db @ ''/wal'') evs) \<and>
     distinct (map fst logs) \<and> kSysTables \<in> fst ` set logs \<and> (\<forall>sid \<in> fst ` set logs. good_sid sid) \<and>
     list_all2 (\<lambda>(sid, e) (sid', s). sid = sid' \<and> engine_ok crc db sid e s \<and> log_ok (db_lsm_options db) sid s evs) (db_storages db) logs \<and>
     dirs_ok db (fst ` set logs) \<and> events_ok (db_tx_storage db) (fst ` set logs) evs"

definition db_inv :: "crc32 \<Rightarrow> database \<Rightarrow> storage_logs \<Rightarrow> event list \<Rightarrow> bool" where
  "db_inv crc db logs evs \<longleftrightarrow> (\<exists>st. db_inv_at st crc db logs evs)"

lemma db_invI: "db_inv_at st crc db logs evs \<Longrightarrow> db_inv crc db logs evs"
  unfolding db_inv_def by blast

lemma log_at_Write: "log_at st d w dir evs \<Longrightarrow> small_event ev \<Longrightarrow> ww_Write d w ev = (d', w') \<Longrightarrow> log_at st d' w' dir (evs @ [ev])"
  by (auto simp: log_at_def intro: wal_at_Write)

lemma log_at_frame: "log_at st d w dir evs \<Longrightarrow> same_in dir d d' \<Longrightarrow> distinct (map fst d') \<Longrightarrow> log_at st d' w dir evs"
  by (auto simp: log_at_def intro: wal_at_frame)

lemma only_in_log_Write: "log_at st d w dir evs \<Longrightarrow> ww_Write d w ev = (d', w') \<Longrightarrow> only_in dir d d'"
  by (auto simp: log_at_def intro: only_in_Write)

subsection \<open>Frames\<close>

lemma good_sid_wal: "good_sid sid \<Longrightarrow> sid \<noteq> kWal"
  by (auto simp: good_sid_def kInternalTables_def kWal_def kSysTables_def)

lemma dirs_ok_frame:
  assumes "dirs_ok db sids" "only_in (db_base_dir db @ ''/'' @ sid) (db_disk db) d" "sid \<in> insert kWal sids"
    and "db_base_dir db' = db_base_dir db" "db_dirs db' = db_dirs db" "db_disk db' = d"
  shows "dirs_ok db' sids"
proof -
  have "\<exists>sid \<in> insert kWal sids. in_directory (db_base_dir db @ ''/'' @ sid) path" if "path \<in> fst ` set d" for path
  proof (cases "in_directory (db_base_dir db @ ''/'' @ sid) path")
    case False
    then have "path \<in> fst ` set (db_disk db)" using that assms(2) by (simp add: only_in_def in_fst_set_conv)
    with assms(1) show ?thesis unfolding dirs_ok_def by blast
  qed (use assms(3) in blast)
  with assms show ?thesis unfolding dirs_ok_def only_in_def by simp
qed

lemma dirs_ok_fresh:
  assumes "dirs_ok db sids" "sid \<notin> insert kWal sids"
  shows "io_ListDirectory (db_disk db) (db_base_dir db @ ''/'' @ sid) = []"
proof -
  have "\<not> in_directory (db_base_dir db @ ''/'' @ sid) path" if "path \<in> fst ` set (db_disk db)" for path
  proof
    assume a: "in_directory (db_base_dir db @ ''/'' @ sid) path"
    from assms(1) that obtain sid' where "sid' \<in> insert kWal sids" "in_directory (db_base_dir db @ ''/'' @ sid') path"
      unfolding dirs_ok_def by blast
    with in_directory_unique [OF a] assms(2) show False by auto
  qed
  then show ?thesis by (auto simp: io_ListDirectory_def filter_empty_conv)
qed

lemma dirs_ok_no_files:
  assumes "dirs_ok db sids"
  shows "io_ListDirectory (db_disk db) (db_base_dir db) = []"
proof -
  have "\<not> in_directory (db_base_dir db) path" if "path \<in> fst ` set (db_disk db)" for path
  proof
    assume a: "in_directory (db_base_dir db) path"
    from assms that obtain sid' where "in_directory (db_base_dir db @ ''/'' @ sid') path" unfolding dirs_ok_def by blast
    with in_directory_unique [OF a] show False by force
  qed
  then show ?thesis by (auto simp: io_ListDirectory_def filter_empty_conv)
qed

lemma engine_ok_frame:
  assumes "engine_ok crc db sid e s" "only_in dir (db_disk db) d" "dir \<noteq> db_base_dir db @ ''/'' @ sid" "distinct (map fst (db_disk db))"
    and "db_base_dir db' = db_base_dir db" "db_lsm_options db' = db_lsm_options db" "db_disk db' = d"
  shows "engine_ok crc db' sid e s"
  using assms plain_rep_frame [of crc "le_lsm e" "db_disk db" s d] only_in_same_in [OF assms(2,3)]
  by (auto simp: engine_ok_def only_in_def)

lemma list_all2_update:
  assumes "list_all2 (\<lambda>(k, a) (k', b). k = k' \<and> P k a b) xs ys" "distinct (map fst ys)" "map_of ys k = Some b"
    and "Q k a' b'" "\<And>k' a b. k' \<noteq> k \<Longrightarrow> P k' a b \<Longrightarrow> Q k' a b"
  shows "list_all2 (\<lambda>(k, a) (k', b). k = k' \<and> Q k a b) (AList.update k a' xs) (AList.update k b' ys)"
  using assms(1-3)
proof (induction rule: list_all2_induct)
  case (Cons x xs y ys)
  obtain k1 a1 b1 where x: "x = (k1, a1)" and y: "y = (k1, b1)" and P: "P k1 a1 b1" using Cons(1) by (cases x; cases y) auto
  show ?case
  proof (cases "k1 = k")
    case True
    have "k \<notin> fst ` set ys" using Cons.prems(1) y True by auto
    with Cons(2) have "list_all2 (\<lambda>(k, a) (k', b). k = k' \<and> Q k a b) xs ys"
      by (induction rule: list_all2_induct) (auto intro: assms(5))
    with True assms(4) show ?thesis by (simp add: x y)
  next
    case False
    with Cons x y P assms(5) show ?thesis by auto
  qed
qed simp

lemma list_all2_keys: "list_all2 (\<lambda>(k, a) (k', b). k = k' \<and> P k a b) xs ys \<Longrightarrow> map fst xs = map fst ys"
  by (induction rule: list_all2_induct) auto

lemma list_all2_lookup:
  "list_all2 (\<lambda>(k, a) (k', b). k = k' \<and> P k a b) xs ys \<Longrightarrow> map_of ys k = Some b \<Longrightarrow> \<exists>a. map_of xs k = Some a \<and> P k a b"
  by (induction rule: list_all2_induct) (auto split: if_splits)

lemma keys_update: "map_of xs k \<noteq> None \<Longrightarrow> map fst (AList.update k v xs) = map fst xs"
  by (induction xs) auto

lemma distinct_keys_update: "distinct (map fst xs) \<Longrightarrow> distinct (map fst (AList.update k v xs))"
  by (rule distinct_update)

lemma db_inv_storage:
  assumes "db_inv crc db logs evs" "map_of logs sid = Some s"
  obtains e where "map_of (db_storages db) sid = Some e" "engine_ok crc db sid e s" "log_ok (db_lsm_options db) sid s evs" "good_sid sid"
proof -
  have "list_all2 (\<lambda>(sid, e) (sid', s). sid = sid' \<and> engine_ok crc db sid e s \<and> log_ok (db_lsm_options db) sid s evs) (db_storages db) logs"
    using assms(1) by (auto simp: db_inv_def db_inv_at_def)
  from list_all2_lookup [OF this assms(2)] obtain e where e: "map_of (db_storages db) sid = Some e" "engine_ok crc db sid e s"
    "log_ok (db_lsm_options db) sid s evs" by blast
  moreover have "good_sid sid" using assms by (auto simp: db_inv_def db_inv_at_def dest: map_of_SomeD)
  ultimately show thesis by (rule that)
qed

subsection \<open>Writing to a storage\<close>

lemma upsert_of_event [simp]: "upsert_of sid (upsert_event sid' r) \<longleftrightarrow> sid' = sid"
  by (simp add: upsert_event_def)

lemma log_ok_put:
  assumes "log_ok opts sid (m, log) evs" "op_fits opts (OpPut key val)" "is_version (Record key m val)" "m < kMaxSequence"
  shows "log_ok opts sid (m + 1, Record key m val # log) (evs @ [upsert_event sid (Record key m val)])"
  using assms by (auto simp: log_ok_def)

lemma log_ok_other:
  "log_ok opts sid s evs \<Longrightarrow> \<not> upsert_of sid ev \<Longrightarrow> log_ok opts sid s (evs @ [ev])"
  by (simp add: log_ok_def)

lemma events_ok_snoc:
  assumes "events_ok ts sids evs" "\<And>sid. upsert_of sid ev \<Longrightarrow> sid \<in> sids"
    and "\<And>tx. ts_IsCommited ts' tx \<longleftrightarrow> ts_IsCommited ts tx \<or> ev = TxStorageCommitEvent tx" "ts_bounded ts'"
  shows "events_ok ts' sids (evs @ [ev])"
  using assms by (auto simp: events_ok_def)

text \<open>The event of a write fits into a page of the log.\<close>

lemma inv_at_put:
  assumes inv: "db_inv_at st crc db logs evs" and e: "map_of (db_storages db) sid = Some e" and s: "map_of logs sid = Some (m, log)"
    and m: "m < kMaxSequence" and fits: "op_fits (db_lsm_options db) (OpPut key val)"
    and small: "small_event (LsmStorageUpsertEvent sid m key val)" and ver: "is_version (Record key m val)"
    and ts: "ts_IsCommited ts' = ts_IsCommited (db_tx_storage db)" "ts_wal_writer ts'" "ts_bounded ts'"
    and up: "le_Upsert e (db_env db) \<lparr>row_key = key, row_value = val\<rparr> = (e', env')"
  defines "r \<equiv> Record key m val"
  shows "db_inv_at st crc (set_storage sid e' (db_set_env env' (db\<lparr>db_tx_storage := ts'\<rparr>)))
    (AList.update sid (m + 1, r # log) logs) (evs @ [upsert_event sid r])" (is "db_inv_at st crc ?db ?logs ?evs")
proof -
  from db_inv_storage [OF db_invI [OF inv] s] e have eok: "engine_ok crc db sid e (m, log)" and lok: "log_ok (db_lsm_options db) sid (m, log) evs"
    and good: "good_sid sid" by auto
  from inv obtain w where w: "db_wal_writer db = Some w" "log_at st (db_disk db) w (db_base_dir db @ ''/wal'') evs"
    by (auto simp: db_inv_at_def)
  have seq: "lsm_next_seq_no (le_lsm e) = m" using eok by (auto simp: engine_ok_def plain_rep_def)
  obtain l' where put: "lsm_Put (le_lsm e) key val = (m, l')" by (simp add: lsm_Put_eq seq)
  obtain d' w' where wr: "ww_Write (db_disk db) w (upsert_event sid r) = (d', w')" by (rule prod.exhaust)
  have up': "e' = e\<lparr>le_lsm := l'\<rparr>" "env' = (d', w')"
    using up eok w(1) wr by (auto simp: le_Upsert_def put db_env_def wal_log_def engine_ok_def upsert_event_def r_def)
  have dist: "distinct (map fst (db_disk db))" and dirs: "dirs_ok db (fst ` set logs)" using inv by (simp_all add: db_inv_at_def dirs_ok_def)
  have wal: "''/wal'' = ''/'' @ kWal" by (simp add: kWal_def)
  have only: "only_in (db_base_dir db @ ''/'' @ kWal) (db_disk db) d'" using only_in_log_Write [OF w(2) wr] by (simp add: wal)
  have db: "db_base_dir ?db = db_base_dir db" "db_lsm_options ?db = db_lsm_options db" "db_disk ?db = d'" "db_dirs ?db = db_dirs db"
    "db_wal_writer ?db = Some w'" "db_tx_storage ?db = ts'" "db_is_initialized ?db = db_is_initialized db"
    "db_storages ?db = AList.update sid e' (db_storages db)"
    by (simp_all add: set_storage_def db_set_env_def up' w(1))
  have frame: "engine_ok crc ?db sid' a b" if "engine_ok crc db sid' a b" "good_sid sid'" for sid' a b
    using engine_ok_frame [OF that(1) only _ dist] db good_sid_wal [OF that(2)] by auto
  have "plain_rep crc l' (db_disk db) (m + 1, r # log)"
    using plain_rep_Put [OF _ m _ put] eok fits by (simp add: engine_ok_def r_def)
  then have "engine_ok crc db sid e' (m + 1, r # log)"
    using eok put by (auto simp: engine_ok_def up' lsm_Put_eq)
  note new = frame [OF this good]
  let ?P = "\<lambda>sid e s. engine_ok crc db sid e s \<and> log_ok (db_lsm_options db) sid s evs \<and> good_sid sid"
  let ?Q = "\<lambda>sid e s. engine_ok crc ?db sid e s \<and> log_ok (db_lsm_options db) sid s ?evs"
  have old: "list_all2 (\<lambda>(k, a) (k', b). k = k' \<and> ?P k a b) (db_storages db) logs"
    using inv unfolding db_inv_at_def by (auto simp: list_all2_conv_all_nth split_beta)
  have all: "list_all2 (\<lambda>(k, a) (k', b). k = k' \<and> ?Q k a b) (AList.update sid e' (db_storages db)) ?logs"
  proof (rule list_all2_update [where P = ?P and Q = ?Q, OF old _ s])
    show "distinct (map fst logs)" using inv by (simp add: db_inv_at_def)
    show "?Q sid e' (m + 1, r # log)" using new log_ok_put [OF lok fits ver m] by (simp add: r_def)
    show "?Q sid' a b" if "sid' \<noteq> sid" "?P sid' a b" for sid' a b
      using that frame log_ok_other [of "db_lsm_options db" sid' b evs "upsert_event sid r"] by auto
  qed
  have keys: "map fst ?logs = map fst logs" using s by (simp add: keys_update)
  then have sids: "fst ` set ?logs = fst ` set logs" by (metis list.set_map)
  have "sid \<in> fst ` set logs" using s by (force dest: map_of_SomeD)
  then have "events_ok ts' (fst ` set logs) ?evs"
    using inv ts by (intro events_ok_snoc [of "db_tx_storage db"]) (auto simp: db_inv_at_def upsert_event_def)
  moreover have "dirs_ok ?db (fst ` set logs)" using dirs_ok_frame [OF dirs only] db by simp
  moreover have "log_at st d' w' (db_base_dir db @ ''/wal'') ?evs"
    using log_at_Write [OF w(2) _ wr] small by (simp add: upsert_event_def r_def)
  ultimately show ?thesis
    using inv ts all unfolding db_inv_at_def db sids keys by simp
qed

subsection \<open>Transactions\<close>

lemma inv_at_tx:
  assumes "db_inv_at st crc db logs evs" "ts_IsCommited ts' = ts_IsCommited (db_tx_storage db)" "ts_wal_writer ts'" "ts_bounded ts'"
  shows "db_inv_at st crc (db\<lparr>db_tx_storage := ts'\<rparr>) logs evs"
  using assms by (simp add: db_inv_at_def dirs_ok_def events_ok_def engine_ok_def)

lemma inv_at_Commit:
  assumes inv: "db_inv_at st crc db logs evs" and tx: "is_int64 (ses_tx s)" "ts_tx_status (db_tx_storage db) (ses_tx s) \<noteq> None"
  shows "db_inv_at st crc (ses_Commit db s) logs (evs @ [TxStorageCommitEvent (ses_tx s)])"
proof -
  let ?ev = "TxStorageCommitEvent (ses_tx s)" and ?ts = "fst (ts_Commit (db_tx_storage db) (ses_tx s) (db_env db))"
  from inv obtain w where w: "db_wal_writer db = Some w" "log_at st (db_disk db) w (db_base_dir db @ ''/wal'') evs"
    and att: "ts_wal_writer (db_tx_storage db)" by (auto simp: db_inv_at_def)
  obtain d' w' where wr: "ww_Write (db_disk db) w ?ev = (d', w')" by (rule prod.exhaust)
  have env: "snd (ts_Commit (db_tx_storage db) (ses_tx s) (db_env db)) = (d', w')" "ts_wal_writer ?ts"
    using wr w(1) att by (simp_all add: ts_Commit_def Let_def wal_log_def db_env_def)
  let ?db = "ses_Commit db s"
  have db: "db_base_dir ?db = db_base_dir db" "db_lsm_options ?db = db_lsm_options db" "db_disk ?db = d'" "db_dirs ?db = db_dirs db"
    "db_wal_writer ?db = Some w'" "db_tx_storage ?db = ?ts" "db_is_initialized ?db = db_is_initialized db"
    "db_storages ?db = db_storages db"
    using env by (simp_all add: ses_Commit_def db_set_env_def split_beta w(1))
  have dist: "distinct (map fst (db_disk db))" and dirs: "dirs_ok db (fst ` set logs)" using inv by (simp_all add: db_inv_at_def dirs_ok_def)
  have only: "only_in (db_base_dir db @ ''/'' @ kWal) (db_disk db) d'"
    using only_in_log_Write [OF w(2) wr] by (simp add: kWal_def)
  have frame: "engine_ok crc ?db sid a b" if "engine_ok crc db sid a b" "good_sid sid" for sid a b
    using engine_ok_frame [OF that(1) only _ dist] db good_sid_wal [OF that(2)] by auto
  have "list_all2 (\<lambda>(sid, e) (sid', s). sid = sid' \<and> engine_ok crc ?db sid e s \<and> log_ok (db_lsm_options db) sid s (evs @ [?ev])) (db_storages db) logs"
    using inv unfolding db_inv_at_def by (auto simp: list_all2_conv_all_nth split_beta intro!: frame log_ok_other)
  moreover have "ts_bounded ?ts"
    using inv tx(2) by (auto simp: db_inv_at_def events_ok_def ts_bounded_def ts_Commit_def Let_def)
  then have "events_ok ?ts (fst ` set logs) (evs @ [?ev])"
    using inv by (intro events_ok_snoc [of "db_tx_storage db"]) (auto simp: db_inv_at_def status_frame)
  moreover have "dirs_ok ?db (fst ` set logs)" using dirs_ok_frame [OF dirs only] db by simp
  moreover have "log_at st d' w' (db_base_dir db @ ''/wal'') (evs @ [?ev])"
    using log_at_Write [OF w(2) _ wr] tx by (simp add: small_event_def kWalPageSize_def)
  ultimately show ?thesis using inv env(2) unfolding db_inv_at_def db by simp
qed

subsection \<open>Flush\<close>

lemma update_same: "map_of xs k = Some v \<Longrightarrow> AList.update k v xs = xs"
  by (induction xs) (auto split: if_splits)

lemma inv_at_Flush_one:
  assumes inv: "db_inv_at st crc db logs evs" and s: "map_of logs sid = Some s" and e: "map_of (db_storages db) sid = Some e"
  shows "\<exists>e' d'. le_Flush crc e (db_disk db) = Inr (e', d') \<and> db_inv_at st crc (set_storage sid e' (db\<lparr>db_disk := d'\<rparr>)) logs evs"
proof -
  from db_inv_storage [OF db_invI [OF inv] s] e have eok: "engine_ok crc db sid e s" and good: "good_sid sid"
    and lok: "log_ok (db_lsm_options db) sid s evs" by auto
  then have rep: "plain_rep crc (le_lsm e) (db_disk db) s" and base: "lsm_base_dir (le_lsm e) = db_base_dir db @ ''/'' @ sid"
    by (simp_all add: engine_ok_def)
  from plain_rep_Flush [OF rep] obtain l' d' where fl: "lsm_Flush crc (le_lsm e) (db_disk db) = Inr (l', d')"
    "plain_rep crc l' d' s" "lsm_options l' = lsm_options (le_lsm e)" "lsm_base_dir l' = lsm_base_dir (le_lsm e)"
    and only: "only_in (db_base_dir db @ ''/'' @ sid) (db_disk db) d'" unfolding base by blast
  let ?e = "e\<lparr>le_lsm := l'\<rparr>"
  let ?db = "set_storage sid ?e (db\<lparr>db_disk := d'\<rparr>)"
  have db: "db_base_dir ?db = db_base_dir db" "db_lsm_options ?db = db_lsm_options db" "db_disk ?db = d'" "db_dirs ?db = db_dirs db"
    "db_wal_writer ?db = db_wal_writer db" "db_tx_storage ?db = db_tx_storage db" "db_is_initialized ?db = db_is_initialized db"
    "db_storages ?db = AList.update sid ?e (db_storages db)"
    by (simp_all add: set_storage_def)
  have dist: "distinct (map fst (db_disk db))" and dirs: "dirs_ok db (fst ` set logs)" using inv by (simp_all add: db_inv_at_def dirs_ok_def)
  have dist': "distinct (map fst d')" using only dist by (simp add: only_in_def)
  have new: "engine_ok crc ?db sid ?e s" using eok fl db by (simp add: engine_ok_def)
  let ?P = "\<lambda>sid e s. engine_ok crc db sid e s \<and> log_ok (db_lsm_options db) sid s evs"
  let ?Q = "\<lambda>sid e s. engine_ok crc ?db sid e s \<and> log_ok (db_lsm_options db) sid s evs"
  have old: "list_all2 (\<lambda>(k, a) (k', b). k = k' \<and> ?P k a b) (db_storages db) logs" using inv by (simp add: db_inv_at_def)
  have "list_all2 (\<lambda>(k, a) (k', b). k = k' \<and> ?Q k a b) (AList.update sid ?e (db_storages db)) (AList.update sid s logs)"
  proof (rule list_all2_update [where P = ?P and Q = ?Q, OF old _ s])
    show "distinct (map fst logs)" using inv by (simp add: db_inv_at_def)
    show "?Q sid ?e s" using new lok by simp
    show "?Q sid' a b" if "sid' \<noteq> sid" "?P sid' a b" for sid' a b
      using that engine_ok_frame [OF _ only _ dist, of crc sid' a b ?db] db by auto
  qed
  then have all: "list_all2 (\<lambda>(k, a) (k', b). k = k' \<and> ?Q k a b) (AList.update sid ?e (db_storages db)) logs"
    by (simp add: update_same [OF s])
  have "sid \<in> fst ` set logs" using s by (force dest: map_of_SomeD)
  then have "dirs_ok ?db (fst ` set logs)" using dirs_ok_frame [OF dirs only] db by simp
  moreover from inv obtain w where w: "db_wal_writer db = Some w" "log_at st (db_disk db) w (db_base_dir db @ ''/wal'') evs"
    by (auto simp: db_inv_at_def)
  have "same_in (db_base_dir db @ ''/wal'') (db_disk db) d'"
    using only_in_same_in [OF only] good_sid_wal [OF good] by (simp add: kWal_def)
  then have "log_at st d' w (db_base_dir db @ ''/wal'') evs" by (rule log_at_frame [OF w(2) _ dist'])
  ultimately have "db_inv_at st crc ?db logs evs" using inv all w(1) unfolding db_inv_at_def db by simp
  with fl(1) show ?thesis by (auto simp: le_Flush_def)
qed

lemma inv_at_FlushAll:
  assumes "db_inv_at st crc db logs evs" "set sids \<subseteq> fst ` set logs"
  shows "\<exists>db'. db_FlushAll crc db sids = Inr db' \<and> db_inv_at st crc db' logs evs"
  using assms
proof (induction sids arbitrary: db)
  case (Cons sid sids)
  then obtain s where s: "map_of logs sid = Some s" by (metis list.set_intros(1) map_of_eq_None_iff not_None_eq subsetD)
  from db_inv_storage [OF db_invI [OF Cons.prems(1)] s] obtain e where e: "map_of (db_storages db) sid = Some e" by blast
  from inv_at_Flush_one [OF Cons.prems(1) s e] obtain e' d' where
    "le_Flush crc e (db_disk db) = Inr (e', d')" "db_inv_at st crc (set_storage sid e' (db\<lparr>db_disk := d'\<rparr>)) logs evs" by blast
  with Cons e show ?case by (auto simp: storages_at_def)
qed simp

lemma inv_at_Flush:
  assumes "db_inv_at st crc db logs evs"
  shows "\<exists>db'. db_Flush crc db = Inr db' \<and> db_inv_at st crc db' logs evs"
proof -
  have "map fst (db_storages db) = map fst logs" using assms by (auto simp: db_inv_at_def dest: list_all2_keys)
  then show ?thesis using inv_at_FlushAll [OF assms, of "map fst (db_storages db)"] by (simp add: db_Flush_def)
qed

subsection \<open>New storages\<close>

lemma inv_at_add:
  assumes inv: "db_inv_at st crc db logs evs" and fresh: "sid \<notin> fst ` set logs" and good: "good_sid sid"
  defines "db1 \<equiv> db\<lparr>db_dirs := io_CreateDirectory (db_dirs db) (db_base_dir db @ ''/'' @ sid)\<rparr>"
  shows "\<exists>e. new_engine db1 sid = Inr e \<and>
    db_inv_at st crc (db1\<lparr>db_storages := try_emplace sid e (db_storages db1)\<rparr>) (logs @ [(sid, (1, []))]) evs"
proof -
  let ?dir = "db_base_dir db @ ''/'' @ sid" and ?o = "db_lsm_options db"
  have dirs: "dirs_ok db (fst ` set logs)" and dist: "distinct (map fst (db_disk db))" and opts: "good_options ?o"
    using inv by (simp_all add: db_inv_at_def dirs_ok_def)
  obtain w where w: "db_wal_writer db = Some w" using inv by (auto simp: db_inv_at_def)
  have empty: "io_ListDirectory (db_disk db) ?dir = []"
    using dirs_ok_fresh [OF dirs] fresh good_sid_wal [OF good] by simp
  let ?e = "\<lparr>le_id = sid, le_lsm = (Lsm ?dir ?o)\<lparr>lsm_next_seq_no := 1\<rparr>, le_wal_writer = True\<rparr>"
  let ?db = "db1\<lparr>db_storages := try_emplace sid ?e (db_storages db1)\<rparr>"
  have init: "new_engine db1 sid = Inr ?e"
    using lsm_Init_empty [OF empty, of ?o] w
    by (simp add: new_engine_def db1_def le_Init_def LsmEngine_def le_StartLogInto_def)
  have keys: "map fst (db_storages db) = map fst logs" using inv by (auto simp: db_inv_at_def dest: list_all2_keys)
  then have "map_of (db_storages db) sid = None" using fresh by (metis list.set_map map_of_eq_None_iff)
  then have sts: "db_storages ?db = db_storages db @ [(sid, ?e)]" by (simp add: try_emplace_def db1_def)
  have db: "db_base_dir ?db = db_base_dir db" "db_lsm_options ?db = ?o" "db_disk ?db = db_disk db"
    "db_wal_writer ?db = db_wal_writer db" "db_tx_storage ?db = db_tx_storage db" "db_is_initialized ?db = db_is_initialized db"
    "db_dirs ?db = List.insert ?dir (db_dirs db)"
    by (simp_all add: db1_def io_CreateDirectory_def)
  have eng: "engine_ok crc ?db k a b \<longleftrightarrow> engine_ok crc db k a b" for k a b unfolding engine_ok_def db ..
  have "engine_ok crc db sid ?e (1, [])"
    using plain_rep_empty [OF opts empty dist, of crc] by (simp add: engine_ok_def) (simp add: Lsm_def)
  moreover have "filter (upsert_of sid) evs = []" using inv fresh by (auto simp: db_inv_at_def events_ok_def filter_empty_conv)
  then have "log_ok ?o sid (1, []) evs" by (simp add: log_ok_def kMaxSequence_def)
  ultimately have "list_all2 (\<lambda>(sid, e) (sid', s). sid = sid' \<and> engine_ok crc ?db sid e s \<and> log_ok ?o sid s evs)
      (db_storages ?db) (logs @ [(sid, (1, []))])"
    using inv unfolding sts eng db_inv_at_def by (intro list_all2_appendI) simp_all
  moreover have "dirs_ok ?db (insert sid (fst ` set logs))" using dirs unfolding dirs_ok_def db by auto
  moreover have "events_ok (db_tx_storage db) (insert sid (fst ` set logs)) evs" using inv by (auto simp: db_inv_at_def events_ok_def)
  ultimately have "db_inv_at st crc ?db (logs @ [(sid, (1, []))]) evs"
    using inv fresh good unfolding db_inv_at_def db by simp
  with init show ?thesis by blast
qed

subsection \<open>Start in an empty directory\<close>

lemma inv_at_Init:
  assumes "good_options opts"
  shows "\<exists>db. db_Init (Database [] [] base opts) = Inr db \<and> db_base_dir db = base \<and> db_lsm_options db = opts \<and>
    db_tx_storage db = ts_StartLogInto Tx_Storage \<and> db_inv_at (0, []) crc db [(kSysTables, (1, []))] []"
proof -
  let ?wal = "base @ ''/wal''" and ?dir = "base @ ''/'' @ kSysTables"
  obtain d w where open_wal: "Writer_Open [] ?wal = (d, w)" by (rule prod.exhaust)
  let ?l = "(Lsm ?dir opts)\<lparr>lsm_next_seq_no := 1\<rparr>"
  have empty: "io_ListDirectory [] dir = []" for dir by (simp add: io_ListDirectory_def)
  note lsm = lsm_Init_empty [OF empty, of ?dir opts]
  let ?dirs = "[?dir, base @ ''/'' @ kSysTransactions]"
  have names: "filter (\<lambda>name. name \<notin> set kInternalTables) (io_ListEntries [] ?dirs base) = []"
    by (simp add: io_ListEntries_def empty kInternalTables_def)
  let ?e = "\<lparr>le_id = kSysTables, le_lsm = ?l, le_wal_writer = True\<rparr>"
  let ?db = "\<lparr>db_base_dir = base, db_lsm_options = opts, db_wal_writer = Some w, db_storages = [(kSysTables, ?e)],
    db_tx_storage = ts_StartLogInto Tx_Storage, db_is_initialized = True, db_disk = d, db_dirs = ?dirs\<rparr>"
  have "kSysTables \<noteq> kSysTransactions" by (simp add: kSysTables_def kSysTransactions_def)
  then have init: "db_Init (Database [] [] base opts) = Inr ?db"
    using open_wal lsm names
    by (simp add: db_Init_def Database_def io_CreateDirectory_def Let_def le_Init_def LsmEngine_def try_emplace_def
        Recover_def Reader_Read_def empty le_StartLogInto_def)
  have at: "log_at (0, []) d w ?wal []" using wal_at_open [OF wal_holds_empty open_wal] by (simp add: log_at_def)
  have only: "only_in ?wal [] d" using only_in_Writer_Open [OF wal_holds_empty, of ?wal] open_wal by simp
  have "same_in ?dir [] d"
    by (rule only_in_same_in [OF only]) (simp add: kSysTables_def)
  then have "plain_rep crc ?l d (1, [])"
    using plain_rep_frame [OF plain_rep_empty [OF assms empty [of ?dir], of crc], of d] only
    by (simp add: only_in_def) (simp add: Lsm_def)
  then have "engine_ok crc ?db kSysTables ?e (1, [])" by (simp add: engine_ok_def) (simp add: Lsm_def)
  moreover have "in_directory ?wal path" if "path \<in> fst ` set d" for path
    using that only by (auto simp: only_in_def in_fst_set_conv)
  then have "dirs_ok ?db {kSysTables}"
    using only \<open>kSysTables \<noteq> kSysTransactions\<close> by (auto simp: dirs_ok_def only_in_def kWal_def)
  ultimately have "db_inv_at (0, []) crc ?db [(kSysTables, (1, []))] []"
    using assms at by (simp add: db_inv_at_def log_ok_def kMaxSequence_def events_ok_def good_sid_def ts_StartLogInto_def Tx_Storage_def
        ts_IsCommited_def ts_bounded_def kSysTables_def)
  with init show ?thesis by auto
qed

subsection \<open>Whatever the server found when it started\<close>

lemma db_inv_tx:
  assumes "db_inv crc db logs evs" "ts_IsCommited ts' = ts_IsCommited (db_tx_storage db)" "ts_wal_writer ts'" "ts_bounded ts'"
  shows "db_inv crc (db\<lparr>db_tx_storage := ts'\<rparr>) logs evs"
  using assms unfolding db_inv_def by (blast intro: inv_at_tx)

lemma db_inv_Commit:
  assumes "db_inv crc db logs evs" "is_int64 (ses_tx s)" "ts_tx_status (db_tx_storage db) (ses_tx s) \<noteq> None"
  shows "db_inv crc (ses_Commit db s) logs (evs @ [TxStorageCommitEvent (ses_tx s)])"
  using assms unfolding db_inv_def by (blast intro: inv_at_Commit)

lemma db_inv_Flush:
  assumes "db_inv crc db logs evs"
  shows "\<exists>db'. db_Flush crc db = Inr db' \<and> db_inv crc db' logs evs"
  using assms unfolding db_inv_def by (blast dest: inv_at_Flush)

lemma db_inv_add:
  assumes "db_inv crc db logs evs" "sid \<notin> fst ` set logs" "good_sid sid"
  defines "db1 \<equiv> db\<lparr>db_dirs := io_CreateDirectory (db_dirs db) (db_base_dir db @ ''/'' @ sid)\<rparr>"
  shows "\<exists>e. new_engine db1 sid = Inr e \<and>
    db_inv crc (db1\<lparr>db_storages := try_emplace sid e (db_storages db1)\<rparr>) (logs @ [(sid, (1, []))]) evs"
proof -
  from assms(1) obtain st where "db_inv_at st crc db logs evs" unfolding db_inv_def by blast
  from inv_at_add [OF this assms(2,3)] show ?thesis unfolding db1_def using db_invI by blast
qed

lemma db_inv_Init:
  assumes "good_options opts"
  shows "\<exists>db. db_Init (Database [] [] base opts) = Inr db \<and> db_base_dir db = base \<and> db_lsm_options db = opts \<and>
    db_tx_storage db = ts_StartLogInto Tx_Storage \<and> db_inv crc db [(kSysTables, (1, []))] []"
  using inv_at_Init [OF assms, of base crc] db_invI by blast

end
