(* ===== verification/Database_Steps.thy ===== *)
theory Database_Steps
  imports Database_Inv
begin

section \<open>Everything sessions and the flush job do to a database\<close>

text \<open>
  The operations of sessions and of the flush job as steps, in any interleaving. The guard
  \<open>write_fits\<close> says that a version fits into a page of its table and its event into a page of the
  log, and that sequence numbers are left; what happens to versions that do not fit is outside
  of the invariant.
\<close>

definition write_fits :: "database \<Rightarrow> string \<Rightarrow> string \<Rightarrow> transactional_value \<Rightarrow> bool" where
  "write_fits db sid key v \<longleftrightarrow>
     valid_tv v \<and> 58 + length key + length (tv_value v) \<le> nat (page_size (db_lsm_options db)) \<and>
     58 + length sid + length key + length (tv_value v) \<le> 4096 \<and>
     (case map_of (db_storages db) sid of None \<Rightarrow> True | Some e \<Rightarrow> lsm_next_seq_no (le_lsm e) < kMaxSequence)"

inductive db_step :: "crc32 \<Rightarrow> database \<Rightarrow> database \<Rightarrow> bool" for crc where
  step_begin: "db_StartSession db None = Inr (s, db') \<Longrightarrow> db_step crc db db'"
| step_upsert: "tx_Upsert db sid tx key val = Some (Inr db') \<Longrightarrow> write_fits db sid key (new_version tx (Some val)) \<Longrightarrow> db_step crc db db'"
| step_delete: "tx_Delete crc db sid tx key = Some (Inr (b, db')) \<Longrightarrow> write_fits db sid key (new_version tx None) \<Longrightarrow> db_step crc db db'"
| step_commit: "is_int64 (ses_tx s) \<Longrightarrow> ts_tx_status (db_tx_storage db) (ses_tx s) \<noteq> None \<Longrightarrow> db_step crc db (ses_Commit db s)"
| step_flush: "Flush_Step crc db = Inr db' \<Longrightarrow> db_step crc db db'"
| step_create: "ses_CreateTable crc db s uuid name = Some (Inr db') \<Longrightarrow>
    write_fits db kSysTables name (new_version (ses_tx s) (Some (ti_ToString \<lparr>ti_status = kCreated, ti_id = uuid\<rparr>))) \<Longrightarrow>
    good_sid uuid \<Longrightarrow> map_of (db_storages db) uuid = None \<Longrightarrow> db_step crc db db'"
| step_drop: "ses_DropTable crc db s name = Some (Inr db') \<Longrightarrow>
    (\<forall>i. cat_GetTableInfo crc db (ses_tx s) name = Some (Inr (Some i)) \<longrightarrow>
       write_fits db kSysTables name (new_version (ses_tx s) (Some (ti_ToString (i\<lparr>ti_status := kDropped\<rparr>))))) \<Longrightarrow>
    db_step crc db db'"

lemma write_fits_event:
  assumes "write_fits db sid key v" "is_int64 m"
  shows "small_event (LsmStorageUpsertEvent sid m key (tv_bytes v))"
  using assms by (auto simp: write_fits_def small_event_def length_tv_bytes kWalPageSize_def)

lemma inv_at_write:
  assumes inv: "db_inv_at st crc db logs evs" and s: "map_of logs sid = Some (m, log)" and e: "map_of (db_storages db) sid = Some e"
    and fits: "write_fits db sid key v" and lock: "ts_AcquireRowLock (db_tx_storage db) tx key = Some ts'"
    and up: "le_Upsert e (db_env db) \<lparr>row_key = key, row_value = tv_bytes v\<rparr> = (e', env')"
  shows "db_inv_at st crc (set_storage sid e' (db_set_env env' (db\<lparr>db_tx_storage := ts'\<rparr>)))
    (AList.update sid (m + 1, Record key m (tv_bytes v) # log) logs) (evs @ [upsert_event sid (Record key m (tv_bytes v))])"
proof -
  from db_inv_storage [OF db_invI [OF inv] s] e have eok: "engine_ok crc db sid e (m, log)" and lok: "log_ok (db_lsm_options db) sid (m, log) evs" by auto
  have "lsm_next_seq_no (le_lsm e) = m" using eok by (auto simp: engine_ok_def plain_rep_def)
  then have m: "m < kMaxSequence" using fits e by (simp add: write_fits_def)
  have "1 \<le> m" using lok by (simp add: log_ok_def)
  with m have "is_int64 m" by (simp add: kMaxSequence_def)
  note small = write_fits_event [OF fits this]
  have ts: "ts_IsCommited ts' = ts_IsCommited (db_tx_storage db)" "ts_wal_writer ts'" "ts_bounded ts'"
    using lock inv status_frame(1) [OF lock]
    by (auto simp: ts_AcquireRowLock_def db_inv_at_def events_ok_def ts_bounded_def split: if_splits)
  show ?thesis
    using fits by (intro inv_at_put [OF inv e s m _ small _ ts up]) (auto simp: write_fits_def length_tv_bytes)
qed

lemma inv_at_tx_Upsert:
  assumes inv: "db_inv_at st crc db logs evs" and s: "map_of logs sid = Some (m, log)"
    and up: "tx_Upsert db sid tx key val = Some (Inr db')" and fits: "write_fits db sid key (new_version tx (Some val))"
  defines "r \<equiv> Record key m (tv_bytes (new_version tx (Some val)))"
  shows "db_inv_at st crc db' (AList.update sid (m + 1, r # log) logs) (evs @ [upsert_event sid r])"
proof -
  from db_inv_storage [OF db_invI [OF inv] s] obtain e where e: "map_of (db_storages db) sid = Some e" by blast
  from up e obtain ts' e' env' where "ts_AcquireRowLock (db_tx_storage db) tx key = Some ts'"
    "le_Upsert e (db_env db) \<lparr>row_key = key, row_value = tv_bytes (new_version tx (Some val))\<rparr> = (e', env')"
    "db' = set_storage sid e' (db_set_env env' (db\<lparr>db_tx_storage := ts'\<rparr>))"
    by (auto simp: tx_Upsert_def storages_at_def tt_Upsert_def tv_ToString_bytes new_version_def Let_def split: option.splits prod.splits)
  with inv_at_write [OF inv s e fits] show ?thesis by (simp add: r_def)
qed

lemma db_inv_write:
  assumes "db_inv crc db logs evs" and "map_of logs sid = Some (m, log)" and "map_of (db_storages db) sid = Some e"
    and "write_fits db sid key v" and "ts_AcquireRowLock (db_tx_storage db) tx key = Some ts'"
    and "le_Upsert e (db_env db) \<lparr>row_key = key, row_value = tv_bytes v\<rparr> = (e', env')"
  shows "db_inv crc (set_storage sid e' (db_set_env env' (db\<lparr>db_tx_storage := ts'\<rparr>)))
    (AList.update sid (m + 1, Record key m (tv_bytes v) # log) logs) (evs @ [upsert_event sid (Record key m (tv_bytes v))])"
  using assms(1) inv_at_write [OF _ assms(2-)] unfolding db_inv_def by blast

lemma db_inv_tx_Upsert:
  assumes "db_inv crc db logs evs" and "map_of logs sid = Some (m, log)"
    and "tx_Upsert db sid tx key val = Some (Inr db')" and "write_fits db sid key (new_version tx (Some val))"
  defines "r \<equiv> Record key m (tv_bytes (new_version tx (Some val)))"
  shows "db_inv crc db' (AList.update sid (m + 1, r # log) logs) (evs @ [upsert_event sid r])"
  using assms(1) inv_at_tx_Upsert [OF _ assms(2-4)] unfolding db_inv_def r_def by blast

lemma db_inv_has_log:
  assumes "db_inv crc db logs evs" "map_of (db_storages db) sid = Some e"
  obtains m log where "map_of logs sid = Some (m, log)"
proof -
  have "map fst (db_storages db) = map fst logs" using assms(1) by (auto simp: db_inv_def db_inv_at_def dest: list_all2_keys)
  with assms(2) have "map_of logs sid \<noteq> None" by (metis list.set_map map_of_eq_None_iff option.distinct(1))
  then show thesis using that by fastforce
qed

text \<open>
  What every step does to the abstract state: events are only added to the log, and no storage
  goes away.
\<close>

definition db_after :: "crc32 \<Rightarrow> storage_logs \<Rightarrow> event list \<Rightarrow> database \<Rightarrow> bool" where
  "db_after crc logs evs db \<longleftrightarrow>
     (\<exists>logs' evs'. db_inv crc db logs' (evs @ evs') \<and> fst ` set logs \<subseteq> fst ` set logs')"

lemma db_afterI: "db_inv crc db logs' (evs @ evs') \<Longrightarrow> fst ` set logs \<subseteq> fst ` set logs' \<Longrightarrow> db_after crc logs evs db"
  unfolding db_after_def by blast

lemma db_after_refl: "db_inv crc db logs evs \<Longrightarrow> db_after crc logs evs db"
  unfolding db_after_def by (rule exI [of _ logs], rule exI [of _ "[]"]) simp

lemma keys_update_subset: "fst ` set xs \<subseteq> fst ` set (AList.update k v xs)"
  by (induction xs) auto

lemma db_after_Upsert:
  assumes inv: "db_inv crc db logs evs" and up: "tx_Upsert db sid tx key val = Some (Inr db')"
    and fits: "write_fits db sid key (new_version tx (Some val))"
  shows "db_after crc logs evs db' \<and> map fst (db_storages db') = map fst (db_storages db)"
proof -
  from up obtain e where e: "map_of (db_storages db) sid = Some e"
    by (auto simp: tx_Upsert_def storages_at_def split: option.splits)
  from db_inv_has_log [OF inv e] obtain m log where s: "map_of logs sid = Some (m, log)" .
  have "map fst (db_storages db') = map fst (db_storages db)"
    using up e by (auto simp: tx_Upsert_def storages_at_def set_storage_def db_set_env_def keys_update split: option.splits prod.splits)
  with db_afterI [OF db_inv_tx_Upsert [OF inv s up fits] keys_update_subset] show ?thesis by blast
qed

lemma db_after_Delete:
  assumes inv: "db_inv crc db logs evs" and del: "tx_Delete crc db sid tx key = Some (Inr (b, db'))"
    and fits: "write_fits db sid key (new_version tx None)"
  shows "db_after crc logs evs db'"
proof -
  from del obtain e where e: "map_of (db_storages db) sid = Some e"
    by (auto simp: tx_Delete_def storages_at_def split: option.splits)
  from db_inv_has_log [OF inv e] obtain m log where s: "map_of logs sid = Some (m, log)" .
  from del e obtain ts' e' env' where t: "tt_Delete crc (db_tx_storage db) e (db_env db) tx key = Some (Inr (b, ts', e', env'))"
    and db': "db' = set_storage sid e' (db_set_env env' (db\<lparr>db_tx_storage := ts'\<rparr>))"
    by (auto simp: tx_Delete_def storages_at_def bindM_def split: option.splits sum.splits)
  show ?thesis
  proof (cases b)
    case True
    with t have "ts_AcquireRowLock (db_tx_storage db) tx key = Some ts'"
      "le_Upsert e (db_env db) \<lparr>row_key = key, row_value = tv_bytes (new_version tx None)\<rparr> = (e', env')"
      by (auto simp: tt_Delete_def tv_ToString_bytes new_version_def Let_def split: option.splits sum.splits prod.splits)
    from db_afterI [OF db_inv_write [OF inv s e fits this] keys_update_subset] show ?thesis by (simp add: db')
  next
    case False
    with t have "ts' = db_tx_storage db" "e' = e" "env' = db_env db"
      by (auto simp: tt_Delete_def Let_def split: option.splits sum.splits prod.splits)
    moreover obtain w where "db_wal_writer db = Some w" using inv by (auto simp: db_inv_def db_inv_at_def)
    ultimately have "db' = db" by (simp add: db' set_storage_def db_set_env_def db_env_def update_same [OF e])
    with inv show ?thesis by (simp add: db_after_refl)
  qed
qed

lemma db_after_Create:
  assumes inv: "db_inv crc db logs evs" and cr: "ses_CreateTable crc db s uuid name = Some (Inr db')"
    and fits: "write_fits db kSysTables name (new_version (ses_tx s) (Some (ti_ToString \<lparr>ti_status = kCreated, ti_id = uuid\<rparr>)))"
    and good: "good_sid uuid" and fresh: "map_of (db_storages db) uuid = None"
  shows "db_after crc logs evs db'"
proof -
  from cr obtain db1 where add: "cat_AddStorage crc db (ses_tx s) uuid name = Some (Inr (uuid, db1))"
    by (auto simp: ses_CreateTable_def cat_AddStorage_def bindM_def split: option.splits sum.splits if_splits)
  then have "tx_Upsert db kSysTables (ses_tx s) name (ti_ToString \<lparr>ti_status = kCreated, ti_id = uuid\<rparr>) = Some (Inr db1)"
    by (auto simp: cat_AddStorage_def bindM_def split: option.splits sum.splits if_splits)
  from db_after_Upsert [OF inv this fits] obtain logs1 evs1 where inv1: "db_inv crc db1 logs1 (evs @ evs1)"
    and sub: "fst ` set logs \<subseteq> fst ` set logs1"
    and keys: "map fst (db_storages db1) = map fst (db_storages db)" unfolding db_after_def by blast
  have "map fst (db_storages db1) = map fst logs1" using inv1 by (auto simp: db_inv_def db_inv_at_def dest: list_all2_keys)
  with keys fresh have "uuid \<notin> fst ` set logs1" by (metis list.set_map map_of_eq_None_iff)
  from db_inv_add [OF inv1 this good] obtain e where
    e: "new_engine (db1\<lparr>db_dirs := io_CreateDirectory (db_dirs db1) (db_base_dir db1 @ ''/'' @ uuid)\<rparr>) uuid = Inr e"
    and inv2: "db_inv crc (db1\<lparr>db_dirs := io_CreateDirectory (db_dirs db1) (db_base_dir db1 @ ''/'' @ uuid),
        db_storages := try_emplace uuid e (db_storages db1)\<rparr>) (logs1 @ [(uuid, (1, []))]) (evs @ evs1)" by auto
  have "db' = db1\<lparr>db_dirs := io_CreateDirectory (db_dirs db1) (db_base_dir db1 @ ''/'' @ uuid),
      db_storages := try_emplace uuid e (db_storages db1)\<rparr>"
    using cr add e by (simp add: ses_CreateTable_def Let_def)
  moreover have "fst ` set logs \<subseteq> fst ` set (logs1 @ [(uuid, (1, []))])" using sub by auto
  ultimately show ?thesis using db_afterI [OF inv2] by simp
qed

lemma cat_DeleteStorage_cases:
  assumes "cat_DeleteStorage crc db tx name = Some (Inr db')"
  shows "db' = db \<or> (\<exists>i. cat_GetTableInfo crc db tx name = Some (Inr (Some i)) \<and>
    tx_Upsert db kSysTables tx name (ti_ToString (i\<lparr>ti_status := kDropped\<rparr>)) = Some (Inr db'))"
proof -
  obtain info where info: "cat_GetTableInfo crc db tx name = Some (Inr info)"
    using assms by (auto simp: cat_DeleteStorage_def bindM_def split: option.splits sum.splits if_splits)
  with assms show ?thesis by (cases info) (auto simp: cat_DeleteStorage_def split: if_splits)
qed

lemma db_after_Drop:
  assumes inv: "db_inv crc db logs evs" and dr: "ses_DropTable crc db s name = Some (Inr db')"
    and fits: "\<forall>i. cat_GetTableInfo crc db (ses_tx s) name = Some (Inr (Some i)) \<longrightarrow>
      write_fits db kSysTables name (new_version (ses_tx s) (Some (ti_ToString (i\<lparr>ti_status := kDropped\<rparr>))))"
  shows "db_after crc logs evs db'"
proof -
  from dr have "db' = db \<or> cat_DeleteStorage crc db (ses_tx s) name = Some (Inr db')"
    by (simp add: ses_DropTable_def split: option.splits sum.splits if_splits)
  then consider "db' = db" | i where "cat_GetTableInfo crc db (ses_tx s) name = Some (Inr (Some i))"
      "tx_Upsert db kSysTables (ses_tx s) name (ti_ToString (i\<lparr>ti_status := kDropped\<rparr>)) = Some (Inr db')"
    using cat_DeleteStorage_cases by blast
  then show ?thesis
  proof cases
    case 2
    with fits db_after_Upsert [OF inv 2(2)] show ?thesis by blast
  qed (use db_after_refl [OF inv] in simp)
qed

lemma db_inv_Begin:
  assumes inv: "db_inv crc db logs evs" and st: "db_StartSession db None = Inr (s, db')"
  shows "db_inv crc db' logs evs"
proof -
  let ?ts = "db_tx_storage db"
  have db': "db' = db\<lparr>db_tx_storage := snd (ts_Begin ?ts)\<rparr>"
    using st by (auto simp: db_StartSession_def ses_Start_def split_beta split: if_splits)
  have "ts_tx_status ?ts (ts_next_tx_id ?ts) = None" "ts_bounded ?ts" "ts_wal_writer ?ts"
    using inv by (auto simp: db_inv_def db_inv_at_def events_ok_def ts_bounded_def)
  then have "ts_IsCommited (snd (ts_Begin ?ts)) = ts_IsCommited ?ts" "ts_wal_writer (snd (ts_Begin ?ts))" "ts_bounded (snd (ts_Begin ?ts))"
    by (auto simp: ts_Begin_def Let_def ts_IsCommited_def fun_eq_iff ts_bounded_def)
  from db_inv_tx [OF inv this] show ?thesis by (simp add: db')
qed

lemma db_step_after: "db_step crc db db' \<Longrightarrow> db_inv crc db logs evs \<Longrightarrow> db_after crc logs evs db'"
proof (induction rule: db_step.induct)
  case (step_commit s db)
  from db_afterI [OF db_inv_Commit [OF step_commit(3,1,2)] subset_refl] show ?case .
next
  case (step_flush db db')
  from db_inv_Flush [OF step_flush(2)] step_flush(1) show ?case by (auto simp: Flush_Step_def intro: db_after_refl)
qed (auto intro: db_after_Upsert [THEN conjunct1] db_after_Delete db_after_Create db_after_Drop db_after_refl db_inv_Begin)

end
