(* ===== verification/Database_Recovery.thy ===== *)
theory Database_Recovery
  imports Database_Steps
begin

section \<open>Recovery of a database\<close>

text \<open>
  What \<open>Database::Init\<close> does with the files of a database that was stopped at any point: it opens
  the storages, which brings back the versions that had been flushed, and replays the log, which
  brings back the others and the status of the committed transactions.
\<close>

subsection \<open>Opening the storages\<close>

definition opened :: "database \<Rightarrow> string \<Rightarrow> lsm_engine" where
  "opened db name =
     \<lparr>le_id = name, le_lsm = projr (lsm_Init (db_disk db) (Lsm (db_base_dir db @ ''/'' @ name) (db_lsm_options db))), le_wal_writer = False\<rparr>"

lemma db_InitTables_eq:
  assumes "\<forall>name \<in> set names. \<exists>l. lsm_Init (db_disk db) (Lsm (db_base_dir db @ ''/'' @ name) (db_lsm_options db)) = Inr l"
    and "distinct names" "set names \<inter> fst ` set (db_storages db) = {}"
  shows "db_InitTables db names = Inr (db\<lparr>db_storages := db_storages db @ map (\<lambda>n. (n, opened db n)) names\<rparr>)"
  using assms
proof (induction names arbitrary: db)
  case (Cons name names)
  let ?db = "db\<lparr>db_storages := db_storages db @ [(name, opened db name)]\<rparr>"
  have "map_of (db_storages db) name = None" using Cons.prems(3) by (auto simp: map_of_eq_None_iff)
  moreover obtain l where "lsm_Init (db_disk db) (Lsm (db_base_dir db @ ''/'' @ name) (db_lsm_options db)) = Inr l"
    using Cons.prems(1) by auto
  ultimately have "db_InitTables db (name # names) = db_InitTables ?db names"
    by (simp add: le_Init_def LsmEngine_def opened_def try_emplace_def)
  also have "\<dots> = Inr (?db\<lparr>db_storages := db_storages ?db @ map (\<lambda>n. (n, opened ?db n)) names\<rparr>)"
    using Cons.prems by (intro Cons.IH) auto
  also have "opened ?db = opened db" by (simp add: opened_def fun_eq_iff)
  finally show ?case by simp
qed simp

lemma user_names:
  assumes dirs: "dirs_ok db sids" and good: "\<forall>sid \<in> sids. good_sid sid" and sys: "kSysTables \<in> sids"
  defines "names \<equiv> filter (\<lambda>name. name \<notin> set kInternalTables) (io_ListEntries (db_disk db) (db_dirs db) (db_base_dir db))"
  shows "distinct names" "set names = sids - {kSysTables}"
proof -
  let ?b = "db_base_dir db"
  have ns: "CHR ''/'' \<notin> set kSysTransactions" by (simp add: kSysTransactions_def)
  have all: "in_directory ?b p \<and> p = ?b @ ''/'' @ drop (Suc (length ?b)) p" if "p \<in> set (db_dirs db)" for p
    using that dirs good ns by (auto simp: dirs_ok_def in_directory_def good_sid_def)
  then have filt: "filter (in_directory ?b) (db_dirs db) = db_dirs db" by (simp add: filter_id_conv)
  have names: "names = filter (\<lambda>name. name \<notin> set kInternalTables) (map (drop (Suc (length ?b))) (db_dirs db))"
    by (simp add: names_def io_ListEntries_def dirs_ok_no_files [OF dirs] filt)
  have "inj_on (drop (Suc (length ?b))) (set (db_dirs db))" using all by (intro inj_onI) metis
  then show "distinct names" using dirs by (simp add: names dirs_ok_def distinct_map)
  have "set (map (drop (Suc (length ?b))) (db_dirs db)) = insert kSysTransactions sids"
    using dirs by (auto simp: dirs_ok_def image_iff)
  then show "set names = sids - {kSysTables}"
    using good by (auto simp: names good_sid_def kInternalTables_def)
qed

lemma io_CreateDirectory_exists: "path \<in> set dirs \<Longrightarrow> io_CreateDirectory dirs path = dirs"
  by (simp add: io_CreateDirectory_def)

subsection \<open>Replaying the log\<close>

lemma le_RecoverFromLog_skip: "lsm_next_seq_no (le_lsm e) \<noteq> seq \<Longrightarrow> le_RecoverFromLog e seq key val = e"
  by (simp add: le_RecoverFromLog_def lsm_PutSeq_def)

lemma le_rep_next: "le_rep crc e (n, log) \<Longrightarrow> lsm_next_seq_no (le_lsm e) = n"
  by (auto simp: le_rep_def log_rep_def)

lemma engine_ok_next: "engine_ok crc db sid (le_StartLogInto e) (n, log) \<Longrightarrow> lsm_next_seq_no (le_lsm e) = n"
  by (auto simp: engine_ok_def plain_rep_def le_StartLogInto_def)

text \<open>An event that carries the next sequence number of its storage is put into the tree.\<close>

lemma engine_ok_RecoverFromLog:
  assumes ok: "engine_ok crc db sid (le_StartLogInto e) (n, log)" and n: "n < kMaxSequence" and fits: "op_fits (db_lsm_options db) (OpPut key val)"
  shows "engine_ok crc db sid (le_StartLogInto (le_RecoverFromLog e n key val)) (n + 1, Record key n val # log)"
proof -
  note next_no = engine_ok_next [OF ok]
  obtain l where put: "lsm_Put (le_lsm e) key val = (n, l)" using next_no by (simp add: lsm_Put_eq)
  have l: "lsm_base_dir l = lsm_base_dir (le_lsm e)" "lsm_options l = lsm_options (le_lsm e)"
    using put by (auto simp: lsm_Put_eq lsm_DoPut_def Let_def)
  from ok have "plain_rep crc (le_lsm e) (db_disk db) (n, log)" "lsm_options (le_lsm e) = db_lsm_options db"
    by (simp_all add: engine_ok_def le_StartLogInto_def)
  with plain_rep_Put [OF _ n _ put] fits have "plain_rep crc l (db_disk db) (n + 1, Record key n val # log)" by simp
  with ok l put next_no show ?thesis
    by (simp add: engine_ok_def le_StartLogInto_def le_RecoverFromLog_def lsm_PutSeq_eq)
qed

text \<open>
  Replaying the events \<open>dn\<close> of the log brings a storage to its oldest \<open>k\<close> versions, where \<open>k\<close> counts
  what was on disk already or what has been replayed, whichever is more.
\<close>

fun next_tx_after :: "event list \<Rightarrow> int" where
  "next_tx_after [] = kInitialTxId"
| "next_tx_after (LsmStorageUpsertEvent sid seq key val # evs) = next_tx_after evs"
| "next_tx_after (TxStorageCommitEvent tx # evs) = max (tx + 1) (next_tx_after evs)"

lemma next_tx_after_ge [simp]: "kInitialTxId \<le> next_tx_after evs"
  by (induction evs rule: next_tx_after.induct) auto

lemma next_tx_after_append: "next_tx_after (evs @ evs') = max (next_tx_after evs) (next_tx_after evs')"
  by (induction evs rule: next_tx_after.induct) (auto simp: max_absorb2)

lemma next_tx_after_commit: "next_tx_after (evs @ [TxStorageCommitEvent tx]) = max (next_tx_after evs) (tx + 1)"
  by (induction evs rule: next_tx_after.induct) auto

definition replayed :: "crc32 \<Rightarrow> database \<Rightarrow> storage_logs \<Rightarrow> (string \<Rightarrow> nat) \<Rightarrow> event list \<Rightarrow> bool" where
  "replayed crc db logs pers dn \<longleftrightarrow>
     (\<forall>sid m log. map_of logs sid = Some (m, log) \<longrightarrow>
        (\<exists>e. map_of (db_storages db) sid = Some e \<and>
          (let k = max (pers sid) (length (filter (upsert_of sid) dn))
           in engine_ok crc db sid (le_StartLogInto e) (int k + 1, rev (take k (rev log)))))) \<and>
     ts_bounded (db_tx_storage db) \<and>
     (\<forall>tx. ts_IsCommited (db_tx_storage db) tx \<longleftrightarrow> TxStorageCommitEvent tx \<in> set dn) \<and>
     ts_next_tx_id (db_tx_storage db) = next_tx_after dn"

lemma log_ok_event:
  assumes ok: "log_ok opts sid (m, log) evs" and evs: "evs = dn @ LsmStorageUpsertEvent sid seq key val # rest"
  defines "c \<equiv> length (filter (upsert_of sid) dn)"
  shows "c < length log" "seq = int c + 1" "rev log ! c = Record key seq val" "op_fits opts (OpPut key val)"
proof -
  let ?us = "filter (upsert_of sid) evs"
  have us: "?us = map (upsert_event sid) (rev log)" using ok by (simp add: log_ok_def)
  have nth: "?us ! c = LsmStorageUpsertEvent sid seq key val" "c < length ?us" by (simp_all add: evs c_def)
  then show c: "c < length log" by (simp add: us)
  from nth(1) c have ev: "upsert_event sid (rev log ! c) = LsmStorageUpsertEvent sid seq key val" by (simp add: us)
  then show rec: "rev log ! c = Record key seq val" by (cases "rev log ! c") (simp add: upsert_event_def)
  have "map rec_seq (rev log) ! c = map int [1..<Suc (length log)] ! c" using ok by (simp add: log_ok_def)
  then show "seq = int c + 1" using c rec by (simp del: upt_Suc)
  have "rev log ! c \<in> set log" using c by (metis length_rev nth_mem set_rev)
  then show "op_fits opts (OpPut key val)" using ok rec by (fastforce simp: log_ok_def)
qed

lemma replayed_upsert:
  assumes rep: "replayed crc db logs pers dn" and log: "map_of logs sid = Some (m, log)"
    and ok: "log_ok (db_lsm_options db) sid (m, log) evs" and evs: "evs = dn @ LsmStorageUpsertEvent sid seq key val # rest"
  shows "\<exists>db'. ev_Apply (LsmStorageUpsertEvent sid seq key val) db = Inr db' \<and>
    replayed crc db' logs pers (dn @ [LsmStorageUpsertEvent sid seq key val]) \<and> (\<exists>st. db' = db\<lparr>db_storages := st\<rparr> \<and> map fst st = map fst (db_storages db))"
proof -
  let ?c = "length (filter (upsert_of sid) dn)" let ?k = "max (pers sid) ?c"
  from rep log obtain e where e: "map_of (db_storages db) sid = Some e"
      "engine_ok crc db sid (le_StartLogInto e) (int ?k + 1, rev (take ?k (rev log)))" unfolding replayed_def Let_def by blast
  let ?e = "le_RecoverFromLog e seq key val" let ?db = "set_storage sid ?e db"
  note ev = log_ok_event [OF ok evs]
  have ap: "ev_Apply (LsmStorageUpsertEvent sid seq key val) db = Inr ?db"
    using e(1) by (simp add: db_EnsureStorageForRecover_def)
  have new: "engine_ok crc db sid (le_StartLogInto ?e) (int (max (pers sid) (Suc ?c)) + 1, rev (take (max (pers sid) (Suc ?c)) (rev log)))"
  proof (cases "?k = ?c")
    case True
    have "int ?c + 1 < kMaxSequence" using ok ev(1) by (simp add: log_ok_def)
    then have "engine_ok crc db sid (le_StartLogInto ?e) (int ?c + 2, Record key seq val # rev (take ?c (rev log)))"
      using engine_ok_RecoverFromLog [OF e(2) _ ev(4)] True ev(2) by (simp add: add.commute)
    moreover have "max (pers sid) (Suc ?c) = Suc ?c" using True by simp
    ultimately show ?thesis using ev(1,3) by (simp add: take_Suc_conv_app_nth add.commute)
  next
    case False
    then have "max (pers sid) (Suc ?c) = ?k" "lsm_next_seq_no (le_lsm e) \<noteq> seq"
      using engine_ok_next [OF e(2)] ev(2) by auto
    then show ?thesis using e(2) by (simp add: le_RecoverFromLog_skip)
  qed
  have eng: "engine_ok crc ?db k a b \<longleftrightarrow> engine_ok crc db k a b" for k a b by (simp add: engine_ok_def set_storage_def)
  have "replayed crc ?db logs pers (dn @ [LsmStorageUpsertEvent sid seq key val])"
    using rep new log unfolding replayed_def eng by (auto simp: set_storage_def update_conv' Let_def next_tx_after_append max_absorb1)
  moreover have "?db = db\<lparr>db_storages := AList.update sid ?e (db_storages db)\<rparr>" by (simp add: set_storage_def)
  ultimately show ?thesis using ap keys_update [of "db_storages db" sid ?e] e(1) by auto
qed

lemma replayed_commit:
  assumes "replayed crc db logs pers dn"
  shows "replayed crc (db\<lparr>db_tx_storage := ts_RecoverFromLog (db_tx_storage db) tx\<rparr>) logs pers (dn @ [TxStorageCommitEvent tx])"
  using assms by (auto simp: replayed_def engine_ok_def ts_RecoverFromLog_def ts_IsCommited_def ts_bounded_def next_tx_after_commit)

lemma replay_all:
  assumes "replayed crc db logs pers dn" "\<forall>sid s. map_of logs sid = Some s \<longrightarrow> log_ok (db_lsm_options db) sid s (dn @ evs)"
    and "\<forall>ev \<in> set evs. \<forall>sid. upsert_of sid ev \<longrightarrow> sid \<in> fst ` set logs"
  shows "\<exists>st ts. let db' = db\<lparr>db_storages := st, db_tx_storage := ts\<rparr> in
    handle_all ev_Apply evs db = (db', None) \<and> replayed crc db' logs pers (dn @ evs) \<and> map fst st = map fst (db_storages db)"
  using assms
proof (induction evs arbitrary: db dn)
  case Nil
  then show ?case by (auto simp: Let_def intro!: exI [of _ "db_storages db"] exI [of _ "db_tx_storage db"])
next
  case (Cons ev evs)
  have "\<exists>st ts. let db' = db\<lparr>db_storages := st, db_tx_storage := ts\<rparr> in
      ev_Apply ev db = Inr db' \<and> replayed crc db' logs pers (dn @ [ev]) \<and> map fst st = map fst (db_storages db)"
  proof (cases ev)
    case (LsmStorageUpsertEvent sid seq key val)
    then obtain m log where "map_of logs sid = Some (m, log)" using Cons.prems(3)
      by simp (metis in_fst_set_conv option.exhaust surj_pair)
    with replayed_upsert [OF Cons.prems(1) this] Cons.prems(2) LsmStorageUpsertEvent obtain st where
      "ev_Apply ev db = Inr (db\<lparr>db_storages := st\<rparr>)" "replayed crc (db\<lparr>db_storages := st\<rparr>) logs pers (dn @ [ev])"
      "map fst st = map fst (db_storages db)" by blast
    then show ?thesis by (auto simp: Let_def intro!: exI [of _ st] exI [of _ "db_tx_storage db"])
  next
    case (TxStorageCommitEvent tx)
    with replayed_commit [OF Cons.prems(1), of tx] show ?thesis
      by (auto simp: Let_def intro!: exI [of _ "db_storages db"] exI [of _ "ts_RecoverFromLog (db_tx_storage db) tx"])
  qed
  then obtain st ts where db': "ev_Apply ev db = Inr (db\<lparr>db_storages := st, db_tx_storage := ts\<rparr>)"
      "replayed crc (db\<lparr>db_storages := st, db_tx_storage := ts\<rparr>) logs pers (dn @ [ev])" "map fst st = map fst (db_storages db)"
    by (auto simp: Let_def)
  from Cons.IH [OF db'(2)] Cons.prems(2,3) db'(1,3) show ?case by (simp add: Let_def)
qed

subsection \<open>Restart\<close>

lemma filter_upto:
  assumes "map rec_seq (rev log) = map int [1..<Suc (length log)]"
  shows "filter (\<lambda>r. rec_seq r \<le> int p) log = rev (take p (rev log))"
proof -
  have "filter (\<lambda>r. rec_seq r \<le> int p) xs = take p xs" if "map rec_seq xs = map int [1..<Suc (length xs)]" for xs :: "lsm_record list"
    using that
  proof (induction xs rule: rev_induct)
    case (snoc x xs)
    then have "rec_seq x = int (Suc (length xs))" "map rec_seq xs = map int [1..<Suc (length xs)]" by simp_all
    with snoc.IH show ?case by auto
  qed simp
  from this [of "rev log"] assms have "rev (filter (\<lambda>r. rec_seq r \<le> int p) log) = take p (rev log)"
    by (simp add: rev_filter)
  then show ?thesis by (metis rev_rev_ident)
qed

lemma plain_rep_persistent:
  "plain_rep crc l d (int n + 1, log) \<Longrightarrow> 0 \<le> lsm_max_persistent_seq_no l \<and> nat (lsm_max_persistent_seq_no l) \<le> n"
  by (auto simp: plain_rep_def lsm_inv_def)

text \<open>A storage opened on the files a storage left behind has the oldest versions of that storage.\<close>

definition persisted :: "database \<Rightarrow> string \<Rightarrow> nat" where
  "persisted db sid = (case map_of (db_storages db) sid of None \<Rightarrow> 0 | Some e \<Rightarrow> nat (lsm_max_persistent_seq_no (le_lsm e)))"

abbreviation few_tables :: "database \<Rightarrow> bool" where
  "few_tables db \<equiv> \<forall>(sid, e) \<in> set (db_storages db). length (lsm_ss_tables (le_lsm e)) \<le> 10000"

lemma opened_rep:
  assumes inv: "db_inv crc db logs evs" and log: "map_of logs sid = Some (m, log)" and few: "few_tables db"
  defines "p \<equiv> persisted db sid"
  shows "\<exists>l. lsm_Init (db_disk db) (Lsm (db_base_dir db @ ''/'' @ sid) (db_lsm_options db)) = Inr l"
    "engine_ok crc db sid (le_StartLogInto (opened db sid)) (int p + 1, rev (take p (rev log)))" "p \<le> length log"
proof -
  from db_inv_storage [OF inv log] obtain e where e: "map_of (db_storages db) sid = Some e" "engine_ok crc db sid e (m, log)"
    "log_ok (db_lsm_options db) sid (m, log) evs" by metis
  have p: "p = nat (lsm_max_persistent_seq_no (le_lsm e))" by (simp add: p_def persisted_def e(1))
  have few': "length (lsm_ss_tables (le_lsm e)) \<le> 10000" using few map_of_SomeD [OF e(1)] by auto
  have opts: "good_options (db_lsm_options db)" using inv by (auto simp: db_inv_def db_inv_at_def)
  have seqs: "map rec_seq (rev log) = map int [1..<Suc (length log)]" and m: "m = int (length log) + 1"
    using e(3) by (simp_all add: log_ok_def)
  have rep: "plain_rep crc (le_lsm e) (db_disk db) (m, log)" and base: "lsm_base_dir (le_lsm e) = db_base_dir db @ ''/'' @ sid"
    and opt: "lsm_options (le_lsm e) = db_lsm_options db"
    using e(2) by (simp_all add: engine_ok_def)
  from plain_rep_persistent [OF rep [unfolded m]] have pp: "lsm_max_persistent_seq_no (le_lsm e) = int p" and le: "p \<le> length log"
    by (simp_all add: p)
  from plain_restart [OF rep few' opts] obtain l where l: "lsm_Init (db_disk db) (Lsm (db_base_dir db @ ''/'' @ sid) (db_lsm_options db)) = Inr l"
    "lsm_options l = db_lsm_options db" "plain_rep crc l (db_disk db) (int p + 1, rev (take p (rev log)))"
    "lsm_base_dir l = db_base_dir db @ ''/'' @ sid"
    unfolding base pp opt filter_upto [OF seqs] by blast
  then show "\<exists>l. lsm_Init (db_disk db) (Lsm (db_base_dir db @ ''/'' @ sid) (db_lsm_options db)) = Inr l"
    "engine_ok crc db sid (le_StartLogInto (opened db sid)) (int p + 1, rev (take p (rev log)))"
    by (simp_all add: opened_def engine_ok_def le_StartLogInto_def)
  show "p \<le> length log" by (rule le)
qed

definition all_opened :: "database \<Rightarrow> string list \<Rightarrow> database" where
  "all_opened db names =
     (Database (db_disk db) (db_dirs db) (db_base_dir db) (db_lsm_options db))\<lparr>db_storages := map (\<lambda>n. (n, opened db n)) names\<rparr>"

lemma engine_ok_all_opened [simp]: "engine_ok crc (all_opened db names\<lparr>db_storages := st, db_tx_storage := ts\<rparr>) sid e s \<longleftrightarrow> engine_ok crc db sid e s"
  "engine_ok crc (all_opened db names) sid e s \<longleftrightarrow> engine_ok crc db sid e s"
  by (simp_all add: engine_ok_def all_opened_def Database_def)

lemma replayed_start:
  assumes "db_inv crc db logs evs" "few_tables db" and "set names = fst ` set logs"
  shows "replayed crc (all_opened db names) logs (persisted db) []"
proof -
  have "map_of (map (\<lambda>n. (n, opened db n)) names) sid = Some (opened db sid)" if "map_of logs sid = Some s" for sid s
    using that assms(3) by (auto simp: map_of_map_restrict restrict_map_def dest: map_of_SomeD intro: rev_image_eqI)
  with opened_rep [OF assms(1) _ assms(2)] show ?thesis
    unfolding replayed_def engine_ok_all_opened
    by (auto simp: all_opened_def Database_def Let_def Tx_Storage_def ts_IsCommited_def ts_bounded_def)
qed

abbreviation Restart :: "database \<Rightarrow> database result" where
  "Restart db \<equiv> db_Init (Database (db_disk db) (db_dirs db) (db_base_dir db) (db_lsm_options db))"

text \<open>
  The database after the storages were opened and the log was replayed, \<open>?st\<close> and \<open>?ts\<close> being its storages and
  transactions: \<open>Init\<close> returns it, with a new writer of the log, when the log can be read.
\<close>

lemma db_Init_replays:
  assumes inv: "db_inv crc db logs evs" and few: "few_tables db"
  obtains names st ts where "distinct names" "set names = fst ` set logs" "map fst st = names"
    "replayed crc (all_opened db names\<lparr>db_storages := st, db_tx_storage := ts\<rparr>) logs (persisted db) evs"
    "handle_all ev_Apply evs (all_opened db names) = (all_opened db names\<lparr>db_storages := st, db_tx_storage := ts\<rparr>, None)"
    "Restart db = bindE (Recover ev_Apply (db_disk db) (db_base_dir db @ ''/wal'') (all_opened db names)) (\<lambda>db1.
      let (d, w) = Writer_Open (db_disk db1) (db_base_dir db @ ''/wal'')
      in Inr (db1\<lparr>db_disk := d, db_wal_writer := Some w, db_tx_storage := ts_StartLogInto (db_tx_storage db1),
        db_storages := map (\<lambda>(sid, e). (sid, le_StartLogInto e)) (db_storages db1), db_is_initialized := True\<rparr>))"
proof -
  let ?db0 = "Database (db_disk db) (db_dirs db) (db_base_dir db) (db_lsm_options db)"
  let ?names = "filter (\<lambda>name. name \<notin> set kInternalTables) (io_ListEntries (db_disk db) (db_dirs db) (db_base_dir db))"
  let ?all = "kSysTables # ?names"
  have sys: "kSysTables \<in> fst ` set logs" and dirs: "dirs_ok db (fst ` set logs)" and good: "\<forall>sid \<in> fst ` set logs. good_sid sid"
    using inv by (auto simp: db_inv_def db_inv_at_def)
  note names = user_names [OF dirs good sys]
  have all: "distinct ?all" "set ?all = fst ` set logs" using names sys by auto
  have ini: "\<exists>l. lsm_Init (db_disk db) (Lsm (db_base_dir db @ ''/'' @ name) (db_lsm_options db)) = Inr l" if "name \<in> set ?all" for name
    using that opened_rep(1) [OF inv _ few, of name] unfolding all(2) by (metis in_fst_set_conv option.exhaust surj_pair)
  have created: "io_CreateDirectory (db_dirs db) (db_base_dir db @ ''/'' @ name) = db_dirs db" if "name = kSysTransactions \<or> name = kSysTables" for name
    using that sys dirs unfolding dirs_ok_def by (intro io_CreateDirectory_exists) auto
  have t1: "db_InitTables ?db0 [kSysTables] = Inr (all_opened db [kSysTables])"
    using ini by (subst db_InitTables_eq) (auto simp: Database_def all_opened_def opened_def)
  have t2: "db_InitTables (all_opened db [kSysTables]) ?names = Inr (all_opened db ?all)"
    using ini names by (subst db_InitTables_eq) (auto simp: Database_def all_opened_def opened_def)
  have ok: "\<forall>sid s. map_of logs sid = Some s \<longrightarrow> log_ok (db_lsm_options (all_opened db ?all)) sid s ([] @ evs)"
    using db_inv_storage [OF inv] by (simp add: all_opened_def Database_def) metis
  have "\<forall>ev \<in> set evs. \<forall>sid. upsert_of sid ev \<longrightarrow> sid \<in> fst ` set logs" using inv by (auto simp: db_inv_def db_inv_at_def events_ok_def)
  from replay_all [OF replayed_start [OF inv few all(2)] ok this] obtain st ts where
    db1: "handle_all ev_Apply evs (all_opened db ?all) = (all_opened db ?all\<lparr>db_storages := st, db_tx_storage := ts\<rparr>, None)"
      "replayed crc (all_opened db ?all\<lparr>db_storages := st, db_tx_storage := ts\<rparr>) logs (persisted db) evs" "map fst st = ?all"
    by (auto simp: Let_def all_opened_def comp_def)
  have crd: "io_CreateDirectory (db_dirs db) (db_base_dir db @ CHR ''/'' # kSysTransactions) = db_dirs db"
    "io_CreateDirectory (db_dirs db) (db_base_dir db @ CHR ''/'' # kSysTables) = db_dirs db" using created by simp_all
  have "Restart db = bindE (Recover ev_Apply (db_disk db) (db_base_dir db @ ''/wal'') (all_opened db ?all)) (\<lambda>db1.
      let (d, w) = Writer_Open (db_disk db1) (db_base_dir db @ ''/wal'')
      in Inr (db1\<lparr>db_disk := d, db_wal_writer := Some w, db_tx_storage := ts_StartLogInto (db_tx_storage db1),
        db_storages := map (\<lambda>(sid, e). (sid, le_StartLogInto e)) (db_storages db1), db_is_initialized := True\<rparr>))"
    using t1 t2 crd by (simp add: db_Init_def Let_def Database_def all_opened_def)
  then show thesis by (rule that [OF all db1(3,2,1)])
qed

subsection \<open>What a restarted database has\<close>

definition started :: "database \<Rightarrow> (string \<times> lsm_engine) list \<Rightarrow> tx_storage \<Rightarrow> disk \<Rightarrow> wal_writer \<Rightarrow> database" where
  "started db st ts d w =
     \<lparr>db_base_dir = db_base_dir db, db_lsm_options = db_lsm_options db, db_wal_writer = Some w,
      db_storages = map (\<lambda>(sid, e). (sid, le_StartLogInto e)) st, db_tx_storage = ts_StartLogInto ts,
      db_is_initialized = True, db_disk = d, db_dirs = db_dirs db\<rparr>"

lemma replayed_complete:
  assumes inv: "db_inv crc db logs evs" and few: "few_tables db" and log: "map_of logs sid = Some s"
    and rep: "replayed crc (all_opened db names\<lparr>db_storages := st, db_tx_storage := ts\<rparr>) logs (persisted db) evs"
  shows "\<exists>e. map_of st sid = Some e \<and> engine_ok crc db sid (le_StartLogInto e) s"
proof -
  obtain m l where s: "s = (m, l)" by fastforce
  from db_inv_storage [OF inv log] have "log_ok (db_lsm_options db) sid (m, l) evs" unfolding s by metis
  then have len: "length (filter (upsert_of sid) evs) = length l" and m: "m = int (length l) + 1" by (auto simp: log_ok_def)
  have "persisted db sid \<le> length l" using opened_rep(3) [OF inv log [unfolded s] few] .
  then have k: "max (persisted db sid) (length (filter (upsert_of sid) evs)) = length (rev l)" using len by simp
  from rep log obtain e where e: "map_of st sid = Some e"
    "let k = max (persisted db sid) (length (filter (upsert_of sid) evs)) in engine_ok crc db sid (le_StartLogInto e) (int k + 1, rev (take k (rev l)))"
    unfolding replayed_def s engine_ok_all_opened by simp blast
  then show ?thesis unfolding k by (simp add: s m)
qed

lemma started_inv:
  assumes inv: "db_inv crc db logs evs" and few: "few_tables db" and st: "map fst st = names" "distinct names" "set names = fst ` set logs"
    and rep: "replayed crc (all_opened db names\<lparr>db_storages := st, db_tx_storage := ts\<rparr>) logs (persisted db) evs"
    and wal: "wal_holds (db_disk db) (db_base_dir db @ ''/wal'') xs evss" "concat evss = evs"
    and op: "Writer_Open (db_disk db) (db_base_dir db @ ''/wal'') = (d, w)"
  defines "logs' \<equiv> map (\<lambda>sid. (sid, the (map_of logs sid))) names"
  shows "db_inv_at (if xs = [] then 0 else Suc (fst (last xs)), evs) crc (started db st ts d w) logs' evs"
proof -
  let ?db = "started db st ts d w"
  from inv obtain st0 where inv0: "db_inv_at st0 crc db logs evs" unfolding db_inv_def by blast
  have only: "only_in (db_base_dir db @ ''/'' @ kWal) (db_disk db) d" using only_in_Writer_Open [OF wal(1)] op by (simp add: kWal_def)
  have dist: "distinct (map fst (db_disk db))" and dirs: "dirs_ok db (fst ` set logs)" using inv0 by (simp_all add: db_inv_at_def dirs_ok_def)
  have db: "db_base_dir ?db = db_base_dir db" "db_lsm_options ?db = db_lsm_options db" "db_disk ?db = d" "db_dirs ?db = db_dirs db"
    "db_wal_writer ?db = Some w" "db_tx_storage ?db = ts_StartLogInto ts" "db_is_initialized ?db"
    "db_storages ?db = map (\<lambda>(sid, e). (sid, le_StartLogInto e)) st"
    by (simp_all add: started_def)
  have keys: "map fst logs' = names" by (simp add: logs'_def comp_def)
  then have sids: "fst ` set logs' = fst ` set logs" using st(3) by (metis list.set_map)
  have each: "engine_ok crc ?db sid (le_StartLogInto e) (the (map_of logs sid)) \<and> log_ok (db_lsm_options db) sid (the (map_of logs sid)) evs"
    if "(sid, e) \<in> set st" for sid e
  proof -
    have e: "map_of st sid = Some e" using that st(1,2) by (simp add: map_of_is_SomeI)
    have "sid \<in> set names" using that st(1) by force
    then obtain s where s: "map_of logs sid = Some s" unfolding st(3) by (metis in_fst_set_conv option.exhaust)
    from replayed_complete [OF inv few s rep] e have "engine_ok crc db sid (le_StartLogInto e) s" by simp
    from engine_ok_frame [OF this only _ dist, of ?db] db_inv_storage [OF inv s] good_sid_wal show ?thesis
      unfolding s db by (metis append_same_eq list.inject option.sel same_append_eq append_Cons)
  qed
  have "db_storages ?db = map (\<lambda>(sid, e). (sid, le_StartLogInto e)) st" "logs' = map (\<lambda>(sid, e). (sid, the (map_of logs sid))) st"
    using st(1) by (auto simp: db logs'_def)
  then have "list_all2 (\<lambda>(sid, e) (sid', s). sid = sid' \<and> engine_ok crc ?db sid e s \<and> log_ok (db_lsm_options db) sid s evs) (db_storages ?db) logs'"
    using each by (auto simp: list_all2_map1 list_all2_map2 split_beta intro!: list.rel_refl_strong)
  moreover have "log_at (if xs = [] then 0 else Suc (fst (last xs)), evs) d w (db_base_dir db @ ''/wal'') evs"
    using wal_at_open [OF wal(1) op] wal(2) by (simp add: log_at_def)
  moreover have "dirs_ok ?db (fst ` set logs)" using dirs_ok_frame [OF dirs only] db by simp
  moreover have "events_ok (ts_StartLogInto ts) (fst ` set logs) evs"
    using rep inv0 by (auto simp: replayed_def db_inv_at_def events_ok_def ts_StartLogInto_def ts_IsCommited_def ts_bounded_def)
  moreover have "ts_wal_writer (ts_StartLogInto ts)" by (simp add: ts_StartLogInto_def)
  ultimately show ?thesis using inv0 st(2) unfolding db_inv_at_def db sids keys by (simp add: db(7))
qed

definition recoverable :: "database \<Rightarrow> nat \<Rightarrow> event list \<Rightarrow> bool" where
  "recoverable db n new \<longleftrightarrow>
     list_all well_padded (butlast (wal_pages [] new)) \<and> n + length (wal_pages [] new) \<le> 10000 \<and> few_tables db"

lemma restart_inv:
  assumes inv: "db_inv_at (n, old) crc db logs (old @ new)" and rec: "recoverable db n new"
  shows "\<exists>db' logs' n'. Restart db = Inr db' \<and> db_inv_at (n', old @ new) crc db' logs' (old @ new) \<and> map_of logs' = map_of logs \<and>
    ts_IsCommited (db_tx_storage db') = ts_IsCommited (db_tx_storage db) \<and>
    ts_next_tx_id (db_tx_storage db') = next_tx_after (old @ new)"
proof -
  let ?evs = "old @ new" let ?wal = "db_base_dir db @ ''/wal''"
  note inv' = db_invI [OF inv]
  have few: "few_tables db" using rec by (simp add: recoverable_def)
  obtain names st ts where st: "distinct names" "set names = fst ` set logs" "map fst st = names"
    and rep: "replayed crc (all_opened db names\<lparr>db_storages := st, db_tx_storage := ts\<rparr>) logs (persisted db) ?evs"
    and all: "handle_all ev_Apply ?evs (all_opened db names) = (all_opened db names\<lparr>db_storages := st, db_tx_storage := ts\<rparr>, None)"
    and ini: "Restart db = bindE (Recover ev_Apply (db_disk db) ?wal (all_opened db names)) (\<lambda>db1.
      let (d, w) = Writer_Open (db_disk db1) ?wal
      in Inr (db1\<lparr>db_disk := d, db_wal_writer := Some w, db_tx_storage := ts_StartLogInto (db_tx_storage db1),
        db_storages := map (\<lambda>(sid, e). (sid, le_StartLogInto e)) (db_storages db1), db_is_initialized := True\<rparr>))"
    by (rule db_Init_replays [OF inv' few])
  from inv obtain w0 where "wal_at (db_disk db) w0 ?wal n old new" by (auto simp: db_inv_at_def log_at_def)
  from wal_at_holds [OF this] rec obtain xs evss where wal: "wal_holds (db_disk db) ?wal xs evss" "concat evss = ?evs"
    by (auto simp: recoverable_def)
  obtain d w where op: "Writer_Open (db_disk db) ?wal = (d, w)" by fastforce
  let ?logs = "map (\<lambda>sid. (sid, the (map_of logs sid))) names"
  from started_inv [OF inv' few st(3,1,2) rep wal op] have inv1: "\<exists>n'. db_inv_at (n', ?evs) crc (started db st ts d w) ?logs ?evs" by blast
  have "Restart db = Inr (started db st ts d w)"
    unfolding ini using Recover_total [OF wal(1), unfolded wal(2), OF all] op
    by (simp add: started_def all_opened_def Database_def)
  moreover have "map_of ?logs sid = map_of logs sid" for sid
  proof (cases "map_of logs sid")
    case None
    then have "sid \<notin> set names" using st(2) by (simp add: map_of_eq_None_iff)
    with None show ?thesis by (simp add: map_of_map_restrict restrict_map_def)
  next
    case (Some s)
    then have "sid \<in> set names" using st(2) by (force dest: map_of_SomeD)
    with Some show ?thesis by (simp add: map_of_map_restrict restrict_map_def)
  qed
  then have "map_of ?logs = map_of logs" by blast
  moreover have "ts_IsCommited (db_tx_storage (started db st ts d w)) = ts_IsCommited (db_tx_storage db)"
    using rep inv by (auto simp: started_def replayed_def db_inv_at_def events_ok_def ts_StartLogInto_def ts_IsCommited_def fun_eq_iff)
  moreover have "ts_next_tx_id (db_tx_storage (started db st ts d w)) = next_tx_after ?evs"
    using rep by (simp add: started_def replayed_def ts_StartLogInto_def)
  ultimately show ?thesis using inv1 by blast
qed

lemma versions_cong:
  assumes "ts_IsCommited ts = ts_IsCommited ts'"
  shows "vs_lookup ts tx vs key = vs_lookup ts' tx vs key" "vs_scan ts tx vs lower upper = vs_scan ts' tx vs lower upper"
proof -
  show "vs_lookup ts tx vs key = vs_lookup ts' tx vs key"
    by (induction vs) (auto simp: tt_sees_def assms)
  show "vs_scan ts tx vs lower upper = vs_scan ts' tx vs lower upper"
    by (simp add: vs_scan_def scan_sees_def assms)
qed

lemma inv_tt_rep:
  assumes "db_inv crc db logs evs" "map_of logs sid = Some (m, log)"
  obtains e where "map_of (db_storages db) sid = Some e" "tt_rep crc e (m, versions_of log)"
proof -
  from db_inv_storage [OF assms] obtain e where e: "map_of (db_storages db) sid = Some e" "engine_ok crc db sid e (m, log)"
    "log_ok (db_lsm_options db) sid (m, log) evs" by metis
  then have "tt_rep crc e (m, versions_of log)"
    by (auto simp: tt_rep_def le_rep_def engine_ok_def log_ok_def list_all_iff dest: plain_rep_log)
  with e(1) show thesis by (rule that)
qed

lemma inv_tx_Lookup:
  assumes "db_inv crc db logs evs" "map_of logs sid = Some (m, log)"
  shows "tx_Lookup crc db sid tx key = Some (Inr (vs_lookup (db_tx_storage db) tx (versions_of log) key))"
  using inv_tt_rep [OF assms] by (metis bindM_simps(3) option.simps(5) storages_at_def tt_Lookup_rep tx_Lookup_def)

lemma db_inv_no_log:
  assumes "db_inv crc db logs evs" "map_of logs sid = None"
  shows "map_of (db_storages db) sid = None"
proof (cases "map_of (db_storages db) sid")
  case (Some e)
  with assms(2) show ?thesis by (auto elim: db_inv_has_log [OF assms(1)])
qed

text \<open>Two databases with the same logs and the same committed transactions read the same.\<close>

lemma db_inv_reads:
  assumes inv: "db_inv crc db logs evs" "db_inv crc db' logs' evs'" and logs: "map_of logs' = map_of logs"
    and com: "ts_IsCommited (db_tx_storage db') = ts_IsCommited (db_tx_storage db)"
  shows "tx_Lookup crc db' sid tx key = tx_Lookup crc db sid tx key \<and> tx_Scan crc db' sid tx lower upper = tx_Scan crc db sid tx lower upper"
proof (cases "map_of logs sid")
  case None
  then have "map_of (db_storages db) sid = None" "map_of (db_storages db') sid = None"
    using logs db_inv_no_log [OF inv(1)] db_inv_no_log [OF inv(2)] by simp_all
  then show ?thesis by (simp add: tx_Lookup_def tx_Scan_def storages_at_def bindM_def)
next
  case (Some s)
  obtain m log where s: "s = (m, log)" by fastforce
  obtain e where e: "map_of (db_storages db) sid = Some e" "tt_rep crc e (m, versions_of log)"
    using inv_tt_rep [OF inv(1)] Some s by blast
  moreover obtain e' where "map_of (db_storages db') sid = Some e'" "tt_rep crc e' (m, versions_of log)"
    using inv_tt_rep [OF inv(2)] Some s logs by metis
  ultimately show ?thesis
    by (simp add: tx_Lookup_def tx_Scan_def storages_at_def bindM_def tt_Lookup_rep tt_Scan_rep versions_cong [OF com])
qed


subsection \<open>One uncommitted write\<close>

lemma concat_length_ge: "[] \<notin> set xss \<Longrightarrow> length xss \<le> length (concat xss)"
proof (induction xss)
  case (Cons xs xss)
  then show ?case by (cases xs) auto
qed simp

lemma plain_rep_few_tables:
  assumes "plain_rep crc l d (m, log)"
  shows "length (lsm_ss_tables l) \<le> length log"
proof -
  from assms obtain sss where inv: "lsm_inv crc l sss" and M: "mset log = lsm_contents l sss"
    and len: "\<forall>rs \<in> set sss. length rs = Suc (max_records_in_mem_table (lsm_options l))" by (auto simp: plain_rep_def)
  have "length (lsm_ss_tables l) = length sss" using inv by (auto simp: lsm_inv_def lsm_tables_ok_def dest: list_all2_lengthD)
  also have "[] \<notin> set sss" using len by force
  then have "length sss \<le> length (concat sss)" by (rule concat_length_ge)
  also have "\<dots> = length (concat (rev sss))" by (simp add: length_concat sum_list_rev flip: rev_map)
  also have "\<dots> \<le> size (lsm_contents l sss)" by (simp add: lsm_contents_def lsm_levels_def)
  finally show ?thesis by (metis M size_mset)
qed

lemma recoverable_small:
  assumes inv: "db_inv crc db logs evs" and "\<forall>(sid, m, log) \<in> set logs. length log \<le> 10000" "length (wal_pages [] new) = 1" "n < 10000"
  shows "recoverable db n new"
proof -
  have "length (lsm_ss_tables (le_lsm e)) \<le> 10000" if e: "(sid, e) \<in> set (db_storages db)" for sid e
  proof -
    from inv have keys: "map fst (db_storages db) = map fst logs" and d: "distinct (map fst logs)"
      by (auto simp: db_inv_def db_inv_at_def dest: list_all2_keys)
    then have e': "map_of (db_storages db) sid = Some e" using e by simp
    then obtain m log where log: "map_of logs sid = Some (m, log)" by (rule db_inv_has_log [OF inv])
    with db_inv_storage [OF inv log] e' have "plain_rep crc (le_lsm e) (db_disk db) (m, log)" by (metis engine_ok_def option.inject)
    from plain_rep_few_tables [OF this] map_of_SomeD [OF log] assms(2) show ?thesis by force
  qed
  moreover have "list_all well_padded (butlast (wal_pages [] new))" using assms(3) by (cases "wal_pages [] new") auto
  ultimately show ?thesis using assms(3,4) by (auto simp: recoverable_def)
qed

lemma tx_Upsert_returns:
  assumes "map_of (db_storages db) sid = Some e" "ts_row_locks (db_tx_storage db) key = None"
  shows "\<exists>db'. tx_Upsert db sid tx key val = Some (Inr db')"
  using assms by (auto simp: tx_Upsert_def storages_at_def bindM_def tt_Upsert_def ts_AcquireRowLock_def Let_def split: prod.splits)

lemma uncommitted_write:
  "\<exists>db0 db1 db2 logs evs. db_Init (Database [] [] ''db'' default_options) = Inr db0 \<and>
    db_StartSession db0 None = Inr (\<lparr>ses_tx = 10, ses_is_autocommit = True\<rparr>, db1) \<and>
    tx_Upsert db1 kSysTables 10 ''a'' ''1'' = Some (Inr db2) \<and> write_fits db1 kSysTables ''a'' (new_version 10 (Some ''1'')) \<and>
    logs = [(kSysTables, (2, [Record ''a'' 1 (tv_bytes (new_version 10 (Some ''1'')))]))] \<and>
    evs = [upsert_event kSysTables (Record ''a'' 1 (tv_bytes (new_version 10 (Some ''1''))))] \<and>
    db_inv_at (0, []) (\<lambda>_. 0) db2 logs evs \<and> recoverable db2 0 evs"
proof -
  let ?v = "new_version 10 (Some ''1'')" let ?r = "Record ''a'' 1 (tv_bytes ?v)"
  have opts: "good_options default_options"
    by (simp add: default_options_def good_options_def good_page_size_def file_fits_def)
  from inv_at_Init [OF this, of "''db''" "\<lambda>_. 0"] obtain db0 where db0: "db_Init (Database [] [] ''db'' default_options) = Inr db0"
    and ts: "db_tx_storage db0 = ts_StartLogInto Tx_Storage" and inv0: "db_inv_at (0, []) (\<lambda>_. 0) db0 [(kSysTables, (1, []))] []"
    and op: "db_lsm_options db0 = default_options" by blast
  let ?db1 = "db0\<lparr>db_tx_storage := snd (ts_Begin (db_tx_storage db0))\<rparr>"
  note vals = ts ts_Begin_def ts_StartLogInto_def Tx_Storage_def kInitialTxId_def Let_def
  have start: "db_StartSession db0 None = Inr (\<lparr>ses_tx = 10, ses_is_autocommit = True\<rparr>, ?db1)"
    using inv0 by (simp add: db_StartSession_def ses_Start_def db_inv_at_def vals)
  have inv1: "db_inv_at (0, []) (\<lambda>_. 0) ?db1 [(kSysTables, (1, []))] []"
    by (rule inv_at_tx [OF inv0]) (simp_all add: vals ts_IsCommited_def ts_bounded_def fun_eq_iff)
  from db_inv_storage [OF db_invI [OF inv1], of kSysTables] obtain e where e: "map_of (db_storages ?db1) kSysTables = Some e"
    "engine_ok (\<lambda>_. 0) ?db1 kSysTables e (1, [])" by (metis map_of_Cons_code(2))
  have fits: "write_fits ?db1 kSysTables ''a'' ?v"
    using e by (auto simp: write_fits_def engine_ok_def plain_rep_def op default_options_def kMaxSequence_def valid_tv_def new_version_def kSysTables_def)
  from tx_Upsert_returns [OF e(1), of "''a''" 10 "''1''"] obtain db2 where up: "tx_Upsert ?db1 kSysTables 10 ''a'' ''1'' = Some (Inr db2)"
    by (auto simp: vals)
  from inv_at_tx_Upsert [OF inv1 _ up fits] have inv2: "db_inv_at (0, []) (\<lambda>_. 0) db2 [(kSysTables, (2, [?r]))] [upsert_event kSysTables ?r]" by simp
  have "wal_pages [] [upsert_event kSysTables ?r] = [[upsert_event kSysTables ?r]]"
    by (simp add: upsert_event_def kWalPageSize_def events_bytes_def length_tv_bytes new_version_def kSysTables_def)
  with recoverable_small [OF db_invI [OF inv2], of _ 0] have "recoverable db2 0 [upsert_event kSysTables ?r]" by simp
  with db0 start up fits inv2 show ?thesis by blast
qed



end
