(* ===== verification/Services.thy ===== *)
theory Services
  imports Database_Recovery
begin

section \<open>The services of the server\<close>

text \<open>
  \<open>src/src/server/services/table_service\<close>, \<open>services/transaction_service\<close> and \<open>rpc\<close>: the handlers
  of the requests of \<open>src/proto\<close>. A handler runs as a coroutine that finishes its reactor with a
  status; the model returns that status, with the response where it is \<open>OK\<close>, and the database
  after the handler. \<open>None\<close> is a handler that waits for a row lock, \<open>Inl\<close> is undefined behaviour,
  which no handler catches. A compaction or the opening of a new table that fails on damaged files
  counts as having changed nothing.
\<close>

datatype status =
    INVALID_ARGUMENT string
  | FAILED_PRECONDITION string
  | INTERNAL (what: error)

datatype 'r reply = Finish_OK 'r | Finish status

definition MakeInternalError :: "error \<Rightarrow> 'r reply" where
  "MakeInternalError e = Finish (INTERNAL e)"

definition MakeReadOnlyError :: "'r reply" where
  "MakeReadOnlyError = Finish (FAILED_PRECONDITION ''replica is read-only'')"

definition NoSuchTable :: "'r reply" where
  "NoSuchTable = Finish (INVALID_ARGUMENT ''No such table'')"

definition ParseTx :: "string option \<Rightarrow> int option result" where
  "ParseTx tx = (case tx of None \<Rightarrow> Inr None | Some t \<Rightarrow> bindE (tx_FromString t) (\<lambda>t. Inr (Some t)))"

subsection \<open>Messages\<close>

record upsert_request =
  uq_tx :: "string option"
  uq_table :: string
  uq_key :: string
  uq_value :: string

record key_request =
  kq_tx :: "string option"
  kq_table :: string
  kq_key :: string

record table_request =
  tq_tx :: "string option"
  tq_name :: string

record scan_request =
  sq_tx :: "string option"
  sq_table :: string
  sq_lower_bound :: "string option"
  sq_upper_bound :: "string option"

record lookup_response =
  lr_value :: "string option"
  lr_tx :: string

record scan_response =
  sr_tx :: string
  sr_records :: "row list"

subsection \<open>Handlers\<close>

type_synonym 'r handler = "('r reply \<times> database) result option"

text \<open>
  The block \<open>try ... catch (const std::exception&)\<close> of the handlers: what an exception leaves
  behind is the database with the session started.
\<close>

definition catch_exception :: "database \<Rightarrow> 'r handler \<Rightarrow> 'r handler" where
  "catch_exception db r =
     (case r of
        Some (Inl e) \<Rightarrow> if is_exception e then Some (Inr (MakeInternalError e, db)) else r
      | _ \<Rightarrow> r)"

definition with_session :: "database \<Rightarrow> int option result \<Rightarrow> (session \<Rightarrow> database \<Rightarrow> 'r handler) \<Rightarrow> 'r handler" where
  "with_session db tx body =
     (case bindE tx (db_StartSession db) of
        Inl e \<Rightarrow> catch_exception db (Some (Inl e))
      | Inr (s, db) \<Rightarrow> catch_exception db (body s db))"

definition with_table :: "crc32 \<Rightarrow> database \<Rightarrow> session \<Rightarrow> string \<Rightarrow> (table_ref \<Rightarrow> 'r handler) \<Rightarrow> 'r handler" where
  "with_table crc db s name body =
     bindM (ses_GetTable crc db s name) (\<lambda>table.
       case table of None \<Rightarrow> Some (Inr (NoSuchTable, db)) | Some t \<Rightarrow> body t)"

definition finish_session :: "database \<Rightarrow> session \<Rightarrow> (string \<Rightarrow> 'r) \<Rightarrow> 'r handler" where
  "finish_session db s response =
     (let (result_tx, db) = ses_Finish db s in Some (Inr (Finish_OK (response (tx_ToString result_tx)), db)))"

text \<open>The coroutine a handler spawns, from where its session has started.\<close>

definition Upsert_coro :: "crc32 \<Rightarrow> upsert_request \<Rightarrow> session \<Rightarrow> database \<Rightarrow> string handler" where
  "Upsert_coro crc request s db =
     with_table crc db s (uq_table request) (\<lambda>table.
     bindM (tbl_Upsert db (ses_tx s) table (uq_key request) (uq_value request)) (\<lambda>db.
     finish_session db s (\<lambda>tx. tx)))"

definition svc_Upsert :: "crc32 \<Rightarrow> bool \<Rightarrow> database \<Rightarrow> upsert_request \<Rightarrow> string handler" where
  "svc_Upsert crc read_only db request =
     (if read_only then Some (Inr (MakeReadOnlyError, db))
      else with_session db (ParseTx (uq_tx request)) (Upsert_coro crc request))"

definition Lookup_coro :: "crc32 \<Rightarrow> key_request \<Rightarrow> session \<Rightarrow> database \<Rightarrow> lookup_response handler" where
  "Lookup_coro crc request s db =
     with_table crc db s (kq_table request) (\<lambda>table.
     bindM (tbl_Lookup crc db (ses_tx s) table (kq_key request)) (\<lambda>val.
     finish_session db s (\<lambda>tx. \<lparr>lr_value = val, lr_tx = tx\<rparr>)))"

definition svc_Lookup :: "crc32 \<Rightarrow> database \<Rightarrow> key_request \<Rightarrow> lookup_response handler" where
  "svc_Lookup crc db request = with_session db (ParseTx (kq_tx request)) (Lookup_coro crc request)"

definition Delete_coro :: "crc32 \<Rightarrow> key_request \<Rightarrow> session \<Rightarrow> database \<Rightarrow> string handler" where
  "Delete_coro crc request s db =
     with_table crc db s (kq_table request) (\<lambda>table.
     bindM (tbl_Delete crc db (ses_tx s) table (kq_key request)) (\<lambda>(deleted, db).
     finish_session db s (\<lambda>tx. tx)))"

definition svc_Delete :: "crc32 \<Rightarrow> bool \<Rightarrow> database \<Rightarrow> key_request \<Rightarrow> string handler" where
  "svc_Delete crc read_only db request =
     (if read_only then Some (Inr (MakeReadOnlyError, db))
      else with_session db (ParseTx (kq_tx request)) (Delete_coro crc request))"

text \<open>The id of a new table is what \<open>GenerateUuid\<close> returns.\<close>

definition CreateTable_coro :: "crc32 \<Rightarrow> string \<Rightarrow> table_request \<Rightarrow> session \<Rightarrow> database \<Rightarrow> string handler" where
  "CreateTable_coro crc uuid request s db =
     bindM (ses_CreateTable crc db s uuid (tq_name request)) (\<lambda>db. finish_session db s (\<lambda>tx. tx))"

definition svc_CreateTable :: "crc32 \<Rightarrow> bool \<Rightarrow> string \<Rightarrow> database \<Rightarrow> table_request \<Rightarrow> string handler" where
  "svc_CreateTable crc read_only uuid db request =
     (if read_only then Some (Inr (MakeReadOnlyError, db))
      else with_session db (ParseTx (tq_tx request)) (CreateTable_coro crc uuid request))"

definition DropTable_coro :: "crc32 \<Rightarrow> table_request \<Rightarrow> session \<Rightarrow> database \<Rightarrow> string handler" where
  "DropTable_coro crc request s db =
     bindM (ses_DropTable crc db s (tq_name request)) (\<lambda>db. finish_session db s (\<lambda>tx. tx))"

definition svc_DropTable :: "crc32 \<Rightarrow> bool \<Rightarrow> database \<Rightarrow> table_request \<Rightarrow> string handler" where
  "svc_DropTable crc read_only db request =
     (if read_only then Some (Inr (MakeReadOnlyError, db))
      else with_session db (ParseTx (tq_tx request)) (DropTable_coro crc request))"

definition add_record :: "row list \<Rightarrow> row \<Rightarrow> row list step result" where
  "add_record records row = Inr (Continue (records @ [row]))"

definition Scan_coro :: "crc32 \<Rightarrow> scan_request \<Rightarrow> session \<Rightarrow> database \<Rightarrow> scan_response handler" where
  "Scan_coro crc request s db =
     with_table crc db s (sq_table request) (\<lambda>table.
     bindM (tbl_Scan crc db (ses_tx s) table (sq_lower_bound request) (sq_upper_bound request)) (\<lambda>iter.
     bindM (iter_loop tri_HasMore tri_Next add_record iter []) (\<lambda>records.
     finish_session db s (\<lambda>tx. \<lparr>sr_tx = tx, sr_records = records\<rparr>))))"

definition svc_Scan :: "crc32 \<Rightarrow> database \<Rightarrow> scan_request \<Rightarrow> scan_response handler" where
  "svc_Scan crc db request = with_session db (ParseTx (sq_tx request)) (Scan_coro crc request)"

definition svc_CompactTable :: "crc32 \<Rightarrow> database \<Rightarrow> table_request \<Rightarrow> unit handler" where
  "svc_CompactTable crc db request =
     with_session db (ParseTx (tq_tx request)) (\<lambda>s db.
       with_table crc db s (tq_name request) (\<lambda>table.
       bindM (tbl_Compact crc db table) (\<lambda>db. Some (Inr (Finish_OK (), db)))))"

definition Begin_coro :: "session \<Rightarrow> database \<Rightarrow> string handler" where
  "Begin_coro s db = Some (Inr (Finish_OK (tx_ToString (ses_GetTx s)), db))"

definition svc_Begin :: "database \<Rightarrow> string handler" where
  "svc_Begin db = with_session db (Inr None) Begin_coro"

definition Commit_coro :: "session \<Rightarrow> database \<Rightarrow> unit handler" where
  "Commit_coro s db = (let db = ses_Commit db s; (_, db) = ses_Finish db s in Some (Inr (Finish_OK (), db)))"

definition svc_Commit :: "database \<Rightarrow> string \<Rightarrow> unit handler" where
  "svc_Commit db tx = with_session db (bindE (tx_FromString tx) (\<lambda>t. Inr (Some t))) Commit_coro"

subsection \<open>Requests are steps of the database\<close>

text \<open>
  Every request other than a compaction, as one step of the server: what it does to the database.
\<close>

datatype request =
    UpsertRequest upsert_request
  | LookupRequest key_request
  | DeleteRequest key_request
  | CreateTableRequest table_request
  | DropTableRequest table_request
  | ScanRequest scan_request
  | BeginRequest
  | CommitRequest string

abbreviation after :: "'r handler \<Rightarrow> database result option" where
  "after r \<equiv> map_option (map_sum id snd) r"

fun serve :: "crc32 \<Rightarrow> bool \<Rightarrow> string \<Rightarrow> database \<Rightarrow> request \<Rightarrow> database result option" where
  "serve crc read_only uuid db (UpsertRequest q) = after (svc_Upsert crc read_only db q)"
| "serve crc read_only uuid db (LookupRequest q) = after (svc_Lookup crc db q)"
| "serve crc read_only uuid db (DeleteRequest q) = after (svc_Delete crc read_only db q)"
| "serve crc read_only uuid db (CreateTableRequest q) = after (svc_CreateTable crc read_only uuid db q)"
| "serve crc read_only uuid db (DropTableRequest q) = after (svc_DropTable crc read_only db q)"
| "serve crc read_only uuid db (ScanRequest q) = after (svc_Scan crc db q)"
| "serve crc read_only uuid db BeginRequest = after (svc_Begin db)"
| "serve crc read_only uuid db (CommitRequest tx) = after (svc_Commit db tx)"

text \<open>What a request writes fits, and there are transaction ids left.\<close>

fun request_fits :: "crc32 \<Rightarrow> string \<Rightarrow> session \<Rightarrow> database \<Rightarrow> request \<Rightarrow> bool" where
  "request_fits crc uuid s db (UpsertRequest q) \<longleftrightarrow>
     (case ses_GetTable crc db s (uq_table q) of
        Some (Inr (Some (UserTable sid))) \<Rightarrow> write_fits db sid (uq_key q) (new_version (ses_tx s) (Some (uq_value q)))
      | _ \<Rightarrow> True)"
| "request_fits crc uuid s db (DeleteRequest q) \<longleftrightarrow>
     (case ses_GetTable crc db s (kq_table q) of
        Some (Inr (Some (UserTable sid))) \<Rightarrow> write_fits db sid (kq_key q) (new_version (ses_tx s) None)
      | _ \<Rightarrow> True)"
| "request_fits crc uuid s db (CreateTableRequest q) \<longleftrightarrow>
     write_fits db kSysTables (tq_name q) (new_version (ses_tx s) (Some (ti_ToString \<lparr>ti_status = kCreated, ti_id = uuid\<rparr>))) \<and>
     good_sid uuid \<and> map_of (db_storages db) uuid = None"
| "request_fits crc uuid s db (DropTableRequest q) \<longleftrightarrow>
     (case cat_GetTableInfo crc db (ses_tx s) (tq_name q) of
        Some (Inr (Some i)) \<Rightarrow> write_fits db kSysTables (tq_name q) (new_version (ses_tx s) (Some (ti_ToString (i\<lparr>ti_status := kDropped\<rparr>))))
      | _ \<Rightarrow> True)"
| "request_fits crc uuid s db _ \<longleftrightarrow> True"

lemma FromString_int64: "tx_FromString t = Inr tx \<Longrightarrow> is_int64 tx"
  by (auto simp: tx_FromString_def stoll_def Let_def split: if_splits list.splits prod.splits)

lemma ParseTx_int64: "ParseTx t = Inr (Some tx) \<Longrightarrow> is_int64 tx"
  by (cases t) (auto simp: ParseTx_def bindE_def dest: FromString_int64 split: sum.splits)

text \<open>A session that has started: its transaction is known.\<close>

definition in_session :: "session \<Rightarrow> database \<Rightarrow> bool" where
  "in_session s db \<longleftrightarrow> is_int64 (ses_tx s) \<and> ts_tx_status (db_tx_storage db) (ses_tx s) \<noteq> None"

lemma start_steps:
  assumes "bindE tx (db_StartSession db) = Inr (s, db')" "\<And>t. tx = Inr (Some t) \<Longrightarrow> is_int64 t" "is_int64 (ts_next_tx_id (db_tx_storage db))"
  shows "(db_step crc)\<^sup>*\<^sup>* db db'" "in_session s db'"
proof -
  from assms(1) obtain t where t: "tx = Inr t" "db_StartSession db t = Inr (s, db')" by (cases tx) auto
  show "(db_step crc)\<^sup>*\<^sup>* db db'"
  proof (cases t)
    case None
    then show ?thesis using t by (auto intro: step_begin)
  next
    case (Some t')
    then have "db' = db" using t(2) by (auto simp: db_StartSession_def ses_Start_def split: if_splits)
    then show ?thesis by simp
  qed
  show "in_session s db'"
    using t assms(2,3)
    by (auto simp: in_session_def db_StartSession_def ses_Start_def ts_Begin_def ts_IsStarted_def Let_def split: if_splits option.splits)
qed

lemma commit_steps: "in_session s db \<Longrightarrow> (db_step crc)\<^sup>*\<^sup>* db (ses_Commit db s)"
  unfolding in_session_def by (intro r_into_rtranclp step_commit) blast+

lemma finish_steps:
  assumes "finish_session db s f = Some (Inr (r, db'))" "in_session s db"
  shows "(db_step crc)\<^sup>*\<^sup>* db db'"
  using assms commit_steps [OF assms(2)] by (auto simp: finish_session_def ses_Finish_def split: if_splits)

lemma with_session_steps:
  assumes "with_session db tx body = Some (Inr (r, db'))" "\<And>t. tx = Inr (Some t) \<Longrightarrow> is_int64 t" "is_int64 (ts_next_tx_id (db_tx_storage db))"
    and "\<And>s db1. bindE tx (db_StartSession db) = Inr (s, db1) \<Longrightarrow> in_session s db1 \<Longrightarrow> body s db1 = Some (Inr (r, db')) \<Longrightarrow> (db_step crc)\<^sup>*\<^sup>* db1 db'"
  shows "(db_step crc)\<^sup>*\<^sup>* db db'"
proof (cases "bindE tx (db_StartSession db)")
  case (Inl e)
  then show ?thesis using assms(1) by (auto simp: with_session_def catch_exception_def split: if_splits)
next
  case (Inr p)
  obtain s db1 where p: "p = (s, db1)" by fastforce
  from start_steps [OF Inr [unfolded p] assms(2,3)] have st: "(db_step crc)\<^sup>*\<^sup>* db db1" "in_session s db1" by auto
  have "db' = db1 \<or> body s db1 = Some (Inr (r, db'))"
    using assms(1) by (auto simp: with_session_def catch_exception_def Inr p split: option.splits sum.splits if_splits)
  with st assms(4) [OF Inr [unfolded p] st(2)] show ?thesis by auto
qed

lemma with_table_steps:
  assumes "with_table crc db s name body = Some (Inr (r, db'))"
    and "\<And>t. ses_GetTable crc db s name = Some (Inr (Some t)) \<Longrightarrow> body t = Some (Inr (r, db')) \<Longrightarrow> (db_step crc)\<^sup>*\<^sup>* db db'"
  shows "(db_step crc)\<^sup>*\<^sup>* db db'"
  using assms by (auto simp: with_table_def bindM_def split: option.splits sum.splits)

lemma AcquireRowLock_status: "ts_AcquireRowLock ts tx key = Some ts' \<Longrightarrow> ts_tx_status ts' = ts_tx_status ts"
  by (auto simp: ts_AcquireRowLock_def split: if_splits)

lemma db_set_env_tx [simp]: "db_tx_storage (db_set_env env db) = db_tx_storage db" "db_tx_storage (set_storage sid e db) = db_tx_storage db"
  by (simp_all add: db_set_env_def set_storage_def)

lemma tx_Upsert_status:
  "tx_Upsert db sid tx key val = Some (Inr db') \<Longrightarrow> ts_tx_status (db_tx_storage db') = ts_tx_status (db_tx_storage db)"
  by (auto simp: tx_Upsert_def storages_at_def bindM_def tt_Upsert_def Let_def AcquireRowLock_status split: option.splits prod.splits)

lemma tx_Delete_status:
  assumes "tx_Delete crc db sid tx key = Some (Inr (b, db'))"
  shows "ts_tx_status (db_tx_storage db') = ts_tx_status (db_tx_storage db)"
proof -
  from assms obtain e ts e' env where "map_of (db_storages db) sid = Some e"
      "tt_Delete crc (db_tx_storage db) e (db_env db) tx key = Some (Inr (b, ts, e', env))"
      "db' = set_storage sid e' (db_set_env env (db\<lparr>db_tx_storage := ts\<rparr>))"
    by (auto simp: tx_Delete_def storages_at_def bindM_def split: option.splits sum.splits)
  then show ?thesis
    by (auto simp: tt_Delete_def bindM_def Let_def AcquireRowLock_status split: option.splits sum.splits prod.splits)
qed

lemma write_finish:
  assumes "db_step crc db db1" "ts_tx_status (db_tx_storage db1) = ts_tx_status (db_tx_storage db)" "in_session s db"
    and "finish_session db1 s f = Some (Inr (r, db'))"
  shows "(db_step crc)\<^sup>*\<^sup>* db db'"
proof -
  have "in_session s db1" using assms(2,3) by (simp add: in_session_def)
  from finish_steps [OF assms(4) this] assms(1) show ?thesis by (meson converse_rtranclp_into_rtranclp)
qed

lemma Upsert_steps:
  assumes "Upsert_coro crc q s db = Some (Inr (r, db'))" "in_session s db" "request_fits crc uuid s db (UpsertRequest q)"
  shows "(db_step crc)\<^sup>*\<^sup>* db db'"
proof (rule with_table_steps [OF assms(1) [unfolded Upsert_coro_def]])
  fix t assume t: "ses_GetTable crc db s (uq_table q) = Some (Inr (Some t))"
    and up: "bindM (tbl_Upsert db (ses_tx s) t (uq_key q) (uq_value q)) (\<lambda>db. finish_session db s (\<lambda>tx. tx)) = Some (Inr (r, db'))"
  from up obtain sid db1 where sid: "t = UserTable sid" and db1: "tx_Upsert db sid (ses_tx s) (uq_key q) (uq_value q) = Some (Inr db1)"
    "finish_session db1 s (\<lambda>tx. tx) = Some (Inr (r, db'))" by (cases t) (auto simp: bindM_def split: option.splits sum.splits)
  have "db_step crc db db1" using assms(3) t sid by (intro step_upsert [OF db1(1)]) simp
  from write_finish [OF this tx_Upsert_status [OF db1(1)] assms(2) db1(2)] show "(db_step crc)\<^sup>*\<^sup>* db db'" .
qed

lemma Delete_steps:
  assumes "Delete_coro crc q s db = Some (Inr (r, db'))" "in_session s db" "request_fits crc uuid s db (DeleteRequest q)"
  shows "(db_step crc)\<^sup>*\<^sup>* db db'"
proof (rule with_table_steps [OF assms(1) [unfolded Delete_coro_def]])
  fix t assume t: "ses_GetTable crc db s (kq_table q) = Some (Inr (Some t))"
    and up: "bindM (tbl_Delete crc db (ses_tx s) t (kq_key q)) (\<lambda>(b, db). finish_session db s (\<lambda>tx. tx)) = Some (Inr (r, db'))"
  from up obtain sid b db1 where sid: "t = UserTable sid" and db1: "tx_Delete crc db sid (ses_tx s) (kq_key q) = Some (Inr (b, db1))"
    "finish_session db1 s (\<lambda>tx. tx) = Some (Inr (r, db'))" by (cases t) (auto simp: bindM_def split: option.splits sum.splits)
  have "db_step crc db db1" using assms(3) t sid by (intro step_delete [OF db1(1)]) simp
  from write_finish [OF this tx_Delete_status [OF db1(1)] assms(2) db1(2)] show "(db_step crc)\<^sup>*\<^sup>* db db'" .
qed

lemma CreateTable_status:
  assumes "ses_CreateTable crc db s uuid name = Some (Inr db')"
  shows "ts_tx_status (db_tx_storage db') = ts_tx_status (db_tx_storage db)"
proof -
  from assms obtain sid db1 where "cat_AddStorage crc db (ses_tx s) uuid name = Some (Inr (sid, db1))" "db_tx_storage db' = db_tx_storage db1"
    by (auto simp: ses_CreateTable_def bindM_def Let_def split: option.splits sum.splits)
  then show ?thesis
    by (auto simp: cat_AddStorage_def bindM_def tx_Upsert_status split: option.splits sum.splits if_splits)
qed

lemma DropTable_status:
  assumes "ses_DropTable crc db s name = Some (Inr db')"
  shows "ts_tx_status (db_tx_storage db') = ts_tx_status (db_tx_storage db)"
proof -
  from assms have "db' = db \<or> cat_DeleteStorage crc db (ses_tx s) name = Some (Inr db')"
    by (auto simp: ses_DropTable_def split: option.splits sum.splits if_splits)
  then show ?thesis
    by (auto simp: cat_DeleteStorage_def bindM_def tx_Upsert_status split: option.splits sum.splits if_splits)
qed

lemma CreateTable_steps:
  assumes "CreateTable_coro crc uuid q s db = Some (Inr (r, db'))" "in_session s db" "request_fits crc uuid s db (CreateTableRequest q)"
  shows "(db_step crc)\<^sup>*\<^sup>* db db'"
proof -
  from assms(1) obtain db1 where db1: "ses_CreateTable crc db s uuid (tq_name q) = Some (Inr db1)" "finish_session db1 s (\<lambda>tx. tx) = Some (Inr (r, db'))"
    by (auto simp: CreateTable_coro_def bindM_def split: option.splits sum.splits)
  have "db_step crc db db1" using assms(3) by (intro step_create [OF db1(1)]) simp_all
  from write_finish [OF this CreateTable_status [OF db1(1)] assms(2) db1(2)] show ?thesis .
qed

lemma DropTable_steps:
  assumes "DropTable_coro crc q s db = Some (Inr (r, db'))" "in_session s db" "request_fits crc uuid s db (DropTableRequest q)"
  shows "(db_step crc)\<^sup>*\<^sup>* db db'"
proof -
  from assms(1) obtain db1 where db1: "ses_DropTable crc db s (tq_name q) = Some (Inr db1)" "finish_session db1 s (\<lambda>tx. tx) = Some (Inr (r, db'))"
    by (auto simp: DropTable_coro_def bindM_def split: option.splits sum.splits)
  have "db_step crc db db1" using assms(3) by (intro step_drop [OF db1(1)]) auto
  from write_finish [OF this DropTable_status [OF db1(1)] assms(2) db1(2)] show ?thesis .
qed

lemma Lookup_steps:
  assumes "Lookup_coro crc q s db = Some (Inr (r, db'))" "in_session s db"
  shows "(db_step crc)\<^sup>*\<^sup>* db db'"
  by (rule with_table_steps [OF assms(1) [unfolded Lookup_coro_def]])
    (use finish_steps [OF _ assms(2)] in \<open>fastforce simp: bindM_def split: option.splits sum.splits\<close>)

lemma Scan_steps:
  assumes "Scan_coro crc q s db = Some (Inr (r, db'))" "in_session s db"
  shows "(db_step crc)\<^sup>*\<^sup>* db db'"
  by (rule with_table_steps [OF assms(1) [unfolded Scan_coro_def]])
    (use finish_steps [OF _ assms(2)] in \<open>fastforce simp: bindM_def split: option.splits sum.splits\<close>)

lemma Commit_steps: "Commit_coro s db = Some (Inr (r, db')) \<Longrightarrow> in_session s db \<Longrightarrow> (db_step crc)\<^sup>*\<^sup>* db db'"
proof -
  assume c: "Commit_coro s db = Some (Inr (r, db'))" "in_session s db"
  have "ts_tx_status (db_tx_storage (ses_Commit db s)) (ses_tx s) \<noteq> None"
    by (simp add: ses_Commit_def split_beta ts_Commit_def Let_def)
  then have "in_session s (ses_Commit db s)" using c(2) by (simp add: in_session_def)
  with commit_steps [OF c(2)] have "(db_step crc)\<^sup>*\<^sup>* db (ses_Commit (ses_Commit db s) s)" using commit_steps by (meson rtranclp_trans)
  with c commit_steps [OF c(2)] show ?thesis by (auto simp: Commit_coro_def ses_Finish_def Let_def split: if_splits)
qed

fun request_tx :: "request \<Rightarrow> string option" where
  "request_tx (UpsertRequest q) = uq_tx q"
| "request_tx (LookupRequest q) = kq_tx q"
| "request_tx (DeleteRequest q) = kq_tx q"
| "request_tx (CreateTableRequest q) = tq_tx q"
| "request_tx (DropTableRequest q) = tq_tx q"
| "request_tx (ScanRequest q) = sq_tx q"
| "request_tx BeginRequest = None"
| "request_tx (CommitRequest tx) = Some tx"

definition admissible :: "crc32 \<Rightarrow> string \<Rightarrow> database \<Rightarrow> request \<Rightarrow> bool" where
  "admissible crc uuid db q \<longleftrightarrow> is_int64 (ts_next_tx_id (db_tx_storage db)) \<and>
     (case bindE (ParseTx (request_tx q)) (db_StartSession db) of
        Inl _ \<Rightarrow> True | Inr (s, db) \<Rightarrow> request_fits crc uuid s db q)"

lemma after_Some: "after r = Some (Inr db) \<longleftrightarrow> (\<exists>x. r = Some (Inr (x, db)))"
  by (cases r) (auto simp: map_sum_def split: sum.splits)

lemma session_steps:
  assumes "after (with_session db (ParseTx (request_tx q)) body) = Some (Inr db')" "admissible crc uuid db q"
    and "\<And>s db1 r. request_fits crc uuid s db1 q \<Longrightarrow> in_session s db1 \<Longrightarrow> body s db1 = Some (Inr (r, db')) \<Longrightarrow> (db_step crc)\<^sup>*\<^sup>* db1 db'"
  shows "(db_step crc)\<^sup>*\<^sup>* db db'"
proof -
  from assms(1) obtain r where r: "with_session db (ParseTx (request_tx q)) body = Some (Inr (r, db'))" unfolding after_Some by blast
  show ?thesis
  proof (rule with_session_steps [OF r ParseTx_int64])
    show "is_int64 (ts_next_tx_id (db_tx_storage db))" using assms(2) by (simp add: admissible_def)
    fix s db1 assume "bindE (ParseTx (request_tx q)) (db_StartSession db) = Inr (s, db1)" and b: "in_session s db1" "body s db1 = Some (Inr (r, db'))"
    then have "request_fits crc uuid s db1 q" using assms(2) by (simp add: admissible_def)
    then show "(db_step crc)\<^sup>*\<^sup>* db1 db'" by (rule assms(3) [OF _ b])
  qed assumption
qed

end
