(* ===== verification/Client.thy ===== *)
theory Client
  imports Services
begin

section \<open>The client library\<close>

text \<open>
  \<open>src/src/client\<close>: the classes that build the requests of \<open>src/proto\<close>, send them and turn a status
  that is not \<open>OK\<close> into an exception. A connection is what the stubs of gRPC offer: for every request
  what the server replies and what becomes of it; \<open>server_connection\<close> is the connection to
  the services of the server.
\<close>

datatype thrown = StatusError status | Thrown error

type_synonym ('s, 'r) call = "'s \<Rightarrow> ('r reply \<times> 's) result option"
type_synonym ('s, 'a) client = "'s \<Rightarrow> ((thrown + 'a) \<times> 's) result option"

record 's connection =
  con_Upsert :: "upsert_request \<Rightarrow> ('s, string) call"
  con_Lookup :: "key_request \<Rightarrow> ('s, lookup_response) call"
  con_Delete :: "key_request \<Rightarrow> ('s, string) call"
  con_Scan :: "scan_request \<Rightarrow> ('s, scan_response) call"
  con_CreateTable :: "table_request \<Rightarrow> ('s, string) call"
  con_DropTable :: "table_request \<Rightarrow> ('s, string) call"
  con_Begin :: "('s, string) call"
  con_Commit :: "string \<Rightarrow> ('s, unit) call"

definition server_connection :: "crc32 \<Rightarrow> bool \<Rightarrow> string \<Rightarrow> database connection" where
  "server_connection crc read_only uuid =
     \<lparr>con_Upsert = (\<lambda>q db. svc_Upsert crc read_only db q), con_Lookup = (\<lambda>q db. svc_Lookup crc db q),
      con_Delete = (\<lambda>q db. svc_Delete crc read_only db q), con_Scan = (\<lambda>q db. svc_Scan crc db q),
      con_CreateTable = (\<lambda>q db. svc_CreateTable crc read_only uuid db q), con_DropTable = (\<lambda>q db. svc_DropTable crc read_only db q),
      con_Begin = svc_Begin, con_Commit = (\<lambda>tx db. svc_Commit db tx)\<rparr>"

definition CheckStatus :: "'r reply \<Rightarrow> thrown + 'r" where
  "CheckStatus reply = (case reply of Finish_OK r \<Rightarrow> Inr r | Finish status \<Rightarrow> Inl (StatusError status))"

definition checked :: "('s, 'r) call \<Rightarrow> ('r \<Rightarrow> 'a) \<Rightarrow> ('s, 'a) client" where
  "checked call f s = bindM (call s) (\<lambda>(reply, s). Some (Inr (map_sum id f (CheckStatus reply), s)))"

subsection \<open>TableClient\<close>

record table_client =
  tc_table_name :: string
  tc_tx :: "string option"

definition tc_Upsert :: "'s connection \<Rightarrow> table_client \<Rightarrow> string \<Rightarrow> string \<Rightarrow> ('s, unit) client" where
  "tc_Upsert con t key val =
     checked (con_Upsert con \<lparr>uq_tx = tc_tx t, uq_table = tc_table_name t, uq_key = key, uq_value = val\<rparr>) (\<lambda>_. ())"

definition tc_Lookup :: "'s connection \<Rightarrow> table_client \<Rightarrow> string \<Rightarrow> ('s, string option) client" where
  "tc_Lookup con t key = checked (con_Lookup con \<lparr>kq_tx = tc_tx t, kq_table = tc_table_name t, kq_key = key\<rparr>) lr_value"

definition tc_Scan :: "'s connection \<Rightarrow> table_client \<Rightarrow> string option \<Rightarrow> string option \<Rightarrow> ('s, row list) client" where
  "tc_Scan con t lower upper =
     checked (con_Scan con \<lparr>sq_tx = tc_tx t, sq_table = tc_table_name t, sq_lower_bound = lower, sq_upper_bound = upper\<rparr>) sr_records"

definition tc_Delete :: "'s connection \<Rightarrow> table_client \<Rightarrow> string \<Rightarrow> ('s, unit) client" where
  "tc_Delete con t key = checked (con_Delete con \<lparr>kq_tx = tc_tx t, kq_table = tc_table_name t, kq_key = key\<rparr>) (\<lambda>_. ())"

subsection \<open>Transaction\<close>

text \<open>A \<open>TransactionImpl\<close> is its connection and its id.\<close>

definition ctx_CreateTable :: "'s connection \<Rightarrow> string \<Rightarrow> string \<Rightarrow> ('s, unit) client" where
  "ctx_CreateTable con tx name = checked (con_CreateTable con \<lparr>tq_tx = Some tx, tq_name = name\<rparr>) (\<lambda>_. ())"

definition ctx_DropTable :: "'s connection \<Rightarrow> string \<Rightarrow> string \<Rightarrow> ('s, unit) client" where
  "ctx_DropTable con tx name = checked (con_DropTable con \<lparr>tq_tx = Some tx, tq_name = name\<rparr>) (\<lambda>_. ())"

definition ctx_Table :: "string \<Rightarrow> string \<Rightarrow> table_client" where
  "ctx_Table tx name = \<lparr>tc_table_name = name, tc_tx = Some tx\<rparr>"

definition ctx_Commit :: "'s connection \<Rightarrow> string \<Rightarrow> ('s, unit) client" where
  "ctx_Commit con tx = checked (con_Commit con tx) (\<lambda>_. ())"

definition ctx_Rollback :: "'s connection \<Rightarrow> string \<Rightarrow> ('s, unit) client" where
  "ctx_Rollback con tx s = Some (Inr (Inr (), s))"

subsection \<open>AutoCommitDatabase\<close>

definition adb_CreateTable :: "'s connection \<Rightarrow> string \<Rightarrow> ('s, unit) client" where
  "adb_CreateTable con name = checked (con_CreateTable con \<lparr>tq_tx = None, tq_name = name\<rparr>) (\<lambda>_. ())"

definition adb_DropTable :: "'s connection \<Rightarrow> string \<Rightarrow> ('s, unit) client" where
  "adb_DropTable con name = checked (con_DropTable con \<lparr>tq_tx = None, tq_name = name\<rparr>) (\<lambda>_. ())"

definition adb_Table :: "string \<Rightarrow> table_client" where
  "adb_Table name = \<lparr>tc_table_name = name, tc_tx = None\<rparr>"

text \<open>\<open>Begin\<close> does not look at the status; without a reply the id is the empty string.\<close>

definition adb_Begin :: "'s connection \<Rightarrow> ('s, string) client" where
  "adb_Begin con s =
     bindM (con_Begin con s) (\<lambda>(reply, s). Some (Inr (Inr (case reply of Finish_OK tx \<Rightarrow> tx | Finish status \<Rightarrow> ''''), s)))"

definition then_client :: "('s, 'a) client \<Rightarrow> ('a \<Rightarrow> ('s, 'b) client) \<Rightarrow> ('s, 'b) client" where
  "then_client m f s = bindM (m s) (\<lambda>(r, s). case r of Inl e \<Rightarrow> Some (Inr (Inl e, s)) | Inr x \<Rightarrow> f x s)"

definition adb_WithTransaction :: "'s connection \<Rightarrow> (string \<Rightarrow> ('s, unit) client) \<Rightarrow> ('s, unit) client" where
  "adb_WithTransaction con cb =
     then_client (adb_Begin con) (\<lambda>tx s.
       bindM (cb tx s) (\<lambda>(r, s).
         case r of
           Inl e \<Rightarrow> then_client (ctx_Rollback con tx) (\<lambda>_ s. Some (Inr (Inl e, s))) s
         | Inr _ \<Rightarrow> ctx_Commit con tx s))"

end
