(* ===== verification/Service_Calls.thy ===== *)
theory Service_Calls
  imports Services
begin

section \<open>Calls of the services, from request to reply\<close>

text \<open>
  What a client gets back: the replies of the handlers on a running database, computed through the
  session, the catalog, the table and its storage.
\<close>

subsection \<open>The operations of a session on a running database\<close>

lemma inv_StartSession:
  assumes inv: "db_inv crc db logs evs"
  defines "tx \<equiv> ts_next_tx_id (db_tx_storage db)"
  obtains ts where "db_StartSession db None = Inr (\<lparr>ses_tx = tx, ses_is_autocommit = True\<rparr>, db\<lparr>db_tx_storage := ts\<rparr>)"
    "db_inv crc (db\<lparr>db_tx_storage := ts\<rparr>) logs evs" "ts_IsCommited ts = ts_IsCommited (db_tx_storage db)"
    "ts_row_locks ts = ts_row_locks (db_tx_storage db)" "ts_next_tx_id ts = tx + 1" "ts_tx_status ts tx = Some kStarted"
proof -
  let ?ts = "snd (ts_Begin (db_tx_storage db))"
  have b: "ts_bounded (db_tx_storage db)" "ts_wal_writer (db_tx_storage db)" "db_is_initialized db"
    using inv by (auto simp: db_inv_def db_inv_at_def events_ok_def)
  then have new: "ts_tx_status (db_tx_storage db) tx = None" by (auto simp: ts_bounded_def tx_def)
  have com: "ts_IsCommited ?ts = ts_IsCommited (db_tx_storage db)"
    using new by (auto simp: ts_IsCommited_def ts_Begin_def tx_def Let_def kStarted_def kCommited_def fun_eq_iff split: if_splits)
  have bd: "ts_bounded ?ts" using b(1) by (force simp: ts_bounded_def ts_Begin_def Let_def split: if_splits)
  have "db_inv crc (db\<lparr>db_tx_storage := ?ts\<rparr>) logs evs"
    by (rule db_inv_tx [OF inv com _ bd]) (simp add: ts_Begin_def Let_def b(2))
  moreover have "db_StartSession db None = Inr (\<lparr>ses_tx = tx, ses_is_autocommit = True\<rparr>, db\<lparr>db_tx_storage := ?ts\<rparr>)"
    using b(3) by (simp add: db_StartSession_def ses_Start_def ts_Begin_def tx_def Let_def)
  ultimately show thesis using com by (intro that [of ?ts]) (simp_all add: ts_Begin_def tx_def Let_def)
qed

lemma inv_tx_Upsert:
  assumes inv: "db_inv crc db logs evs" and s: "map_of logs sid = Some (m, log)"
    and free: "ts_row_locks (db_tx_storage db) key = None" and fits: "write_fits db sid key (new_version tx (Some val))"
  obtains db' where "tx_Upsert db sid tx key val = Some (Inr db')"
    "db_inv crc db' (AList.update sid (m + 1, Record key m (tv_bytes (new_version tx (Some val))) # log) logs)
      (evs @ [upsert_event sid (Record key m (tv_bytes (new_version tx (Some val))))])"
    "ts_tx_status (db_tx_storage db') = ts_tx_status (db_tx_storage db)" "ts_next_tx_id (db_tx_storage db') = ts_next_tx_id (db_tx_storage db)"
    "\<forall>k. k \<noteq> key \<longrightarrow> ts_row_locks (db_tx_storage db') k = ts_row_locks (db_tx_storage db) k" "db_lsm_options db' = db_lsm_options db"
proof -
  from inv_tt_rep [OF inv s] obtain e where e: "map_of (db_storages db) sid = Some e" .
  from tx_Upsert_returns [OF e free, of tx val] obtain db' where up: "tx_Upsert db sid tx key val = Some (Inr db')" by blast
  have "ts_next_tx_id (db_tx_storage db') = ts_next_tx_id (db_tx_storage db) \<and>
      (\<forall>k. k \<noteq> key \<longrightarrow> ts_row_locks (db_tx_storage db') k = ts_row_locks (db_tx_storage db) k) \<and> db_lsm_options db' = db_lsm_options db"
    using up by (auto simp: db_set_env_def set_storage_def tx_Upsert_def storages_at_def bindM_def tt_Upsert_def ts_AcquireRowLock_def Let_def split: option.splits prod.splits if_splits)
  with that [OF up db_inv_tx_Upsert [OF inv s up fits] tx_Upsert_status [OF up]] show thesis by blast
qed

lemma release_rows_None: "locks k = None \<Longrightarrow> release_rows tx rows locks k = None"
  by (induction tx rows locks rule: release_rows.induct) (auto split: option.splits)

lemma inv_Finish:
  assumes inv: "db_inv crc db logs evs" and tx: "is_int64 tx" "ts_tx_status (db_tx_storage db) tx \<noteq> None"
  obtains db' where "finish_session db \<lparr>ses_tx = tx, ses_is_autocommit = True\<rparr> f = Some (Inr (Finish_OK (f (tx_ToString tx)), db'))"
    "db_inv crc db' logs (evs @ [TxStorageCommitEvent tx])"
    "ts_IsCommited (db_tx_storage db') = (ts_IsCommited (db_tx_storage db))(tx := True)"
    "ts_next_tx_id (db_tx_storage db') = ts_next_tx_id (db_tx_storage db)"
    "\<forall>k. ts_row_locks (db_tx_storage db) k = None \<longrightarrow> ts_row_locks (db_tx_storage db') k = None" "db_lsm_options db' = db_lsm_options db"
proof -
  let ?s = "\<lparr>ses_tx = tx, ses_is_autocommit = True\<rparr>"
  have "db_inv crc (ses_Commit db ?s) logs (evs @ [TxStorageCommitEvent tx])" using db_inv_Commit [OF inv, of ?s] tx by simp
  moreover have "ts_IsCommited (db_tx_storage (ses_Commit db ?s)) = (ts_IsCommited (db_tx_storage db))(tx := True)"
    "ts_next_tx_id (db_tx_storage (ses_Commit db ?s)) = ts_next_tx_id (db_tx_storage db)"
    "\<forall>k. ts_row_locks (db_tx_storage db) k = None \<longrightarrow> ts_row_locks (db_tx_storage (ses_Commit db ?s)) k = None"
    "db_lsm_options (ses_Commit db ?s) = db_lsm_options db"
    by (auto simp: db_set_env_def ses_Commit_def split_beta ts_Commit_def Let_def ts_IsCommited_def ts_ReleaseAllLocks_def fun_eq_iff release_rows_None split: option.splits)
  ultimately show thesis by (intro that [of "ses_Commit db ?s"]) (simp_all add: finish_session_def ses_Finish_def)
qed

subsection \<open>Tables that everybody sees\<close>

lemma vs_lookup_newest:
  "map_of vs key = Some v \<Longrightarrow> tt_sees ts tx v \<Longrightarrow> vs_lookup ts tx vs key = (if tv_is_deleted v then None else Some (tv_value v))"
  by (induction vs) (auto split: if_splits)

text \<open>The newest row of the catalog for the name was committed and says that the table has the storage \<open>sid\<close>.\<close>

definition table_committed :: "tx_storage \<Rightarrow> versions \<Rightarrow> string \<Rightarrow> string \<Rightarrow> bool" where
  "table_committed ts vs name sid \<longleftrightarrow> name \<noteq> kSysTables \<and> name \<noteq> kSysTransactions \<and>
     (case map_of vs name of
        None \<Rightarrow> False
      | Some v \<Rightarrow> ts_IsCommited ts (tv_tx v) \<and> \<not> tv_is_deleted v \<and> tv_value v = ti_ToString \<lparr>ti_status = kCreated, ti_id = sid\<rparr>)"

lemma inv_GetTable:
  assumes "db_inv crc db logs evs" "map_of logs kSysTables = Some (m, log)" "table_committed (db_tx_storage db) (versions_of log) name sid"
    and "map_of logs sid = Some st"
  shows "ses_GetTable crc db s name = Some (Inr (Some (UserTable sid)))"
proof -
  from assms(3) obtain v where v: "map_of (versions_of log) name = Some v" "ts_IsCommited (db_tx_storage db) (tv_tx v)" "\<not> tv_is_deleted v"
    "tv_value v = ti_ToString \<lparr>ti_status = kCreated, ti_id = sid\<rparr>" and name: "name \<noteq> kSysTables" "name \<noteq> kSysTransactions"
    by (auto simp: table_committed_def split: option.splits)
  have look: "tx_Lookup crc db kSysTables (ses_tx s) name = Some (Inr (Some (ti_ToString \<lparr>ti_status = kCreated, ti_id = sid\<rparr>)))"
    using inv_tx_Lookup [OF assms(1,2)] vs_lookup_newest [OF v(1)] v(2,3,4) by (simp add: tt_sees_def)
  obtain e where "map_of (db_storages db) sid = Some e" using db_inv_storage [OF assms(1,4)] by metis
  then have at: "storages_at db sid = Inr e" by (simp add: storages_at_def)
  have "ParseRecord (ti_ToString \<lparr>ti_status = kCreated, ti_id = sid\<rparr>) = Inr \<lparr>ti_status = kCreated, ti_id = sid\<rparr>"
    by (rule ParseRecord_ToString) (simp add: kCreated_def)
  with look at show ?thesis
    by (simp add: ses_GetTable_def name cat_GetStorageId_def cat_GetTableInfo_def kCreated_def kDropped_def)
qed

subsection \<open>A write and a read in their own transactions\<close>

lemma svc_Lookup_autocommit:
  assumes inv: "db_inv crc db logs evs" and sys: "map_of logs kSysTables = Some (m, log)"
    and tab: "table_committed (db_tx_storage db) (versions_of log) name sid" and st: "map_of logs sid = Some (m', log')"
    and ids: "is_int64 (ts_next_tx_id (db_tx_storage db))"
  obtains db' where "svc_Lookup crc db \<lparr>kq_tx = None, kq_table = name, kq_key = key\<rparr> =
      Some (Inr (Finish_OK \<lparr>lr_value = vs_lookup (db_tx_storage db) (ts_next_tx_id (db_tx_storage db)) (versions_of log') key,
        lr_tx = tx_ToString (ts_next_tx_id (db_tx_storage db))\<rparr>, db'))"
proof -
  let ?tx = "ts_next_tx_id (db_tx_storage db)" let ?s = "\<lparr>ses_tx = ?tx, ses_is_autocommit = True\<rparr>"
  from inv_StartSession [OF inv] obtain ts where start: "db_StartSession db None = Inr (?s, db\<lparr>db_tx_storage := ts\<rparr>)"
    and inv1: "db_inv crc (db\<lparr>db_tx_storage := ts\<rparr>) logs evs" and com: "ts_IsCommited ts = ts_IsCommited (db_tx_storage db)"
    and st1: "ts_tx_status ts ?tx = Some kStarted" by metis
  let ?db1 = "db\<lparr>db_tx_storage := ts\<rparr>"
  have tab1: "table_committed (db_tx_storage ?db1) (versions_of log) name sid" using tab by (simp add: table_committed_def com cong: option.case_cong)
  note get = inv_GetTable [OF inv1 sys tab1 st]
  have look: "tx_Lookup crc ?db1 sid ?tx key = Some (Inr (vs_lookup (db_tx_storage db) ?tx (versions_of log') key))"
    using inv_tx_Lookup [OF inv1 st] versions_cong(1) [OF com] by simp
  let ?f = "\<lambda>tx. \<lparr>lr_value = vs_lookup (db_tx_storage db) ?tx (versions_of log') key, lr_tx = tx\<rparr>"
  from inv_Finish [OF inv1 ids, of ?f] st1 obtain db' where "finish_session ?db1 ?s ?f = Some (Inr (Finish_OK (?f (tx_ToString ?tx)), db'))"
    by auto
  with start get look have "svc_Lookup crc db \<lparr>kq_tx = None, kq_table = name, kq_key = key\<rparr> = Some (Inr (Finish_OK (?f (tx_ToString ?tx)), db'))"
    by (simp add: svc_Lookup_def with_session_def ParseTx_def catch_exception_def Lookup_coro_def with_table_def)
  then show thesis by (rule that)
qed

lemma svc_Upsert_autocommit:
  assumes inv: "db_inv crc db logs evs" and sys: "map_of logs kSysTables = Some (m, log)"
    and tab: "table_committed (db_tx_storage db) (versions_of log) name sid" and st: "map_of logs sid = Some (m', log')"
    and ids: "is_int64 (ts_next_tx_id (db_tx_storage db))" and free: "ts_row_locks (db_tx_storage db) key = None"
    and fits: "write_fits db sid key (new_version (ts_next_tx_id (db_tx_storage db)) (Some val))"
  defines "r \<equiv> Record key m' (tv_bytes (new_version (ts_next_tx_id (db_tx_storage db)) (Some val)))"
  obtains db' evs' where "svc_Upsert crc False db \<lparr>uq_tx = None, uq_table = name, uq_key = key, uq_value = val\<rparr> =
      Some (Inr (Finish_OK (tx_ToString (ts_next_tx_id (db_tx_storage db))), db'))"
    "db_inv crc db' (AList.update sid (m' + 1, r # log') logs) evs'"
    "ts_IsCommited (db_tx_storage db') = (ts_IsCommited (db_tx_storage db))(ts_next_tx_id (db_tx_storage db) := True)"
    "ts_next_tx_id (db_tx_storage db') = ts_next_tx_id (db_tx_storage db) + 1"
proof -
  let ?tx = "ts_next_tx_id (db_tx_storage db)" let ?s = "\<lparr>ses_tx = ?tx, ses_is_autocommit = True\<rparr>"
  from inv_StartSession [OF inv] obtain ts where start: "db_StartSession db None = Inr (?s, db\<lparr>db_tx_storage := ts\<rparr>)"
    and inv1: "db_inv crc (db\<lparr>db_tx_storage := ts\<rparr>) logs evs" and com: "ts_IsCommited ts = ts_IsCommited (db_tx_storage db)"
    and ts: "ts_tx_status ts ?tx = Some kStarted" "ts_row_locks ts = ts_row_locks (db_tx_storage db)" "ts_next_tx_id ts = ?tx + 1" by metis
  let ?db1 = "db\<lparr>db_tx_storage := ts\<rparr>"
  have tab1: "table_committed (db_tx_storage ?db1) (versions_of log) name sid" using tab by (simp add: table_committed_def com cong: option.case_cong)
  note get = inv_GetTable [OF inv1 sys tab1 st]
  have f1: "write_fits ?db1 sid key (new_version ?tx (Some val))" using fits by (simp add: write_fits_def)
  have free1: "ts_row_locks (db_tx_storage ?db1) key = None" using free ts(2) by simp
  from inv_tx_Upsert [OF inv1 st free1 f1] obtain db2 evs2 where db2: "tx_Upsert ?db1 sid ?tx key val = Some (Inr db2)"
    "db_inv crc db2 (AList.update sid (m' + 1, r # log') logs) evs2" "ts_tx_status (db_tx_storage db2) = ts_tx_status ts"
    "ts_next_tx_id (db_tx_storage db2) = ?tx + 1" using ts(3) unfolding r_def by (metis database.select_convs(5) database.surjective database.update_convs(5))
  have "ts_tx_status (db_tx_storage db2) ?tx \<noteq> None" using db2(3) ts(1) by simp
  from inv_Finish [OF db2(2) ids this, of "\<lambda>tx. tx"] obtain db' where db': "finish_session db2 ?s (\<lambda>tx. tx) = Some (Inr (Finish_OK (tx_ToString ?tx), db'))"
    "db_inv crc db' (AList.update sid (m' + 1, r # log') logs) (evs2 @ [TxStorageCommitEvent ?tx])"
    "ts_IsCommited (db_tx_storage db') = (ts_IsCommited (db_tx_storage db2))(?tx := True)"
    "ts_next_tx_id (db_tx_storage db') = ts_next_tx_id (db_tx_storage db2)" by metis
  have "svc_Upsert crc False db \<lparr>uq_tx = None, uq_table = name, uq_key = key, uq_value = val\<rparr> = Some (Inr (Finish_OK (tx_ToString ?tx), db'))"
    using start get db2(1) db'(1)
    by (simp add: svc_Upsert_def with_session_def ParseTx_def catch_exception_def Upsert_coro_def with_table_def)
  moreover have "ts_IsCommited (db_tx_storage db2) = ts_IsCommited (db_tx_storage db)"
    using db2(3) com by (simp add: ts_IsCommited_def fun_eq_iff)
  ultimately show thesis using db' db2(4) by (intro that [of db']) simp_all
qed

lemma upsert_then_lookup:
  assumes "db_inv crc db logs evs" and "map_of logs kSysTables = Some (m, log)"
    and "table_committed (db_tx_storage db) (versions_of log) name sid" and "map_of logs sid = Some (m', log')" and "sid \<noteq> kSysTables"
    and "is_int64 (ts_next_tx_id (db_tx_storage db))" and "is_int64 (ts_next_tx_id (db_tx_storage db) + 1)"
    and "ts_row_locks (db_tx_storage db) key = None"
    and "write_fits db sid key (new_version (ts_next_tx_id (db_tx_storage db)) (Some val))"
  shows "\<exists>tx db1 tx' db2.
    svc_Upsert crc False db \<lparr>uq_tx = None, uq_table = name, uq_key = key, uq_value = val\<rparr> = Some (Inr (Finish_OK tx, db1)) \<and>
    svc_Lookup crc db1 \<lparr>kq_tx = None, kq_table = name, kq_key = key\<rparr> =
      Some (Inr (Finish_OK \<lparr>lr_value = Some val, lr_tx = tx'\<rparr>, db2))"
proof -
  let ?tx = "ts_next_tx_id (db_tx_storage db)" let ?v = "new_version ?tx (Some val)" let ?r = "Record key m' (tv_bytes ?v)"
  from svc_Upsert_autocommit [OF assms(1-4,6,8,9)] obtain db1 evs1 where
    up: "svc_Upsert crc False db \<lparr>uq_tx = None, uq_table = name, uq_key = key, uq_value = val\<rparr> = Some (Inr (Finish_OK (tx_ToString ?tx), db1))"
    and inv1: "db_inv crc db1 (AList.update sid (m' + 1, ?r # log') logs) evs1"
    and com: "ts_IsCommited (db_tx_storage db1) = (ts_IsCommited (db_tx_storage db))(?tx := True)"
    and nxt: "ts_next_tx_id (db_tx_storage db1) = ?tx + 1" by metis
  have sys1: "map_of (AList.update sid (m' + 1, ?r # log') logs) kSysTables = Some (m, log)" using assms(2,5) by (simp add: update_conv')
  have st1: "map_of (AList.update sid (m' + 1, ?r # log') logs) sid = Some (m' + 1, ?r # log')" by (simp add: update_conv')
  have tab1: "table_committed (db_tx_storage db1) (versions_of log) name sid"
    using assms(3) by (auto simp: table_committed_def com split: option.splits)
  have ids: "is_int64 (ts_next_tx_id (db_tx_storage db1))" using assms(7) by (simp add: nxt)
  have "valid_tv ?v" using assms(9) by (simp add: write_fits_def)
  then have "versions_of (?r # log') = (key, ?v) # versions_of log'" by (simp add: versions_of_def)
  then have "vs_lookup (db_tx_storage db1) tx (versions_of (?r # log')) key = Some val" for tx
    by (simp add: tt_sees_def com new_version_def)
  with svc_Lookup_autocommit [OF inv1 sys1 tab1 st1 ids, of key] up show ?thesis by metis
qed

subsection \<open>A new table\<close>

lemma svc_CreateTable_autocommit:
  assumes inv: "db_inv crc db logs evs" and sys: "map_of logs kSysTables = Some (m, log)"
    and new: "name \<notin> set kInternalTables" "map_of (versions_of log) name = None"
    and ids: "is_int64 (ts_next_tx_id (db_tx_storage db))" and free: "ts_row_locks (db_tx_storage db) name = None"
    and uuid: "good_sid uuid" "uuid \<notin> fst ` set logs"
    and fits: "write_fits db kSysTables name
      (new_version (ts_next_tx_id (db_tx_storage db)) (Some (ti_ToString \<lparr>ti_status = kCreated, ti_id = uuid\<rparr>)))"
  defines "r \<equiv> Record name m (tv_bytes (new_version (ts_next_tx_id (db_tx_storage db)) (Some (ti_ToString \<lparr>ti_status = kCreated, ti_id = uuid\<rparr>))))"
  obtains db' evs' where "svc_CreateTable crc False uuid db \<lparr>tq_tx = None, tq_name = name\<rparr> =
      Some (Inr (Finish_OK (tx_ToString (ts_next_tx_id (db_tx_storage db))), db'))"
    "db_inv crc db' (AList.update kSysTables (m + 1, r # log) logs @ [(uuid, (1, []))]) evs'"
    "ts_IsCommited (db_tx_storage db') (ts_next_tx_id (db_tx_storage db))"
    "ts_next_tx_id (db_tx_storage db') = ts_next_tx_id (db_tx_storage db) + 1"
    "\<forall>k. k \<noteq> name \<longrightarrow> ts_row_locks (db_tx_storage db) k = None \<longrightarrow> ts_row_locks (db_tx_storage db') k = None"
    "db_lsm_options db' = db_lsm_options db"
proof -
  let ?tx = "ts_next_tx_id (db_tx_storage db)" let ?s = "\<lparr>ses_tx = ?tx, ses_is_autocommit = True\<rparr>"
  let ?i = "ti_ToString \<lparr>ti_status = kCreated, ti_id = uuid\<rparr>" let ?logs = "AList.update kSysTables (m + 1, r # log) logs"
  from inv_StartSession [OF inv] obtain ts where start: "db_StartSession db None = Inr (?s, db\<lparr>db_tx_storage := ts\<rparr>)"
    and inv1: "db_inv crc (db\<lparr>db_tx_storage := ts\<rparr>) logs evs"
    and ts: "ts_tx_status ts ?tx = Some kStarted" "ts_row_locks ts = ts_row_locks (db_tx_storage db)" "ts_next_tx_id ts = ?tx + 1" by metis
  let ?db1 = "db\<lparr>db_tx_storage := ts\<rparr>"
  have f1: "write_fits ?db1 kSysTables name (new_version ?tx (Some ?i))" using fits by (simp add: write_fits_def)
  have free1: "ts_row_locks (db_tx_storage ?db1) name = None" using free ts(2) by simp
  have "vs_lookup ts' tx vs name = None" if "map_of vs name = None" for ts' tx vs using that by (induction vs) (auto split: if_splits)
  then have info: "cat_GetTableInfo crc ?db1 ?tx name = Some (Inr None)"
    using inv_tx_Lookup [OF inv1 sys] new(2) by (simp add: cat_GetTableInfo_def)
  from inv_tx_Upsert [OF inv1 sys free1 f1] obtain db2 evs2 where db2: "tx_Upsert ?db1 kSysTables ?tx name ?i = Some (Inr db2)"
    "db_inv crc db2 ?logs evs2" "ts_tx_status (db_tx_storage db2) = ts_tx_status ts"
    "ts_next_tx_id (db_tx_storage db2) = ?tx + 1" "\<forall>k. k \<noteq> name \<longrightarrow> ts_row_locks (db_tx_storage db2) k = ts_row_locks ts k"
    "db_lsm_options db2 = db_lsm_options db"
    using ts(3) unfolding r_def by (simp add: that) metis
  have add: "cat_AddStorage crc ?db1 ?tx uuid name = Some (Inr (uuid, db2))" using new(1) info db2(1) by (simp add: cat_AddStorage_def)
  have "kSysTables \<in> fst ` set logs" using map_of_SomeD [OF sys] by force
  then have "uuid \<notin> fst ` set ?logs" using uuid(2) by (auto simp: dom_update)
  from db_inv_add [OF db2(2) this uuid(1)] obtain db3 where cr: "ses_CreateTable crc ?db1 ?s uuid name = Some (Inr db3)"
    and inv3: "db_inv crc db3 (?logs @ [(uuid, (1, []))]) evs2" and tx3: "db_tx_storage db3 = db_tx_storage db2" "db_lsm_options db3 = db_lsm_options db2"
    using add by (auto simp: ses_CreateTable_def Let_def)
  have "ts_tx_status (db_tx_storage db3) ?tx \<noteq> None" using db2(3) ts(1) tx3 by simp
  from inv_Finish [OF inv3 ids this, of "\<lambda>tx. tx"] obtain db' where db': "finish_session db3 ?s (\<lambda>tx. tx) = Some (Inr (Finish_OK (tx_ToString ?tx), db'))"
    "db_inv crc db' (?logs @ [(uuid, (1, []))]) (evs2 @ [TxStorageCommitEvent ?tx])"
    "ts_IsCommited (db_tx_storage db') = (ts_IsCommited (db_tx_storage db3))(?tx := True)"
    "ts_next_tx_id (db_tx_storage db') = ts_next_tx_id (db_tx_storage db3)"
    "\<forall>k. ts_row_locks (db_tx_storage db3) k = None \<longrightarrow> ts_row_locks (db_tx_storage db') k = None"
    "db_lsm_options db' = db_lsm_options db3" by metis
  have "svc_CreateTable crc False uuid db \<lparr>tq_tx = None, tq_name = name\<rparr> = Some (Inr (Finish_OK (tx_ToString ?tx), db'))"
    using start cr db'(1) by (simp add: svc_CreateTable_def with_session_def ParseTx_def catch_exception_def CreateTable_coro_def)
  with db' db2(4,5,6) ts(2) tx3 show thesis by (intro that [of db']) simp_all
qed

lemma new_table:
  defines "r \<equiv> Record ''t'' 1 (tv_bytes (new_version 10 (Some (ti_ToString \<lparr>ti_status = kCreated, ti_id = ''u''\<rparr>))))"
  obtains db0 db evs where "db_Init (Database [] [] ''db'' default_options) = Inr db0"
    "svc_CreateTable (\<lambda>_. 0) False ''u'' db0 \<lparr>tq_tx = None, tq_name = ''t''\<rparr> = Some (Inr (Finish_OK (tx_ToString 10), db))"
    "admissible (\<lambda>_. 0) ''u'' db0 (CreateTableRequest \<lparr>tq_tx = None, tq_name = ''t''\<rparr>)"
    "db_inv (\<lambda>_. 0) db [(kSysTables, (2, [r])), (''u'', (1, []))] evs" "ts_IsCommited (db_tx_storage db) 10"
    "ts_next_tx_id (db_tx_storage db) = 11" "\<forall>k. k \<noteq> ''t'' \<longrightarrow> ts_row_locks (db_tx_storage db) k = None" "db_lsm_options db = default_options"
proof -
  let ?i = "ti_ToString \<lparr>ti_status = kCreated, ti_id = ''u''\<rparr>"
  have opts: "good_options default_options"
    by (simp add: default_options_def good_options_def good_page_size_def file_fits_def)
  from db_inv_Init [OF this, of "''db''" "\<lambda>_. 0"] obtain db0 where db0: "db_Init (Database [] [] ''db'' default_options) = Inr db0"
    and ts: "db_tx_storage db0 = ts_StartLogInto Tx_Storage" and inv0: "db_inv (\<lambda>_. 0) db0 [(kSysTables, (1, []))] []"
    and op: "db_lsm_options db0 = default_options" by blast
  note vals = ts ts_StartLogInto_def Tx_Storage_def kInitialTxId_def
  have names: "''t'' \<notin> set kInternalTables" "good_sid ''u''" "''u'' \<notin> fst ` set [(kSysTables, (1, []))]"
    by (simp_all add: kInternalTables_def kSysTables_def kSysTransactions_def kWal_def good_sid_def)
  from db_inv_storage [OF inv0, of kSysTables] obtain e where e: "map_of (db_storages db0) kSysTables = Some e"
    "engine_ok (\<lambda>_. 0) db0 kSysTables e (1, [])" by (metis map_of_Cons_code(2))
  have next0: "ts_next_tx_id (db_tx_storage db0) = 10" by (simp add: vals)
  have "length ?i = 9" by (simp add: ti_ToString_def)
  then have fits: "write_fits db0 kSysTables ''t'' (new_version 10 (Some ?i))"
    using e by (auto simp: write_fits_def engine_ok_def plain_rep_def op default_options_def kMaxSequence_def valid_tv_def new_version_def kSysTables_def)
  have "map fst (db_storages db0) = [kSysTables]" using inv0 by (auto simp: db_inv_def db_inv_at_def dest: list_all2_keys)
  then have "fst ` set (db_storages db0) = {kSysTables}" by (simp flip: set_map)
  then have free: "map_of (db_storages db0) ''u'' = None" by (simp add: map_of_eq_None_iff kSysTables_def)
  have adm: "admissible (\<lambda>_. 0) ''u'' db0 (CreateTableRequest \<lparr>tq_tx = None, tq_name = ''t''\<rparr>)"
    using inv0 fits names(2) free
    by (simp add: admissible_def ParseTx_def db_StartSession_def ses_Start_def ts_Begin_def Let_def vals db_inv_def db_inv_at_def write_fits_def)
  have p: "map_of [(kSysTables, (1, []))] kSysTables = Some (1, [])" "map_of (versions_of []) ''t'' = None"
    "is_int64 (ts_next_tx_id (db_tx_storage db0))" "ts_row_locks (db_tx_storage db0) ''t'' = None" "\<forall>k. ts_row_locks (db_tx_storage db0) k = None"
    by (simp_all add: versions_of_def vals)
  from svc_CreateTable_autocommit [OF inv0 p(1) names(1) p(2,3,4) names(2,3), unfolded next0, OF fits]
  obtain db evs where cr: "svc_CreateTable (\<lambda>_. 0) False ''u'' db0 \<lparr>tq_tx = None, tq_name = ''t''\<rparr> = Some (Inr (Finish_OK (tx_ToString 10), db))"
    and inv: "db_inv (\<lambda>_. 0) db (AList.update kSysTables (1 + 1, [r]) [(kSysTables, (1, []))] @ [(''u'', (1, []))]) evs"
    and com: "ts_IsCommited (db_tx_storage db) 10" "ts_next_tx_id (db_tx_storage db) = 10 + 1"
    and lk: "\<forall>k. k \<noteq> ''t'' \<longrightarrow> ts_row_locks (db_tx_storage db0) k = None \<longrightarrow> ts_row_locks (db_tx_storage db) k = None"
    and dbo: "db_lsm_options db = db_lsm_options db0" unfolding r_def .
  have "db_inv (\<lambda>_. 0) db [(kSysTables, (2, [r])), (''u'', (1, []))] evs" using inv by simp
  moreover have "\<forall>k. k \<noteq> ''t'' \<longrightarrow> ts_row_locks (db_tx_storage db) k = None" using lk p(5) by simp
  ultimately show thesis using db0 cr adm com dbo op by (intro that [of db0 db evs]) simp_all
qed

lemma ready_table:
  obtains db logs evs m log where "db_inv (\<lambda>_. 0) db logs evs" "map_of logs kSysTables = Some (m, log)"
    "table_committed (db_tx_storage db) (versions_of log) ''t'' ''u''" "map_of logs ''u'' = Some (1, [])" "''u'' \<noteq> kSysTables"
    "ts_next_tx_id (db_tx_storage db) = 11" "ts_row_locks (db_tx_storage db) ''k'' = None"
    "write_fits db ''u'' ''k'' (new_version (ts_next_tx_id (db_tx_storage db)) (Some ''1''))" "ts_IsCommited (db_tx_storage db) 10"
    "\<forall>k. k \<noteq> ''t'' \<longrightarrow> ts_row_locks (db_tx_storage db) k = None" "db_lsm_options db = default_options"
proof -
  let ?v = "new_version 10 (Some (ti_ToString \<lparr>ti_status = kCreated, ti_id = ''u''\<rparr>))"
  let ?logs = "[(kSysTables, (2, [Record ''t'' 1 (tv_bytes ?v)])), (''u'', (1, []))]"
  obtain db evs where inv: "db_inv (\<lambda>_. 0) db ?logs evs" and com: "ts_IsCommited (db_tx_storage db) 10"
    and nxt: "ts_next_tx_id (db_tx_storage db) = 11" and all: "\<forall>k. k \<noteq> ''t'' \<longrightarrow> ts_row_locks (db_tx_storage db) k = None"
    and op: "db_lsm_options db = default_options" by (rule new_table) (rule that)
  have names: "''u'' \<noteq> kSysTables" "''t'' \<noteq> kSysTables" "''t'' \<noteq> kSysTransactions" by (simp_all add: kSysTables_def kSysTransactions_def)
  have "valid_tv ?v" by (simp add: valid_tv_def new_version_def ti_ToString_def)
  then have "versions_of [Record ''t'' 1 (tv_bytes ?v)] = [(''t'', ?v)]" by (simp add: versions_of_def)
  then have tab: "table_committed (db_tx_storage db) (versions_of [Record ''t'' 1 (tv_bytes ?v)]) ''t'' ''u''"
    using com names by (simp add: table_committed_def new_version_def)
  have logs: "map_of ?logs kSysTables = Some (2, [Record ''t'' 1 (tv_bytes ?v)])" "map_of ?logs ''u'' = Some (1, [])" using names by simp_all
  from db_inv_storage [OF inv logs(2)] obtain e where e: "map_of (db_storages db) ''u'' = Some e" "engine_ok (\<lambda>_. 0) db ''u'' e (1, [])" by metis
  have fits: "write_fits db ''u'' ''k'' (new_version (ts_next_tx_id (db_tx_storage db)) (Some ''1''))"
    using e by (auto simp: nxt write_fits_def engine_ok_def plain_rep_def op default_options_def kMaxSequence_def valid_tv_def new_version_def)
  have free: "ts_row_locks (db_tx_storage db) ''k'' = None" using all by simp
  show thesis using that [OF inv logs(1) tab logs(2) names(1) nxt free fits com all op] .
qed

subsection \<open>Every request\<close>



subsection \<open>Requests that fail\<close>

text \<open>
  C32. A transaction is committed once: when a commit has replied \<open>OK\<close>, every other commit of the
  same transaction replies with an internal error and changes nothing.
\<close>

theorem commit_twice_fails:
  assumes "svc_Commit db tx = Some (Inr (Finish_OK (), db'))" and "tx_FromString tx = Inr t"
  shows "svc_Commit db' tx = Some (Inr (Finish (INTERNAL (DatabaseException (''Invalid transaction id: '' @ tx_ToString t))), db'))"
proof -
  let ?s = "\<lparr>ses_tx = t, ses_is_autocommit = False\<rparr>"
  from assms have ini: "db_is_initialized db" and db': "db' = ses_Commit db ?s"
    by (auto simp: svc_Commit_def with_session_def catch_exception_def db_StartSession_def ses_Start_def Commit_coro_def ses_Finish_def
        MakeInternalError_def Let_def split: if_splits)
  have "db_is_initialized db'" using ini by (simp add: db' ses_Commit_def split_beta db_set_env_def)
  moreover have "\<not> ts_IsStarted (db_tx_storage db') t"
    by (simp add: db' ses_Commit_def split_beta ts_Commit_def Let_def ts_IsStarted_def ts_ReleaseAllLocks_def kStarted_def kCommited_def split: option.splits)
  ultimately show ?thesis using assms(2)
    by (simp add: svc_Commit_def with_session_def catch_exception_def db_StartSession_def ses_Start_def is_exception_def MakeInternalError_def)
qed

theorem commit_twice_fails_witness:
  "\<exists>db db'. svc_Commit db ''10'' = Some (Inr (Finish_OK (), db')) \<and>
    svc_Commit db' ''10'' = Some (Inr (Finish (INTERNAL (DatabaseException (''Invalid transaction id: '' @ tx_ToString 10))), db'))"
proof -
  let ?db = "(Database [] [] ''db'' default_options)\<lparr>db_is_initialized := True, db_tx_storage := snd (ts_Begin Tx_Storage)\<rparr>"
  have t: "tx_FromString ''10'' = Inr 10" by code_simp
  have "svc_Commit ?db ''10'' = Some (Inr (Finish_OK (), ses_Commit ?db \<lparr>ses_tx = 10, ses_is_autocommit = False\<rparr>))"
    by (simp add: svc_Commit_def with_session_def catch_exception_def db_StartSession_def ses_Start_def Commit_coro_def ses_Finish_def Let_def t
        Database_def ts_IsStarted_def ts_Begin_def Tx_Storage_def kInitialTxId_def)
  from commit_twice_fails [OF this t] this show ?thesis by blast
qed

text \<open>
  A request without a transaction that fails leaves its transaction behind: whatever the reason
  that an upsert does not reply \<open>OK\<close>, the transaction that was begun for it stays started, and no
  client knows its id.
\<close>

lemma failed_upsert_leaves_transaction:
  assumes "svc_Upsert crc False db q = Some (Inr (Finish st, db'))" and "uq_tx q = None" and "db_is_initialized db"
  shows "ts_IsStarted (db_tx_storage db') (ts_next_tx_id (db_tx_storage db))"
proof -
  let ?db = "db\<lparr>db_tx_storage := snd (ts_Begin (db_tx_storage db))\<rparr>"
  let ?s = "\<lparr>ses_tx = ts_next_tx_id (db_tx_storage db), ses_is_autocommit = True\<rparr>"
  have start: "db_StartSession db None = Inr (?s, ?db)" using assms(3) by (simp add: db_StartSession_def ses_Start_def ts_Begin_def Let_def)
  have "Upsert_coro crc q ?s ?db = Some (Inr (Finish st, db')) \<Longrightarrow> db' = ?db"
    by (auto simp: Upsert_coro_def with_table_def finish_session_def bindM_def Let_def split_beta split: option.splits sum.splits)
  then have "db' = ?db"
    using assms(1,2) start
    by (auto simp: svc_Upsert_def with_session_def ParseTx_def catch_exception_def split: option.splits sum.splits if_splits)
  then show ?thesis by (simp add: ts_IsStarted_def ts_Begin_def Let_def)
qed

end
