(* ===== verification/Cli_Text.thy ===== *)
theory Cli_Text
  imports Prelude "HOL-Library.AList" "HOL-Library.Sublist" "HOL-Library.Word"
begin

section \<open>Words and lines of the command line client\<close>

text \<open>
  \<open>src/src/cli/trie\<close> and \<open>cli/utils\<close>: the trie that completes command names, the splitting of a
  line into tokens, and the printing of rows.
\<close>

subsection \<open>Trie\<close>

text \<open>The children of a node, in an order the standard library leaves open; here the order of insertion.\<close>

datatype trie = Node (is_end_of_word: bool) (children: "(char \<times> trie) list")

definition Trie :: trie where
  "Trie = Node False []"

fun trie_Add :: "trie \<Rightarrow> string \<Rightarrow> trie" where
  "trie_Add (Node e cs) [] = Node True cs"
| "trie_Add (Node e cs) (ch # word) =
     (let cs = (if map_of cs ch = None then cs @ [(ch, Node False [])] else cs)
      in Node e (AList.update ch (trie_Add (the (map_of cs ch)) word) cs))"

fun CollectSuffixes :: "trie \<Rightarrow> string \<Rightarrow> string list \<Rightarrow> string list"
  and CollectChildren :: "(char \<times> trie) list \<Rightarrow> string \<Rightarrow> string list \<Rightarrow> string list" where
  "CollectSuffixes (Node e cs) sfx results = CollectChildren cs sfx (if e then results @ [sfx] else results)"
| "CollectChildren [] sfx results = results"
| "CollectChildren ((ch, child) # cs) sfx results = CollectChildren cs sfx (CollectSuffixes child (sfx @ [ch]) results)"

fun find_node :: "trie \<Rightarrow> string \<Rightarrow> trie option" where
  "find_node n [] = Some n"
| "find_node n (ch # start) = (case map_of (children n) ch of None \<Rightarrow> None | Some n \<Rightarrow> find_node n start)"

definition trie_FindCompletion :: "trie \<Rightarrow> string \<Rightarrow> string list" where
  "trie_FindCompletion t start = (case find_node t start of None \<Rightarrow> [] | Some n \<Rightarrow> CollectSuffixes n start [])"

text \<open>The words of a trie, and what makes them distinct.\<close>

fun words :: "trie \<Rightarrow> string list" and child_words :: "(char \<times> trie) list \<Rightarrow> string list" where
  "words (Node e cs) = (if e then [[]] else []) @ child_words cs"
| "child_words [] = []"
| "child_words ((ch, n) # cs) = map ((#) ch) (words n) @ child_words cs"

fun trie_ok :: "trie \<Rightarrow> bool" and children_ok :: "(char \<times> trie) list \<Rightarrow> bool" where
  "trie_ok (Node e cs) \<longleftrightarrow> distinct (map fst cs) \<and> children_ok cs"
| "children_ok [] \<longleftrightarrow> True"
| "children_ok ((ch, n) # cs) \<longleftrightarrow> trie_ok n \<and> children_ok cs"

lemma Collect_words:
  "CollectSuffixes n sfx results = results @ map ((@) sfx) (words n)"
  "CollectChildren cs sfx results = results @ map ((@) sfx) (child_words cs)"
  by (induction n sfx results and cs sfx results rule: CollectSuffixes_CollectChildren.induct) simp_all

lemma children_ok_iff: "children_ok cs \<longleftrightarrow> (\<forall>(ch, n) \<in> set cs. trie_ok n)"
  by (induction cs) auto

lemma child_words_iff: "w \<in> set (child_words cs) \<longleftrightarrow> (\<exists>ch n w'. (ch, n) \<in> set cs \<and> w = ch # w' \<and> w' \<in> set (words n))"
proof (induction cs)
  case (Cons c cs)
  obtain ch n where "c = (ch, n)" by fastforce
  with Cons show ?case by (simp add: image_iff) blast
qed simp

lemma distinct_words:
  "trie_ok n \<Longrightarrow> distinct (words n)"
  "distinct (map fst cs) \<Longrightarrow> children_ok cs \<Longrightarrow> distinct (child_words cs)"
proof (induction n and cs rule: words_child_words.induct)
  case (1 e cs)
  then show ?case by (auto simp: child_words_iff)
next
  case (3 ch n cs)
  then have "ch \<notin> fst ` set cs" by simp
  then have "map ((#) ch) (words n) = [] \<or> set (map ((#) ch) (words n)) \<inter> set (child_words cs) = {}"
    by (auto simp: child_words_iff) (force simp: child_words_iff)
  with 3 show ?case by (auto simp: distinct_map)
qed simp

lemma child_words_append: "child_words (cs @ cs') = child_words cs @ child_words cs'"
  by (induction cs) auto

text \<open>Adding a word.\<close>

lemma words_trie_Add: "trie_ok t \<Longrightarrow> trie_ok (trie_Add t word) \<and> set (words (trie_Add t word)) = insert word (set (words t))"
proof (induction t word rule: trie_Add.induct)
  case (2 e cs ch word)
  define ds where "ds = (if map_of cs ch = None then cs @ [(ch, Node False [])] else cs)"
  define n where "n = the (map_of ds ch)"
  have ok: "distinct (map fst cs)" "children_ok cs" using 2(2) by simp_all
  have ds: "distinct (map fst ds)" "children_ok ds" "map_of ds ch = Some n" "set (child_words ds) = set (child_words cs)"
    using ok by (auto simp: n_def ds_def children_ok_iff child_words_append map_of_eq_None_iff map_add_def split: option.splits)
  then have n: "trie_ok n" using map_of_SomeD [OF ds(3)] by (auto simp: children_ok_iff)
  from 2(1) [OF refl, folded ds_def, folded n_def] n
  have IH: "trie_ok (trie_Add n word)" "set (words (trie_Add n word)) = insert word (set (words n))" by auto
  let ?up = "AList.update ch (trie_Add n word) ds"
  have up: "distinct (map fst ?up)" using ds(1) by (rule distinct_update)
  have mem: "(c, m) \<in> set ?up \<longleftrightarrow> (if c = ch then m = trie_Add n word else (c, m) \<in> set ds)" for c m
  proof -
    have "(c, m) \<in> set ?up \<longleftrightarrow> map_of ?up c = Some m" "(c, m) \<in> set ds \<longleftrightarrow> map_of ds c = Some m" using up ds(1) by simp_all
    then show ?thesis by (auto simp: update_conv')
  qed
  have old: "(ch, m) \<in> set ds \<longleftrightarrow> m = n" for m
  proof -
    have "(ch, m) \<in> set ds \<longleftrightarrow> map_of ds ch = Some m" using ds(1) by simp
    then show ?thesis by (auto simp: ds(3))
  qed
  have "children_ok ?up" using ds(2) IH(1) by (auto simp: children_ok_iff mem split: if_splits)
  moreover have "w \<in> set (child_words ?up) \<longleftrightarrow> w = ch # word \<or> w \<in> set (child_words ds)" for w
  proof (cases w)
    case (Cons c w')
    then show ?thesis unfolding child_words_iff mem using IH(2) old by (cases "c = ch") auto
  qed (auto simp: child_words_iff)
  moreover have "trie_Add (Node e cs) (ch # word) = Node e ?up" by (simp add: Let_def ds_def n_def)
  ultimately show ?case using up ds(4) by auto
qed auto

lemma find_node_words:
  "trie_ok t \<Longrightarrow>
   (case find_node t start of
      None \<Rightarrow> \<forall>w. start @ w \<notin> set (words t)
    | Some n \<Rightarrow> trie_ok n \<and> (\<forall>w. w \<in> set (words n) \<longleftrightarrow> start @ w \<in> set (words t)))"
proof (induction t start rule: find_node.induct)
  case (2 t ch start)
  obtain e cs where t: "t = Node e cs" by (cases t)
  have ok: "distinct (map fst cs)" "children_ok cs" using 2(2) by (simp_all add: t)
  have iff: "ch # w \<in> set (words t) \<longleftrightarrow> (\<exists>n. map_of cs ch = Some n \<and> w \<in> set (words n))" for w
    using ok(1) by (auto simp: t child_words_iff)
  show ?case
  proof (cases "map_of cs ch")
    case None
    then show ?thesis using iff by (simp add: t)
  next
    case (Some n)
    then have "trie_ok n" using ok(2) map_of_SomeD [OF Some] by (auto simp: children_ok_iff)
    with 2(1) [of n] Some iff show ?thesis by (simp add: t split: option.splits)
  qed
qed simp

text \<open>
  C30. Completion is exact: for every list of words added to an empty trie, in whatever order and with
  repetitions, the completions of a prefix are exactly the words that begin with it, each
  of them once.
\<close>

theorem completion_exact:
  "set (trie_FindCompletion (foldl trie_Add Trie ws) start) = {w \<in> set ws. prefix start w} \<and>
   distinct (trie_FindCompletion (foldl trie_Add Trie ws) start)"
proof -
  let ?t = "foldl trie_Add Trie ws"
  have "trie_ok (foldl trie_Add t ws) \<and> set (words (foldl trie_Add t ws)) = set (words t) \<union> set ws" if "trie_ok t" for t
    using that words_trie_Add by (induction ws arbitrary: t) auto
  then have ok: "trie_ok ?t" "set (words ?t) = set ws" by (simp_all add: Trie_def)
  show ?thesis
  proof (cases "find_node ?t start")
    case None
    with find_node_words [OF ok(1), of start] ok(2) show ?thesis by (auto simp: trie_FindCompletion_def prefix_def)
  next
    case (Some n)
    with find_node_words [OF ok(1), of start] have n: "trie_ok n" "\<And>w. w \<in> set (words n) \<longleftrightarrow> start @ w \<in> set ws" by (simp_all add: ok(2))
    have "trie_FindCompletion ?t start = map ((@) start) (words n)" using Some by (simp add: trie_FindCompletion_def Collect_words)
    with n distinct_words(1) [OF n(1)] show ?thesis by (auto simp: prefix_def distinct_map inj_on_def)
  qed
qed

subsection \<open>Split\<close>

text \<open>\<open>str.find(delimiter, start)\<close>.\<close>

definition find_from :: "string \<Rightarrow> char \<Rightarrow> nat \<Rightarrow> nat option" where
  "find_from str delimiter start = find (\<lambda>i. str ! i = delimiter) [start..<length str]"

lemma find_from_bounds: "find_from str delimiter start = Some stop \<Longrightarrow> start \<le> stop \<and> stop < length str"
  by (auto simp: find_from_def find_Some_iff)

function split_loop :: "string \<Rightarrow> char \<Rightarrow> nat \<Rightarrow> string list \<Rightarrow> string list" where
  "split_loop str delimiter start result =
     (case find_from str delimiter start of
        None \<Rightarrow> result @ [drop start str]
      | Some stop \<Rightarrow> split_loop str delimiter (Suc stop) (result @ [take (stop - start) (drop start str)]))"
  by pat_completeness auto
termination
  by (relation "measure (\<lambda>(str, delimiter, start, result). length str - start)") (auto dest!: find_from_bounds)

declare split_loop.simps [simp del]

definition Split :: "string \<Rightarrow> char \<Rightarrow> string list" where
  "Split str delimiter = split_loop str delimiter 0 []"

text \<open>The tokens of a line, by recursion on the line.\<close>

fun tokens_of :: "char \<Rightarrow> string \<Rightarrow> string list" where
  "tokens_of d [] = [[]]"
| "tokens_of d (c # cs) = (if c = d then [] # tokens_of d cs else (c # hd (tokens_of d cs)) # tl (tokens_of d cs))"

lemma tokens_of_not_Nil [simp]: "tokens_of d cs \<noteq> []"
  by (cases cs) simp_all

lemma tokens_of_plain: "d \<notin> set cs \<Longrightarrow> tokens_of d cs = [cs]"
  by (induction cs) auto

lemma tokens_of_delimiter: "d \<notin> set cs \<Longrightarrow> tokens_of d (cs @ d # ds) = cs # tokens_of d ds"
  by (induction cs) auto

lemma split_loop_tokens: "start \<le> length str \<Longrightarrow> split_loop str d start result = result @ tokens_of d (drop start str)"
proof (induction str d start result rule: split_loop.induct)
  case (1 str d start result)
  show ?case
  proof (cases "find_from str d start")
    case None
    then have "d \<notin> set (drop start str)"
      by (auto simp: find_from_def find_None_iff in_set_conv_nth)
    with None show ?thesis by (subst split_loop.simps) (simp add: tokens_of_plain)
  next
    case (Some stop)
    then have b: "start \<le> stop" "stop < length str" "str ! stop = d" "\<forall>i. start \<le> i \<and> i < stop \<longrightarrow> str ! i \<noteq> d"
      by (auto simp: find_from_def find_Some_iff) (metis add_diff_cancel_left' le_iff_add less_diff_conv2 add.commute nth_upt less_imp_le_nat le_trans)
    let ?tok = "take (stop - start) (drop start str)"
    have "drop start str = ?tok @ drop (stop - start) (drop start str)" by (simp only: append_take_drop_id)
    also have "drop (stop - start) (drop start str) = d # drop (Suc stop) str" using b Cons_nth_drop_Suc [of stop str] by simp
    finally have "drop start str = ?tok @ d # drop (Suc stop) str" .
    moreover have "d \<notin> set ?tok" using b by (auto simp: in_set_conv_nth)
    ultimately have "tokens_of d (drop start str) = ?tok # tokens_of d (drop (Suc stop) str)" by (metis tokens_of_delimiter)
    with 1(1) [OF Some] b(2) Some show ?thesis by (subst split_loop.simps) simp
  qed
qed

lemma Split_tokens: "Split str d = tokens_of d str"
  by (simp add: Split_def split_loop_tokens)

lemma tokens_of_join: "concat (map (\<lambda>t. t @ [d]) (butlast (tokens_of d cs))) @ last (tokens_of d cs) = cs"
proof (induction cs)
  case (Cons c cs)
  then show ?case by (cases "tokens_of d cs"; cases "tl (tokens_of d cs)") auto
qed simp

lemma tokens_of_no_delimiter: "t \<in> set (tokens_of d cs) \<Longrightarrow> d \<notin> set t"
proof (induction cs arbitrary: t)
  case (Cons c cs)
  then show ?case by (cases "tokens_of d cs") (auto split: if_splits)
qed simp

subsection \<open>Printer\<close>

text \<open>
  What is written to the standard output, line by line. \<open>kLine.size() - header.size()\<close> is computed
  in 64 bits; a string of more than \<open>2\<^sup>6\<^sup>2\<close> characters cannot be allocated, and its constructor throws.
\<close>

definition kLine :: string where
  "kLine = CHR ''+'' # replicate 62 (CHR ''-'') @ ''+''"

definition kSeparator :: char where
  "kSeparator = CHR ''|''"

definition kMaxStringSize :: nat where
  "kMaxStringSize = 2 ^ 62"

definition Printer :: "string \<Rightarrow> string result" where
  "Printer header =
     (let offset = word_of_nat (length kLine) - word_of_nat (length header) :: 64 word;
          n = unat (offset div 2)
      in if n > kMaxStringSize then Inl LengthError
         else Inr (replicate n (CHR '' '') @ header @ replicate n (CHR '' '')))"

definition PrintRow :: "string \<Rightarrow> string \<Rightarrow> string list" where
  "PrintRow key val =
     (let payload_length = 2 + length key + 3 + length val + 1;
          padding = (if payload_length < length kLine then replicate (length kLine - payload_length) (CHR '' '') else '' '')
      in [kLine, kSeparator # '' '' @ key @ '' '' @ [kSeparator] @ '' '' @ val @ padding @ [kSeparator]])"

lemma length_kLine [simp]: "length kLine = 64"
  by (simp add: kLine_def)

lemma header_offset:
  assumes "n < 2 ^ 62"
  shows "unat ((word_of_nat 64 - word_of_nat n :: 64 word) div 2) = (if n \<le> 64 then (64 - n) div 2 else (2 ^ 64 + 64 - n) div 2)"
proof -
  have "unat (word_of_nat n :: 64 word) = n" using assms by (simp add: unat_of_nat)
  then have "unat (word_of_nat 64 - word_of_nat n :: 64 word) = (if n \<le> 64 then 64 - n else 64 + 2 ^ 64 - n)"
    using unat_sub_if' [of "word_of_nat 64 :: 64 word" "word_of_nat n"] by (simp add: unat_of_nat)
  moreover have "unat (2 :: 64 word) = 2" by simp
  ultimately show ?thesis unfolding unat_div by (cases "n \<le> 64") (simp_all only: add.commute if_True if_False)
qed

lemma Printer_short: "length header \<le> 64 \<Longrightarrow>
  Printer header = Inr (let n = (64 - length header) div 2 in replicate n (CHR '' '') @ header @ replicate n (CHR '' ''))"
  using header_offset [of "length header"] by (simp add: Printer_def kMaxStringSize_def Let_def)

lemma Printer_long:
  assumes "64 < length header" "length header < 2 ^ 62"
  shows "Printer header = Inl LengthError"
proof -
  have "2 ^ 62 < (2 ^ 64 + 64 - length header) div 2" using assms by simp
  then show ?thesis using header_offset [OF assms(2)] assms(1) by (simp add: Printer_def kMaxStringSize_def Let_def)
qed

lemma PrintRow_width: "length key + length val < 58 \<Longrightarrow> \<forall>l \<in> set (PrintRow key val). length l = 64"
  by (simp add: PrintRow_def Let_def)



end
