(* ===== verification/Cli.thy ===== *)
theory Cli
  imports Client Service_Calls Cli_Text
begin

section \<open>The command line client\<close>

text \<open>
  \<open>src/src/cli/command\<close> and \<open>src/src/cli/main.cpp\<close>: the commands, how a line is parsed into one and
  how it runs against the client library, and the loop that reads lines. The context of the
  commands is the connection and the id of the transaction in progress. Output is what goes to the
  standard output and the messages on the standard error; the lines that report
  execution times, the history file and the line editor are left out.
\<close>

datatype printed = Cout string | Cerr string | ErrorMessage thrown

datatype command =
    CreateTableCommand string
  | DropTableCommand string
  | BeginCommand
  | CommitCommand
  | RollbackCommand
  | UpsertCommand string string string
  | LookupCommand string string
  | DeleteCommand string string
  | ScanCommand string "string option" "string option"

subsection \<open>Parsing\<close>

text \<open>A factory returns the command, \<open>None\<close> for \<open>nullptr\<close>, or throws.\<close>

type_synonym factory = "string list \<Rightarrow> command option result"

definition CreateTable_TryParse :: factory where
  "CreateTable_TryParse tokens =
     (if 2 \<le> length tokens \<and> tokens ! 0 = ''CREATE'' \<and> tokens ! 1 = ''TABLE''
      then if length tokens \<noteq> 3 then Inl (RuntimeError ''CREATE TABLE command requires exactly one table name.'')
        else Inr (Some (CreateTableCommand (tokens ! 2)))
      else Inr None)"

text \<open>\<open>tokens[1]\<close> is read without a look at the number of tokens.\<close>

definition DropTable_TryParse :: factory where
  "DropTable_TryParse tokens =
     (if tokens \<noteq> [] \<and> tokens ! 0 = ''DROP''
      then if length tokens < 2 then Inl OutOfBounds
        else if tokens ! 1 = ''TABLE''
        then if length tokens \<noteq> 3 then Inl (RuntimeError ''DROP TABLE command requires exactly one table name.'')
          else Inr (Some (DropTableCommand (tokens ! 2)))
        else Inr None
      else Inr None)"

definition Begin_TryParse :: factory where
  "Begin_TryParse tokens =
     (if tokens \<noteq> [] \<and> tokens ! 0 = ''BEGIN''
      then if length tokens \<noteq> 1 then Inl (RuntimeError ''BEGIN command does not require any arguments.'')
        else Inr (Some BeginCommand)
      else Inr None)"

definition Commit_TryParse :: factory where
  "Commit_TryParse tokens =
     (if tokens \<noteq> [] \<and> tokens ! 0 = ''COMMIT''
      then if length tokens \<noteq> 1 then Inl (RuntimeError ''COMMIT command does not require any arguments.'')
        else Inr (Some CommitCommand)
      else Inr None)"

definition Rollback_TryParse :: factory where
  "Rollback_TryParse tokens =
     (if tokens \<noteq> [] \<and> tokens ! 0 = ''ROLLBACK''
      then if length tokens \<noteq> 1 then Inl (RuntimeError ''ROLLBACK command does not require any arguments.'')
        else Inr (Some RollbackCommand)
      else Inr None)"

definition Upsert_TryParse :: factory where
  "Upsert_TryParse tokens =
     (if tokens \<noteq> [] \<and> tokens ! 0 = ''UPSERT''
      then if length tokens \<noteq> 4 then Inl (RuntimeError ''UPSERT command requires exactly three arguments: <table_name> <key> <value>'')
        else Inr (Some (UpsertCommand (tokens ! 1) (tokens ! 2) (tokens ! 3)))
      else Inr None)"

definition Lookup_TryParse :: factory where
  "Lookup_TryParse tokens =
     (if tokens \<noteq> [] \<and> tokens ! 0 = ''LOOKUP''
      then if length tokens \<noteq> 3 then Inl (RuntimeError ''LOOKUP command requires exactly two arguments: <table_name> <key>'')
        else Inr (Some (LookupCommand (tokens ! 1) (tokens ! 2)))
      else Inr None)"

definition Delete_TryParse :: factory where
  "Delete_TryParse tokens =
     (if 3 \<le> length tokens \<and> tokens ! 0 = ''DELETE''
      then if length tokens \<noteq> 3 then Inl (RuntimeError ''DELETE command requires exactly two arguments: <table_name> <key>'')
        else Inr (Some (DeleteCommand (tokens ! 1) (tokens ! 2)))
      else Inr None)"

definition Scan_TryParse :: factory where
  "Scan_TryParse tokens =
     (if tokens \<noteq> [] \<and> tokens ! 0 = ''SCAN''
      then if length tokens = 2 then Inr (Some (ScanCommand (tokens ! 1) None None))
        else if length tokens = 3 then Inr (Some (ScanCommand (tokens ! 1) (Some (tokens ! 2)) None))
        else if length tokens = 4 then Inr (Some (ScanCommand (tokens ! 1) (Some (tokens ! 2)) (Some (tokens ! 3))))
        else Inl (RuntimeError ''SCAN command requires one or two optional arguments: <table_name> [<lower_bound> <upper_bound>]'')
      else Inr None)"

record command_manager =
  cm_completion_trie :: trie
  cm_hints :: "(string \<times> string) list"
  cm_command_factories :: "(string \<times> factory) list"

definition CommandManager :: command_manager where
  "CommandManager = \<lparr>cm_completion_trie = Trie, cm_hints = [], cm_command_factories = []\<rparr>"

definition try_emplace :: "'k \<Rightarrow> 'v \<Rightarrow> ('k \<times> 'v) list \<Rightarrow> ('k \<times> 'v) list" where
  "try_emplace k v m = (case map_of m k of None \<Rightarrow> m @ [(k, v)] | Some _ \<Rightarrow> m)"

definition cm_Add :: "string \<Rightarrow> factory \<Rightarrow> string \<Rightarrow> command_manager \<Rightarrow> command_manager" where
  "cm_Add cmd factory hint m =
     \<lparr>cm_completion_trie = trie_Add (cm_completion_trie m) cmd, cm_hints = try_emplace cmd hint (cm_hints m),
      cm_command_factories = try_emplace cmd factory (cm_command_factories m)\<rparr>"

definition cm_FindCompletion :: "command_manager \<Rightarrow> string \<Rightarrow> string list" where
  "cm_FindCompletion m start = trie_FindCompletion (cm_completion_trie m) start"

definition cm_GetHint :: "command_manager \<Rightarrow> string \<Rightarrow> string" where
  "cm_GetHint m key = (case map_of (cm_hints m) key of Some hint \<Rightarrow> hint | None \<Rightarrow> '''')"

definition cm_ParseCommand :: "command_manager \<Rightarrow> string \<Rightarrow> command result" where
  "cm_ParseCommand m line =
     (let tokens = Split line (CHR '' '')
      in if tokens = [] then Inl (RuntimeError ''Empty command.'')
         else case map_of (cm_command_factories m) (tokens ! 0) of
           None \<Rightarrow> Inl (RuntimeError (''Unknown command: '' @ line))
         | Some factory \<Rightarrow>
             bindE (factory tokens) (\<lambda>c. case c of None \<Rightarrow> Inl (RuntimeError (''Unknown command: '' @ line)) | Some c \<Rightarrow> Inr c))"

definition RegisterCommands :: "command_manager \<Rightarrow> command_manager" where
  "RegisterCommands m =
     fold (\<lambda>(name, factory, hint). cm_Add name factory hint)
       [(''CREATE'', CreateTable_TryParse, '' TABLE <table_name>''),
        (''DROP'', DropTable_TryParse, '' TABLE <table_name>''),
        (''BEGIN'', Begin_TryParse, ''''),
        (''COMMIT'', Commit_TryParse, ''''),
        (''ROLLBACK'', Rollback_TryParse, ''''),
        (''UPSERT'', Upsert_TryParse, '' <table_name> <key> <value>''),
        (''LOOKUP'', Lookup_TryParse, '' <table_name> <key>''),
        (''DELETE'', Delete_TryParse, '' <table_name> <key>''),
        (''SCAN'', Scan_TryParse, '' <table_name> [<lower_bound> <upper_bound>]'')] m"

text \<open>What \<open>main\<close> gives to the line editor: completions, hints, the prompt and the file of the history.\<close>

definition cli_completion :: "command_manager \<Rightarrow> string \<Rightarrow> string list" where
  "cli_completion m buf = cm_FindCompletion m buf"

definition kHintColor :: int where
  "kHintColor = 32"

definition cli_hints :: "command_manager \<Rightarrow> string \<Rightarrow> (string \<times> int) option" where
  "cli_hints m buf = (let hint = cm_GetHint m buf in if hint = [] then None else Some (hint, kHintColor))"

definition kHistoryFile :: string where
  "kHistoryFile = ''.structuredb_cli_history''"

definition GetHistoryFilePath :: "string option \<Rightarrow> string" where
  "GetHistoryFilePath home = (case home of None \<Rightarrow> kHistoryFile | Some h \<Rightarrow> h @ ''/'' @ kHistoryFile)"

definition Read_prompt :: "string option \<Rightarrow> string" where
  "Read_prompt tx = (if tx \<noteq> None then ''structuredb (tx)> '' else ''structuredb> '')"

subsection \<open>Execution\<close>

text \<open>\<open>GetDatabase\<close>: commands run in the transaction in progress, if there is one.\<close>

definition cli_CreateTable :: "'s connection \<Rightarrow> string option \<Rightarrow> string \<Rightarrow> ('s, unit) client" where
  "cli_CreateTable con tx name = (case tx of Some tx \<Rightarrow> ctx_CreateTable con tx name | None \<Rightarrow> adb_CreateTable con name)"

definition cli_DropTable :: "'s connection \<Rightarrow> string option \<Rightarrow> string \<Rightarrow> ('s, unit) client" where
  "cli_DropTable con tx name = (case tx of Some tx \<Rightarrow> ctx_DropTable con tx name | None \<Rightarrow> adb_DropTable con name)"

definition cli_Table :: "string option \<Rightarrow> string \<Rightarrow> table_client" where
  "cli_Table tx name = (case tx of Some tx \<Rightarrow> ctx_Table tx name | None \<Rightarrow> adb_Table name)"

type_synonym 's executed = "((thrown + printed list) \<times> string option \<times> 's) result option"

text \<open>
  A command calls the client and then prints; what it throws is thrown before anything is printed
  or the context changes.
\<close>

definition call_then :: "('s, 'a) client \<Rightarrow> ('a \<Rightarrow> thrown + (printed list \<times> string option)) \<Rightarrow> string option \<Rightarrow> 's \<Rightarrow> 's executed" where
  "call_then m f tx s =
     bindM (m s) (\<lambda>(r, s). Some (Inr (case r of
         Inl e \<Rightarrow> (Inl e, tx, s)
       | Inr x \<Rightarrow> (case f x of Inl e \<Rightarrow> (Inl e, tx, s) | Inr (out, tx') \<Rightarrow> (Inr out, tx', s)))))"

definition print_rows :: "string \<Rightarrow> row list \<Rightarrow> thrown + printed list" where
  "print_rows header rows =
     (case Printer header of
        Inl e \<Rightarrow> Inl (Thrown e)
      | Inr line \<Rightarrow> Inr (map Cout (line # concat (map (\<lambda>r. PrintRow (row_key r) (row_value r)) rows) @ [kLine])))"

definition CreateTable_Execute :: "'s connection \<Rightarrow> string \<Rightarrow> string option \<Rightarrow> 's \<Rightarrow> 's executed" where
  "CreateTable_Execute con name tx = call_then (cli_CreateTable con tx name) (\<lambda>_. Inr ([], tx)) tx"

definition DropTable_Execute :: "'s connection \<Rightarrow> string \<Rightarrow> string option \<Rightarrow> 's \<Rightarrow> 's executed" where
  "DropTable_Execute con name tx = call_then (cli_DropTable con tx name) (\<lambda>_. Inr ([], tx)) tx"

definition Begin_Execute :: "'s connection \<Rightarrow> string option \<Rightarrow> 's \<Rightarrow> 's executed" where
  "Begin_Execute con tx s =
     (case tx of
        Some _ \<Rightarrow> Some (Inr (Inl (Thrown (RuntimeError ''Transaction already in progress. Use COMMIT or ROLLBACK first.'')), tx, s))
      | None \<Rightarrow> call_then (adb_Begin con) (\<lambda>t. Inr ([Cout t], Some t)) tx s)"

definition NoTransaction :: thrown where
  "NoTransaction = Thrown (RuntimeError ''No transaction in progress. Use BEGIN first.'')"

definition Commit_Execute :: "'s connection \<Rightarrow> string option \<Rightarrow> 's \<Rightarrow> 's executed" where
  "Commit_Execute con tx s =
     (case tx of
        None \<Rightarrow> Some (Inr (Inl NoTransaction, tx, s))
      | Some t \<Rightarrow> call_then (ctx_Commit con t) (\<lambda>_. Inr ([Cout t], None)) tx s)"

definition Rollback_Execute :: "'s connection \<Rightarrow> string option \<Rightarrow> 's \<Rightarrow> 's executed" where
  "Rollback_Execute con tx s =
     (case tx of
        None \<Rightarrow> Some (Inr (Inl NoTransaction, tx, s))
      | Some t \<Rightarrow> call_then (ctx_Rollback con t) (\<lambda>_. Inr ([Cout t], None)) tx s)"

definition Upsert_Execute :: "'s connection \<Rightarrow> string \<Rightarrow> string \<Rightarrow> string \<Rightarrow> string option \<Rightarrow> 's \<Rightarrow> 's executed" where
  "Upsert_Execute con name key val tx = call_then (tc_Upsert con (cli_Table tx name) key val) (\<lambda>_. Inr ([], tx)) tx"

definition Lookup_Execute :: "'s connection \<Rightarrow> string \<Rightarrow> string \<Rightarrow> string option \<Rightarrow> 's \<Rightarrow> 's executed" where
  "Lookup_Execute con name key tx =
     call_then (tc_Lookup con (cli_Table tx name) key)
       (\<lambda>val. map_sum id (\<lambda>out. (out, tx)) (print_rows (''Lookup '' @ name)
          (case val of Some v \<Rightarrow> [\<lparr>row_key = key, row_value = v\<rparr>] | None \<Rightarrow> []))) tx"

definition Delete_Execute :: "'s connection \<Rightarrow> string \<Rightarrow> string \<Rightarrow> string option \<Rightarrow> 's \<Rightarrow> 's executed" where
  "Delete_Execute con name key tx =
     call_then (tc_Delete con (cli_Table tx name) key) (\<lambda>_. Inr ([Cerr (''Key '' @ key @ '' was deleted.'')], tx)) tx"

definition Scan_Execute :: "'s connection \<Rightarrow> string \<Rightarrow> string option \<Rightarrow> string option \<Rightarrow> string option \<Rightarrow> 's \<Rightarrow> 's executed" where
  "Scan_Execute con name lower upper tx =
     call_then (tc_Scan con (cli_Table tx name) lower upper)
       (\<lambda>rows. map_sum id (\<lambda>out. (out, tx)) (print_rows (''Scan '' @ name) rows)) tx"

fun Execute :: "'s connection \<Rightarrow> command \<Rightarrow> string option \<Rightarrow> 's \<Rightarrow> 's executed" where
  "Execute con (CreateTableCommand name) = CreateTable_Execute con name"
| "Execute con (DropTableCommand name) = DropTable_Execute con name"
| "Execute con BeginCommand = Begin_Execute con"
| "Execute con CommitCommand = Commit_Execute con"
| "Execute con RollbackCommand = Rollback_Execute con"
| "Execute con (UpsertCommand name key val) = Upsert_Execute con name key val"
| "Execute con (LookupCommand name key) = Lookup_Execute con name key"
| "Execute con (DeleteCommand name key) = Delete_Execute con name key"
| "Execute con (ScanCommand name lower upper) = Scan_Execute con name lower upper"

subsection \<open>The program\<close>

text \<open>A line is parsed and executed; an exception is reported.\<close>

definition run_line :: "command_manager \<Rightarrow> 's connection \<Rightarrow> string \<Rightarrow> string option \<Rightarrow> 's \<Rightarrow> 's executed" where
  "run_line m con line tx s =
     (case cm_ParseCommand m line of
        Inl e \<Rightarrow> if is_exception e then Some (Inr (Inl (Thrown e), tx, s)) else Some (Inl e)
      | Inr command \<Rightarrow> Execute con command tx s)"

text \<open>The lines \<open>linenoise\<close> returns until the input ends; the result is all that was printed.\<close>

fun repl :: "command_manager \<Rightarrow> 's connection \<Rightarrow> string list \<Rightarrow> string option \<Rightarrow> 's \<Rightarrow> (printed list \<times> string option \<times> 's) result option" where
  "repl m con [] tx s = Some (Inr ([Cerr ''Exiting CLI.''], tx, s))"
| "repl m con (line # lines) tx s =
     (if line = [] then repl m con lines tx s
      else if line = ''exit'' \<or> line = ''quit'' then Some (Inr ([Cerr ''Exiting CLI.''], tx, s))
      else bindM (run_line m con line tx s) (\<lambda>(r, tx, s).
           bindM (repl m con lines tx s) (\<lambda>(out, tx, s).
             Some (Inr ((case r of Inl e \<Rightarrow> [ErrorMessage e] | Inr o1 \<Rightarrow> o1) @ out, tx, s)))))"

text \<open>\<open>main\<close> after the flags: the command of the flag \<open>c\<close>, with the exit code, or the loop.\<close>

definition cli_main :: "'s connection \<Rightarrow> string option \<Rightarrow> string list \<Rightarrow> 's \<Rightarrow> (printed list \<times> nat \<times> 's) result option" where
  "cli_main con flag_c lines s =
     (let m = RegisterCommands CommandManager
      in case flag_c of
           Some cmd \<Rightarrow> bindM (run_line m con cmd None s) (\<lambda>(r, tx, s).
             Some (Inr (case r of Inl e \<Rightarrow> ([ErrorMessage e], 1, s) | Inr out \<Rightarrow> (out, 0, s))))
         | None \<Rightarrow> bindM (repl m con lines None s) (\<lambda>(out, tx, s). Some (Inr (out, 0, s))))"

subsection \<open>Lines and commands\<close>

definition join :: "char \<Rightarrow> string list \<Rightarrow> string" where
  "join d ts = concat (map (\<lambda>t. t @ [d]) (butlast ts)) @ last ts"

lemma tokens_of_join_tokens: "ts \<noteq> [] \<Longrightarrow> \<forall>t \<in> set ts. d \<notin> set t \<Longrightarrow> tokens_of d (join d ts) = ts"
proof (induction ts)
  case (Cons t ts)
  then show ?case by (cases ts) (simp_all add: join_def tokens_of_plain tokens_of_delimiter)
qed simp

lemma join_tokens: "tokens_of d line = ts \<longleftrightarrow> line = join d ts \<and> ts \<noteq> [] \<and> (\<forall>t \<in> set ts. d \<notin> set t)"
  using tokens_of_join_tokens [of ts d] tokens_of_join [of d line] tokens_of_no_delimiter [of _ d line]
  by (auto simp: join_def)

text \<open>The words of the line that stands for a command.\<close>

fun command_words :: "command \<Rightarrow> string list" where
  "command_words (CreateTableCommand name) = [''CREATE'', ''TABLE'', name]"
| "command_words (DropTableCommand name) = [''DROP'', ''TABLE'', name]"
| "command_words BeginCommand = [''BEGIN'']"
| "command_words CommitCommand = [''COMMIT'']"
| "command_words RollbackCommand = [''ROLLBACK'']"
| "command_words (UpsertCommand name key val) = [''UPSERT'', name, key, val]"
| "command_words (LookupCommand name key) = [''LOOKUP'', name, key]"
| "command_words (DeleteCommand name key) = [''DELETE'', name, key]"
| "command_words (ScanCommand name lower upper) =
     [''SCAN'', name] @ (case lower of None \<Rightarrow> [] | Some l \<Rightarrow> [l]) @ (case upper of None \<Rightarrow> [] | Some u \<Rightarrow> [u])"

definition command_line :: "command \<Rightarrow> string" where
  "command_line c = join (CHR '' '') (command_words c)"

fun writable :: "command \<Rightarrow> bool" where
  "writable (ScanCommand name None (Some upper)) = False"
| "writable c = (\<forall>w \<in> set (command_words c). CHR '' '' \<notin> set w)"

definition cli_manager :: command_manager where
  "cli_manager = RegisterCommands CommandManager"

lemma cli_factories [simp]: "cm_command_factories cli_manager =
  [(''CREATE'', CreateTable_TryParse), (''DROP'', DropTable_TryParse), (''BEGIN'', Begin_TryParse), (''COMMIT'', Commit_TryParse),
   (''ROLLBACK'', Rollback_TryParse), (''UPSERT'', Upsert_TryParse), (''LOOKUP'', Lookup_TryParse), (''DELETE'', Delete_TryParse),
   (''SCAN'', Scan_TryParse)]"
  by (simp add: cli_manager_def RegisterCommands_def CommandManager_def cm_Add_def try_emplace_def)

lemma cli_line_editor:
  "set (cli_completion cli_manager ''C'') = {''COMMIT'', ''CREATE''}"
  "cli_hints cli_manager ''LOOKUP'' = Some ('' <table_name> <key>'', 32)" "cli_hints cli_manager ''BEGIN'' = None"
  by code_simp+

lemmas try_parse_defs = CreateTable_TryParse_def DropTable_TryParse_def Begin_TryParse_def Commit_TryParse_def Rollback_TryParse_def
  Upsert_TryParse_def Lookup_TryParse_def Delete_TryParse_def Scan_TryParse_def

definition parsed :: "string list \<Rightarrow> command result" where
  "parsed ts = (case map_of (cm_command_factories cli_manager) (ts ! 0) of
     None \<Rightarrow> Inl (RuntimeError [])
   | Some factory \<Rightarrow> bindE (factory ts) (\<lambda>c. case c of None \<Rightarrow> Inl (RuntimeError []) | Some c \<Rightarrow> Inr c))"

lemma ParseCommand_parsed: "cm_ParseCommand cli_manager line = Inr c \<longleftrightarrow> parsed (tokens_of (CHR '' '') line) = Inr c"
  by (cases "map_of (cm_command_factories cli_manager) (tokens_of (CHR '' '') line ! 0)")
    (auto simp: cm_ParseCommand_def parsed_def Split_tokens Let_def bindE_def simp del: cli_factories split: sum.splits option.splits)

lemma parsed_words: "parsed ts = Inr c \<Longrightarrow> ts = command_words c"
  by (cases ts rule: list.exhaust; cases "tl ts"; cases "tl (tl ts)"; cases "tl (tl (tl ts))"; cases "tl (tl (tl (tl ts)))")
    (auto simp: parsed_def try_parse_defs split: if_splits)

lemma parsed_scan: "parsed ts \<noteq> Inr (ScanCommand name None (Some upper))"
  by (auto simp: parsed_def try_parse_defs split: if_splits)

lemma parsed_command: "writable c \<Longrightarrow> parsed (command_words c) = Inr c"
  by (cases c rule: writable.cases) (auto simp: parsed_def try_parse_defs split: option.splits)

lemma writable_words: "writable c \<Longrightarrow> \<forall>w \<in> set (command_words c). CHR '' '' \<notin> set w"
  by (cases c rule: writable.cases) auto

lemma words_writable: "\<forall>w \<in> set (command_words c). CHR '' '' \<notin> set w \<Longrightarrow> (\<And>name upper. c \<noteq> ScanCommand name None (Some upper)) \<Longrightarrow> writable c"
  by (cases c rule: writable.cases) auto

lemma command_words_not_Nil [simp]: "command_words c \<noteq> []"
  by (cases c) auto

lemma ParseCommand_iff: "cm_ParseCommand cli_manager line = Inr c \<longleftrightarrow> writable c \<and> line = command_line c"
proof
  assume "cm_ParseCommand cli_manager line = Inr c"
  then have p: "parsed (tokens_of (CHR '' '') line) = Inr c" by (simp add: ParseCommand_parsed)
  with parsed_words [OF p] show "writable c \<and> line = command_line c"
    using parsed_scan join_tokens [of "CHR '' ''" line "command_words c"] words_writable [of c] by (auto simp: command_line_def)
next
  assume "writable c \<and> line = command_line c"
  then show "cm_ParseCommand cli_manager line = Inr c"
    using tokens_of_join_tokens [OF command_words_not_Nil writable_words [of c]]
    by (simp add: ParseCommand_parsed parsed_command command_line_def)
qed

lemma ParseCommand_reads_past: "cm_ParseCommand cli_manager line = Inl OutOfBounds \<longleftrightarrow> line = ''DROP''"
proof
  assume "cm_ParseCommand cli_manager line = Inl OutOfBounds"
  then have "tokens_of (CHR '' '') line = [''DROP'']"
    by (cases "tokens_of (CHR '' '') line"; cases "tl (tokens_of (CHR '' '') line)")
      (auto simp: cm_ParseCommand_def Split_tokens Let_def try_parse_defs bindE_def split: if_splits option.splits sum.splits)
  then show "line = ''DROP''" by (simp add: join_tokens join_def)
qed (simp add: cm_ParseCommand_def Split_tokens try_parse_defs)

text \<open>
  C27. Command lines are read exactly: with the commands the program registers, a line parses into a
  command if and only if it is that command's line, its words separated by one blank each and none of
  them with a blank inside; every other line is rejected by an exception, except the line
  \<open>DROP\<close> alone, on which the parser reads past the tokens.
\<close>

theorem command_lines_exact:
  "(cm_ParseCommand (RegisterCommands CommandManager) line = Inr c \<longleftrightarrow> writable c \<and> line = command_line c) \<and>
   (cm_ParseCommand (RegisterCommands CommandManager) line = Inl e \<and> \<not> is_exception e \<longleftrightarrow> e = OutOfBounds \<and> line = ''DROP'')"
proof -
  have "e = OutOfBounds" if "cm_ParseCommand cli_manager line = Inl e" "\<not> is_exception e"
    using that by (auto simp: cm_ParseCommand_def Let_def try_parse_defs bindE_def is_exception_def split: if_splits option.splits sum.splits)
  then show ?thesis
    using ParseCommand_iff [of line c] ParseCommand_reads_past [of line] by (auto simp flip: cli_manager_def simp: is_exception_def)
qed

subsection \<open>From the prompt to the files\<close>

lemma run_command: "writable c \<Longrightarrow> line = command_line c \<Longrightarrow> run_line cli_manager con line = Execute con c"
  by (auto simp: run_line_def fun_eq_iff ParseCommand_iff [THEN iffD2])

lemma command_line_not_exit: "command_line c \<noteq> []" "command_line c \<noteq> ''exit''" "command_line c \<noteq> ''quit''"
  by (cases c; auto simp: command_line_def join_def split: option.splits)+

lemma repl_command: "writable c \<Longrightarrow> Execute con c tx s = Some (Inr (r, tx', s')) \<Longrightarrow>
  repl cli_manager con (command_line c # lines) tx s =
    bindM (repl cli_manager con lines tx' s') (\<lambda>(out, tx, s). Some (Inr ((case r of Inl e \<Rightarrow> [ErrorMessage e] | Inr o1 \<Rightarrow> o1) @ out, tx, s)))"
  by (simp add: run_command command_line_not_exit)



end
