(* ===== verification/Server_Start.thy ===== *)
theory Server_Start
  imports Database_Recovery
begin

section \<open>Configuration and start of the server\<close>

text \<open>
  \<open>src/src/server/cfg\<close> and \<open>src/src/server/main.cpp\<close>: the configuration file and what the program
  builds from it. The library that reads YAML and the one that logs are parameters: \<open>yaml\<close> has the
  subscript of a node, \<open>None\<close> where the key is not defined, and its conversions, all of which may throw;
  \<open>spdlog\<close> has the two levels the code names and the one that reads a level. Opening the log
  file and the listening port are taken to succeed.
\<close>

record 'n yaml =
  y_get :: "'n \<Rightarrow> string \<Rightarrow> 'n option result"
  y_string :: "'n \<Rightarrow> string result"
  y_bool :: "'n \<Rightarrow> bool result"
  y_int :: "'n \<Rightarrow> int result"
  y_size :: "'n \<Rightarrow> nat result"
  y_int64 :: "'n \<Rightarrow> int result"

record 'l spdlog =
  lv_info :: 'l
  lv_off :: 'l
  lv_from_str :: "string \<Rightarrow> 'l"

subsection \<open>Config\<close>

record 'l cfg_logger =
  lg_level :: 'l
  lg_console :: bool
  lg_file :: "string option"

record cfg_wal_clean = wc_interval :: int

record cfg_wal = wal_clean :: cfg_wal_clean

record cfg_compaction = cp_interval :: int

record cfg_flush = fl_interval :: int

record cfg_lsm =
  cl_max_records_in_mem_table :: nat
  cl_max_ro_mem_tables :: nat
  cl_page_size :: int
  cl_page_cache_capacity :: nat

datatype replication_role = kLeader | kFollower

record cfg_replication =
  rp_role :: replication_role
  rp_leader_address :: string
  rp_poll_interval :: int

record 'l config =
  cfg_port :: int
  cfg_root :: string
  cfg_logger :: "'l cfg_logger"
  cfg_compaction :: cfg_compaction
  cfg_flush :: cfg_flush
  cfg_wal :: cfg_wal
  cfg_lsm :: cfg_lsm
  cfg_replication :: cfg_replication

definition kDefaultPort :: int where
  "kDefaultPort = 50051"

definition Logger_Config :: "'l spdlog \<Rightarrow> 'l cfg_logger" where
  "Logger_Config lv = \<lparr>lg_level = lv_info lv, lg_console = False, lg_file = None\<rparr>"

definition WalClean_Config :: cfg_wal_clean where
  "WalClean_Config = \<lparr>wc_interval = 60000\<rparr>"

definition Wal_Config :: cfg_wal where
  "Wal_Config = \<lparr>wal_clean = WalClean_Config\<rparr>"

definition Compaction_Config :: cfg_compaction where
  "Compaction_Config = \<lparr>cp_interval = 60000\<rparr>"

definition Flush_Config :: cfg_flush where
  "Flush_Config = \<lparr>fl_interval = 1000\<rparr>"

definition Lsm_Config :: cfg_lsm where
  "Lsm_Config = \<lparr>cl_max_records_in_mem_table = 10000, cl_max_ro_mem_tables = 1, cl_page_size = 4096, cl_page_cache_capacity = 1024\<rparr>"

definition Replication_Config :: cfg_replication where
  "Replication_Config = \<lparr>rp_role = kLeader, rp_leader_address = [], rp_poll_interval = 200\<rparr>"

definition Config :: "'l spdlog \<Rightarrow> 'l config" where
  "Config lv =
     \<lparr>cfg_port = kDefaultPort, cfg_root = ''/tmp/structuredb'', cfg_logger = Logger_Config lv, cfg_compaction = Compaction_Config,
      cfg_flush = Flush_Config, cfg_wal = Wal_Config, cfg_lsm = Lsm_Config, cfg_replication = Replication_Config\<rparr>"

subsection \<open>Parse\<close>

text \<open>\<open>if (node[key]) { result.field = ...; }\<close>\<close>

definition set_if :: "'n yaml \<Rightarrow> 'n \<Rightarrow> string \<Rightarrow> ('n \<Rightarrow> 'a result) \<Rightarrow> ('a \<Rightarrow> 'c \<Rightarrow> 'c) \<Rightarrow> 'c \<Rightarrow> 'c result" where
  "set_if y node key conv upd result =
     bindE (y_get y node key) (\<lambda>child.
       case child of None \<Rightarrow> Inr result | Some n \<Rightarrow> bindE (conv n) (\<lambda>v. Inr (upd v result)))"

definition parse_level :: "'n yaml \<Rightarrow> 'l spdlog \<Rightarrow> 'n \<Rightarrow> 'l result" where
  "parse_level y lv node =
     bindE (y_string y node) (\<lambda>str_lvl.
       if lv_from_str lv str_lvl = lv_off lv then Inl (RuntimeError (''Invalid log level value: '' @ str_lvl))
       else Inr (lv_from_str lv str_lvl))"

definition ParseLogger :: "'n yaml \<Rightarrow> 'l spdlog \<Rightarrow> 'n \<Rightarrow> 'l cfg_logger result" where
  "ParseLogger y lv node =
     bindE (set_if y node ''level'' (parse_level y lv) (\<lambda>v r. r\<lparr>lg_level := v\<rparr>) (Logger_Config lv)) (\<lambda>result.
     bindE (set_if y node ''console'' (y_bool y) (\<lambda>v r. r\<lparr>lg_console := v\<rparr>) result) (\<lambda>result.
     set_if y node ''file'' (y_string y) (\<lambda>v r. r\<lparr>lg_file := Some v\<rparr>) result))"

definition ParseCompaction :: "'n yaml \<Rightarrow> 'n \<Rightarrow> cfg_compaction result" where
  "ParseCompaction y node = set_if y node ''interval'' (y_int y) (\<lambda>v r. r\<lparr>cp_interval := v\<rparr>) Compaction_Config"

definition ParseFlush :: "'n yaml \<Rightarrow> 'n \<Rightarrow> cfg_flush result" where
  "ParseFlush y node = set_if y node ''interval'' (y_int y) (\<lambda>v r. r\<lparr>fl_interval := v\<rparr>) Flush_Config"

definition ParseWalClean :: "'n yaml \<Rightarrow> 'n \<Rightarrow> cfg_wal_clean result" where
  "ParseWalClean y node = set_if y node ''interval'' (y_int y) (\<lambda>v r. r\<lparr>wc_interval := v\<rparr>) WalClean_Config"

definition ParseWal :: "'n yaml \<Rightarrow> 'n \<Rightarrow> cfg_wal result" where
  "ParseWal y node = set_if y node ''clean'' (ParseWalClean y) (\<lambda>v r. r\<lparr>wal_clean := v\<rparr>) Wal_Config"

definition ParseLsm :: "'n yaml \<Rightarrow> 'n \<Rightarrow> cfg_lsm result" where
  "ParseLsm y node =
     bindE (set_if y node ''max_records_in_mem_table'' (y_size y) (\<lambda>v r. r\<lparr>cl_max_records_in_mem_table := v\<rparr>) Lsm_Config) (\<lambda>result.
     bindE (set_if y node ''max_ro_mem_tables'' (y_size y) (\<lambda>v r. r\<lparr>cl_max_ro_mem_tables := v\<rparr>) result) (\<lambda>result.
     bindE (set_if y node ''page_size'' (y_int64 y) (\<lambda>v r. r\<lparr>cl_page_size := v\<rparr>) result) (\<lambda>result.
     set_if y node ''page_cache_capacity'' (y_size y) (\<lambda>v r. r\<lparr>cl_page_cache_capacity := v\<rparr>) result)))"

definition parse_role :: "'n yaml \<Rightarrow> 'n \<Rightarrow> replication_role result" where
  "parse_role y node =
     bindE (y_string y node) (\<lambda>role.
       if role = ''leader'' then Inr kLeader
       else if role = ''follower'' then Inr kFollower
       else Inl (RuntimeError (''Invalid replication role: '' @ role)))"

definition ParseReplication :: "'n yaml \<Rightarrow> 'n \<Rightarrow> cfg_replication result" where
  "ParseReplication y node =
     bindE (set_if y node ''role'' (parse_role y) (\<lambda>v r. r\<lparr>rp_role := v\<rparr>) Replication_Config) (\<lambda>result.
     bindE (set_if y node ''leader_address'' (y_string y) (\<lambda>v r. r\<lparr>rp_leader_address := v\<rparr>) result) (\<lambda>result.
     bindE (set_if y node ''poll_interval'' (y_int y) (\<lambda>v r. r\<lparr>rp_poll_interval := v\<rparr>) result) (\<lambda>result.
       if rp_role result = kFollower \<and> rp_leader_address result = []
       then Inl (RuntimeError ''replication.leader_address is required when role is follower'')
       else Inr result)))"

text \<open>\<open>file\<close> is what \<open>YAML::LoadFile\<close> returns.\<close>

definition cfg_Parse :: "'n yaml \<Rightarrow> 'l spdlog \<Rightarrow> 'n result \<Rightarrow> 'l config result" where
  "cfg_Parse y lv file =
     bindE file (\<lambda>yaml.
     bindE (set_if y yaml ''root'' (y_string y) (\<lambda>v r. r\<lparr>cfg_root := v\<rparr>) (Config lv)) (\<lambda>result.
     bindE (set_if y yaml ''logger'' (ParseLogger y lv) (\<lambda>v r. r\<lparr>cfg_logger := v\<rparr>) result) (\<lambda>result.
     bindE (set_if y yaml ''port'' (y_int y) (\<lambda>v r. r\<lparr>cfg_port := v\<rparr>) result) (\<lambda>result.
     bindE (set_if y yaml ''compaction'' (ParseCompaction y) (\<lambda>v r. r\<lparr>cfg_compaction := v\<rparr>) result) (\<lambda>result.
     bindE (set_if y yaml ''flush'' (ParseFlush y) (\<lambda>v r. r\<lparr>cfg_flush := v\<rparr>) result) (\<lambda>result.
     bindE (set_if y yaml ''wal'' (ParseWal y) (\<lambda>v r. r\<lparr>cfg_wal := v\<rparr>) result) (\<lambda>result.
     bindE (set_if y yaml ''lsm'' (ParseLsm y) (\<lambda>v r. r\<lparr>cfg_lsm := v\<rparr>) result) (\<lambda>result.
     set_if y yaml ''replication'' (ParseReplication y) (\<lambda>v r. r\<lparr>cfg_replication := v\<rparr>) result))))))))"

subsection \<open>main\<close>

datatype sink = ConsoleSink | FileSink string

definition InitLogs :: "'l spdlog \<Rightarrow> 'l config \<Rightarrow> 'l \<times> sink list" where
  "InitLogs lv config =
     (let sinks = (if lg_console (cfg_logger config) then [ConsoleSink] else []) @
                  (case lg_file (cfg_logger config) of Some path \<Rightarrow> [FileSink path] | None \<Rightarrow> [])
      in if sinks = [] then (lv_off lv, []) else (lg_level (cfg_logger config), sinks))"

text \<open>What runs after the start: the jobs with their intervals, and the parts of replication.\<close>

datatype job = CompactionJob int | FlushJob int | WalCleanerJob string int

record 'l server =
  srv_log :: "'l \<times> sink list"
  srv_host :: string
  srv_database :: database
  srv_read_only :: bool
  srv_replication_service :: "(string \<times> int) option"
  srv_jobs :: "job list"
  srv_follower :: "(string \<times> string) option"

definition options_of :: "'l config \<Rightarrow> lsm_options" where
  "options_of config =
     \<lparr>max_records_in_mem_table = cl_max_records_in_mem_table (cfg_lsm config), max_ro_mem_tables = cl_max_ro_mem_tables (cfg_lsm config),
      page_size = cl_page_size (cfg_lsm config), page_cache_capacity = cl_page_cache_capacity (cfg_lsm config)\<rparr>"

text \<open>\<open>Init\<close>: an exception while the database opens ends the program with the exit code.\<close>

definition srv_Init :: "database \<Rightarrow> (nat + database) result" where
  "srv_Init db =
     (case db_Init db of
        Inl e \<Rightarrow> if is_exception e then Inr (Inl 1) else Inl e
      | Inr db \<Rightarrow> Inr (Inr db))"

definition server_main :: "'n yaml \<Rightarrow> 'l spdlog \<Rightarrow> 'n result \<Rightarrow> disk \<Rightarrow> string list \<Rightarrow> (nat + 'l server) result" where
  "server_main y lv file d dirs =
     bindE (cfg_Parse y lv file) (\<lambda>config.
     bindE (srv_Init (Database d dirs (cfg_root config) (options_of config))) (\<lambda>r.
       let role = rp_role (cfg_replication config); wal_dir = cfg_root config @ ''/wal''
       in Inr (map_sum id (\<lambda>db.
         \<lparr>srv_log = InitLogs lv config,
          srv_host = ''0.0.0.0:'' @ tx_ToString (cfg_port config),
          srv_database = db,
          srv_read_only = (role = kFollower),
          srv_replication_service = (if role = kLeader then Some (wal_dir, rp_poll_interval (cfg_replication config)) else None),
          srv_jobs = [CompactionJob (cp_interval (cfg_compaction config)), FlushJob (fl_interval (cfg_flush config)),
                      WalCleanerJob wal_dir (wc_interval (wal_clean (cfg_wal config)))],
          srv_follower = (if role = kFollower then Some (rp_leader_address (cfg_replication config), wal_dir) else None)\<rparr>) r)))"

subsection \<open>What a configuration gives\<close>

definition role_ok :: "cfg_replication \<Rightarrow> bool" where
  "role_ok r \<longleftrightarrow> (rp_role r = kFollower \<longrightarrow> rp_leader_address r \<noteq> [])"

lemma set_if_keeps:
  assumes "set_if y node key conv upd result = Inr result'" "P result" "\<And>n v. conv n = Inr v \<Longrightarrow> P (upd v result)"
  shows "P result'"
  using assms by (auto simp: set_if_def bindE_def split: sum.splits option.splits)

lemma ParseReplication_ok: "ParseReplication y node = Inr r \<Longrightarrow> role_ok r"
  by (auto simp: ParseReplication_def bindE_def role_ok_def split: sum.splits if_splits)

lemma cfg_Parse_role_ok:
  assumes "cfg_Parse y lv file = Inr c"
  shows "role_ok (cfg_replication c)"
proof -
  let ?P = "\<lambda>c. role_ok (cfg_replication c)"
  have start: "?P (Config lv)" by (simp add: role_ok_def Config_def Replication_Config_def)
  from assms obtain yaml c1 c2 c3 c4 c5 c6 c7 where steps:
    "set_if y yaml ''root'' (y_string y) (\<lambda>v r. r\<lparr>cfg_root := v\<rparr>) (Config lv) = Inr c1"
    "set_if y yaml ''logger'' (ParseLogger y lv) (\<lambda>v r. r\<lparr>cfg_logger := v\<rparr>) c1 = Inr c2"
    "set_if y yaml ''port'' (y_int y) (\<lambda>v r. r\<lparr>cfg_port := v\<rparr>) c2 = Inr c3"
    "set_if y yaml ''compaction'' (ParseCompaction y) (\<lambda>v r. r\<lparr>cfg_compaction := v\<rparr>) c3 = Inr c4"
    "set_if y yaml ''flush'' (ParseFlush y) (\<lambda>v r. r\<lparr>cfg_flush := v\<rparr>) c4 = Inr c5"
    "set_if y yaml ''wal'' (ParseWal y) (\<lambda>v r. r\<lparr>cfg_wal := v\<rparr>) c5 = Inr c6"
    "set_if y yaml ''lsm'' (ParseLsm y) (\<lambda>v r. r\<lparr>cfg_lsm := v\<rparr>) c6 = Inr c7"
    "set_if y yaml ''replication'' (ParseReplication y) (\<lambda>v r. r\<lparr>cfg_replication := v\<rparr>) c7 = Inr c"
    by (auto simp: cfg_Parse_def bindE_def split: sum.splits)
  note keep = set_if_keeps [of _ _ _ _ _ _ _ ?P]
  from keep [OF steps(1)] start have "?P c1" by simp
  with keep [OF steps(2)] have "?P c2" by simp
  with keep [OF steps(3)] have "?P c3" by simp
  with keep [OF steps(4)] have "?P c4" by simp
  with keep [OF steps(5)] have "?P c5" by simp
  with keep [OF steps(6)] have "?P c6" by simp
  with keep [OF steps(7)] have "?P c7" by simp
  from keep [OF steps(8) this] ParseReplication_ok [of y] show ?thesis by simp
qed

text \<open>
  C28. A configured server has one role: whatever configuration file parses, if the sizes it gives fit, the
  program starts on an empty directory with a database that satisfies the invariant; as a leader it
  accepts writes, serves the log of that directory to followers and follows nobody, as a
  follower it is read-only, serves no log and follows an address that is not empty, mirroring into that log.
\<close>

theorem configured_server_has_one_role:
  assumes "cfg_Parse y lv file = Inr config" and "good_options (options_of config)"
  shows "\<exists>srv. server_main y lv file [] [] = Inr (Inr srv) \<and> db_inv crc (srv_database srv) [(kSysTables, (1, []))] [] \<and>
    (case rp_role (cfg_replication config) of
       kLeader \<Rightarrow> \<not> srv_read_only srv \<and> srv_follower srv = None \<and>
         srv_replication_service srv = Some (cfg_root config @ ''/wal'', rp_poll_interval (cfg_replication config))
     | kFollower \<Rightarrow> srv_read_only srv \<and> srv_replication_service srv = None \<and>
         (\<exists>address. address \<noteq> [] \<and> srv_follower srv = Some (address, cfg_root config @ ''/wal'')))"
proof -
  from db_inv_Init [OF assms(2)] obtain db where "db_Init (Database [] [] (cfg_root config) (options_of config)) = Inr db"
    and inv: "db_inv crc db [(kSysTables, (1, []))] []" by metis
  then have "srv_Init (Database [] [] (cfg_root config) (options_of config)) = Inr (Inr db)" by (simp add: srv_Init_def)
  with assms(1) inv cfg_Parse_role_ok [OF assms(1)] show ?thesis
    by (auto simp: server_main_def role_ok_def Let_def split: replication_role.splits)
qed

text \<open>A configuration file of three entries, as a graph of named nodes.\<close>

definition sample_yaml :: "string yaml" where
  "sample_yaml =
     \<lparr>y_get = (\<lambda>n k. Inr (map_of [(('''', ''replication''), ''r''), ((''r'', ''role''), ''follower''), ((''r'', ''leader_address''), ''h:1'')] (n, k))),
      y_string = Inr, y_bool = (\<lambda>_. Inl (RuntimeError ''bad conversion'')), y_int = (\<lambda>_. Inl (RuntimeError ''bad conversion'')),
      y_size = (\<lambda>_. Inl (RuntimeError ''bad conversion'')), y_int64 = (\<lambda>_. Inl (RuntimeError ''bad conversion''))\<rparr>"

theorem configured_server_has_one_role_witness:
  "\<exists>srv. server_main sample_yaml \<lparr>lv_info = 2, lv_off = 6, lv_from_str = (\<lambda>_. 6 :: nat)\<rparr> (Inr '''') [] [] = Inr (Inr srv) \<and>
    srv_read_only srv \<and> srv_replication_service srv = None \<and> (\<exists>address. address \<noteq> [] \<and> srv_follower srv = Some (address, ''/tmp/structuredb/wal''))"
proof -
  let ?lv = "\<lparr>lv_info = 2, lv_off = 6, lv_from_str = (\<lambda>_. 6 :: nat)\<rparr>"
  let ?c = "(Config ?lv)\<lparr>cfg_replication := \<lparr>rp_role = kFollower, rp_leader_address = ''h:1'', rp_poll_interval = 200\<rparr>\<rparr>"
  have p: "cfg_Parse sample_yaml ?lv (Inr '''') = Inr ?c"
    by (simp add: cfg_Parse_def set_if_def sample_yaml_def ParseReplication_def parse_role_def Replication_Config_def)
  have "good_options (options_of ?c)"
    by (simp add: options_of_def Config_def Lsm_Config_def good_options_def good_page_size_def file_fits_def)
  from configured_server_has_one_role [OF p this, of "\<lambda>_. 0"] show ?thesis by (auto simp: Config_def)
qed

end
