(* ===== verification/Sdb_Viewer.thy ===== *)
theory Sdb_Viewer
  imports SSTable "HOL-Library.Sublist"
begin

section \<open>The viewer of table files\<close>

text \<open>
  \<open>src/src/sdb_viewer/main.cpp\<close>: a program that prints the headers and the records of a table file,
  reading it with \<open>std::ifstream\<close> and the readers of the server. What it prints is kept as the values
  it shows, one per line; an exception nobody catches ends the program.
\<close>

datatype shown =
    Message string
  | ShowTable ss_table_header
  | ShowPage int page_header
  | ShowRecord int lsm_record

text \<open>
  \<open>std::ifstream\<close>: a read that meets the end of the file takes what there is and sets the flag; from then on
  reads take nothing. The buffer was filled with zeros when it was made.
\<close>

record ifstream =
  ifs_rest :: bytes
  ifs_eof :: bool

definition ifs_read :: "ifstream \<Rightarrow> nat \<Rightarrow> bytes \<times> ifstream" where
  "ifs_read file n =
     (let data = (if ifs_eof file then [] else take n (ifs_rest file))
      in (data @ replicate (n - length data) (CHR 0x00),
          \<lparr>ifs_rest = drop (length data) (ifs_rest file), ifs_eof = (length data < n)\<rparr>))"

definition ReadTableHeader :: "ifstream \<Rightarrow> (ss_table_header \<times> ifstream) result" where
  "ReadTableHeader file =
     (let (buffer, file) = ifs_read file SSTableHeader_SdbSize
      in bindE (SSTableHeader_Read (BufferReader buffer)) (\<lambda>(table_header, reader). Inr (table_header, file)))"

text \<open>The loops, by the number of rounds left: \<open>page_header.count - j\<close> and \<open>table_header.page_count - i\<close>.\<close>

fun view_records :: "nat \<Rightarrow> int \<Rightarrow> buffer_reader \<Rightarrow> shown list result" where
  "view_records 0 j page_reader = Inr []"
| "view_records (Suc n) j page_reader =
     bindE (record_Read page_reader) (\<lambda>(r, page_reader).
     bindE (view_records n (j + 1) page_reader) (\<lambda>out. Inr (ShowRecord j r # out)))"

fun view_pages :: "nat \<Rightarrow> int \<Rightarrow> int \<Rightarrow> ifstream \<Rightarrow> shown list result" where
  "view_pages 0 i psize file = Inr []"
| "view_pages (Suc n) i psize file =
     (if ifs_eof file then Inr []
      else if psize < 0 then Inl LengthError
      else let (page_buffer, file) = ifs_read file (nat psize)
           in bindE (PageHeader_Read (BufferReader page_buffer)) (\<lambda>(page_header, page_reader).
              bindE (view_records (nat (ph_count page_header)) 0 page_reader) (\<lambda>records.
              bindE (view_pages n (i + 1) psize file) (\<lambda>out. Inr (ShowPage i page_header # records @ out)))))"

text \<open>What \<open>main\<close> prints, and its exit code.\<close>

definition viewer_main :: "disk \<Rightarrow> string \<Rightarrow> (shown list \<times> nat) result" where
  "viewer_main d file_path =
     (if \<not> suffix ''.sst.sdb'' file_path then Inr ([Message ''For now only .sst.sdb files are allowed''], 1)
      else case map_of d file_path of
        None \<Rightarrow> Inr ([Message (''Going to read file: '' @ file_path), Message (''Failed to open file: '' @ file_path)], 1)
      | Some content \<Rightarrow>
          bindE (ReadTableHeader \<lparr>ifs_rest = content, ifs_eof = False\<rparr>) (\<lambda>(table_header, file).
          bindE (view_pages (nat (sh_page_count table_header)) 0 (sh_page_size table_header) file) (\<lambda>out.
            Inr (Message (''Going to read file: '' @ file_path) # ShowTable table_header # out, 0))))"

subsection \<open>What the viewer shows of a table\<close>

fun records_shown :: "shown list \<Rightarrow> lsm_record list" where
  "records_shown [] = []"
| "records_shown (ShowRecord j r # out) = r # records_shown out"
| "records_shown (s # out) = records_shown out"

lemma records_shown_append [simp]: "records_shown (out @ out') = records_shown out @ records_shown out'"
  by (induction out rule: records_shown.induct) auto

lemma ifs_read_exact: "ifs_read \<lparr>ifs_rest = bs @ rest, ifs_eof = False\<rparr> (length bs) = (bs, \<lparr>ifs_rest = rest, ifs_eof = False\<rparr>)"
  by (simp add: ifs_read_def)

lemma view_records_rest:
  "br_rest rd = records_bytes rs @ rest \<Longrightarrow> list_all valid_record rs \<Longrightarrow>
   \<exists>out. view_records (length rs) j rd = Inr out \<and> records_shown out = rs"
proof (induction rs arbitrary: rd j)
  case (Cons r rs)
  then have read: "record_Read rd = Inr (r, br_advance (length (record_bytes r)) rd)"
    by (intro record_codec.get_enc [where rest = "records_bytes rs @ rest"]) auto
  from Cons.prems Cons.IH [of "br_advance (length (record_bytes r)) rd" "j + 1"] obtain out where
    "view_records (length rs) (j + 1) (br_advance (length (record_bytes r)) rd) = Inr out" "records_shown out = rs" by auto
  with read show ?case by simp
qed simp

lemma view_pages_image:
  assumes good: "good_page_size psize"
  shows "list_all (\<lambda>p. p \<noteq> [] \<and> page_fits psize p) pages \<Longrightarrow>
    \<exists>out. view_pages (length pages) i psize \<lparr>ifs_rest = concat (map (page_image crc psize) pages), ifs_eof = False\<rparr> = Inr out \<and>
      records_shown out = concat pages"
proof (induction pages arbitrary: i)
  case (Cons p pages)
  let ?payload = "records_bytes p @ page_padding psize p"
  let ?h = "\<lparr>ph_count = int (length p), ph_checksum = sint (crc ?payload)\<rparr>" let ?rd = "BufferReader (page_image crc psize p)"
  have fits: "page_fits psize p" using Cons.prems by simp
  have img: "page_image crc psize p = page_header_bytes ?h @ ?payload" by (simp add: page_image_def Let_def)
  have len: "length (page_image crc psize p) = nat psize" by (rule length_page_image_fits [OF good fits])
  have "length p < 2 ^ 63" using fits good length_le_records_bytes [of p] by (auto simp: page_fits_def good_page_size_def)
  then have head: "PageHeader_Read ?rd = Inr (?h, br_advance 16 ?rd)"
    using page_header_codec.get_enc [of ?h ?rd ?payload] is_int64_sint32 [of "crc ?payload"] by (simp add: img)
  obtain o1 where recs: "view_records (length p) 0 (br_advance 16 ?rd) = Inr o1" "records_shown o1 = p"
    using view_records_rest [of "br_advance 16 ?rd" p "page_padding psize p" 0] fits by (auto simp: img page_fits_def)
  from Cons obtain o2 where "view_pages (length pages) (i + 1) psize \<lparr>ifs_rest = concat (map (page_image crc psize) pages), ifs_eof = False\<rparr> = Inr o2"
    "records_shown o2 = concat pages" by auto
  with head recs ifs_read_exact [of "page_image crc psize p", unfolded len] good show ?case by (simp add: good_page_size_def)
qed simp

text \<open>
  C29. The viewer shows a table file completely: for a file the table builder wrote, it prints the header with
  the page size and the greatest sequence number, then every record of the file, once and in the order they
  were added, and ends with success.
\<close>

theorem viewer_shows_the_table:
  assumes "good_page_size psize" and "list_all (storable psize) rs" and "file_fits psize (length rs)"
    and "write_records crc \<lparr>fw_path = path, fw_content = [], fw_pos = 0, fw_append = False\<rparr> psize rs = Inr sb"
    and "map_of d path = Some (fw_content (sb_file_writer sb))" and "suffix ''.sst.sdb'' path"
  shows "\<exists>h out. viewer_main d path = Inr (Message (''Going to read file: '' @ path) # ShowTable h # out, 0) \<and>
    sh_page_size h = psize \<and> sh_max_seq_no h = max_seq rs \<and> records_shown out = rs"
proof -
  obtain pages where img: "fw_content (sb_file_writer sb) = sst_image crc psize pages" and cat: "concat pages = rs"
    and pages: "list_all (\<lambda>p. p \<noteq> [] \<and> page_fits psize p) pages"
    using write_records_image [OF assms(1,2), of crc path] assms(4) by (metis Inr_inject)
  let ?h = "\<lparr>sh_page_size = psize, sh_page_count = int (length pages), sh_max_seq_no = max_seq rs\<rparr>"
  let ?rest = "\<lparr>ifs_rest = concat (map (page_image crc psize) pages), ifs_eof = False\<rparr>"
  have "int (length pages) < 2 ^ 63"
    using page_count_bound [OF assms(1) pages sst_image_small [OF assms(1) pages]] assms(3) cat by simp
  then have "valid_ss_table_header ?h"
    using assms(1) max_seq_int64 [OF concat_pages_valid [OF pages]] cat by (auto simp: valid_ss_table_header_def good_page_size_def)
  then have "SSTableHeader_Read (BufferReader (ss_table_header_bytes ?h)) = Inr (?h, br_advance 24 (BufferReader (ss_table_header_bytes ?h)))"
    using ss_table_header_codec.get_enc [of ?h "BufferReader (ss_table_header_bytes ?h)" "[]"] by simp
  then have head: "ReadTableHeader \<lparr>ifs_rest = sst_image crc psize pages, ifs_eof = False\<rparr> = Inr (?h, ?rest)"
    using ifs_read_exact [of "ss_table_header_bytes ?h"] cat by (simp add: ReadTableHeader_def sst_image_def SSTableHeader_SdbSize_def)
  from view_pages_image [OF assms(1) pages] obtain out where "view_pages (length pages) 0 psize ?rest = Inr out"
    "records_shown out = rs" using cat by metis
  with head assms(5,6) img show ?thesis by (simp add: viewer_main_def)
qed

theorem viewer_shows_the_table_witness:
  "\<exists>d h out. viewer_main d ''1.sst.sdb'' = Inr (Message ''Going to read file: 1.sst.sdb'' # ShowTable h # out, 0) \<and>
    sh_max_seq_no h = 7 \<and> records_shown out = [Record ''a'' 7 ''x'', Record ''b'' 2 ''y'']"
proof -
  let ?rs = "[Record ''a'' 7 ''x'', Record ''b'' 2 ''y'']"
  have ok: "good_page_size 4096" "list_all (storable 4096) ?rs" "file_fits 4096 (length ?rs)" "suffix ''.sst.sdb'' ''1.sst.sdb''"
    by (simp_all add: good_page_size_def storable_def file_fits_def suffix_to_prefix length_record_bytes)
  obtain sb where w: "write_records (\<lambda>_. 0) \<lparr>fw_path = ''1.sst.sdb'', fw_content = [], fw_pos = 0, fw_append = False\<rparr> 4096 ?rs = Inr sb"
    by (rule write_records_image [OF ok(1,2)])
  have "max_seq ?rs = 7" by (simp add: max_seq_def)
  with viewer_shows_the_table [OF ok(1,2,3) w _ ok(4), of "[(''1.sst.sdb'', fw_content (sb_file_writer sb))]"] show ?thesis by auto
qed

end
