(* ===== verification/Wal_Tail.thy ===== *)
theory Wal_Tail
  imports Wal_Correct
begin

section \<open>The tail of the log\<close>

text \<open>
  What \<open>src/src/server/wal/tail.cpp\<close> gives to replication: the pages at or after a position,
  the segment a follower asks for next, and the mirror of a page on the follower.
\<close>

lemma ReadSegmentPages_page:
  assumes "fr_pos fr = 0" "int (length (fr_content fr)) \<le> kWalPageSize"
  shows "ReadSegmentPages fr seg from 0 out =
    (if fr_content fr \<noteq> [] \<and> \<not> position_less \<lparr>segment_no = seg, page_no = 0\<rparr> from
     then out @ [\<lparr>wp_position = \<lparr>segment_no = seg, page_no = 0\<rparr>, wp_data = fr_content fr\<rparr>] else out)"
proof (cases "fr_content fr = []")
  case True
  with assms show ?thesis by (subst ReadSegmentPages.simps) (simp add: fr_Read_def kWalPageSize_def)
next
  case False
  have n: "nat kWalPageSize \<noteq> 0" by (simp add: kWalPageSize_def)
  let ?fr = "fr\<lparr>fr_pos := length (fr_content fr)\<rparr>"
  have r: "fr_Read fr (nat kWalPageSize) = Inr (fr_content fr, ?fr)"
    using assms False by (simp add: fr_Read_def le_nat_iff Let_def)
  have "ReadSegmentPages ?fr seg from 1 out' = out'" for out'
    using n by (subst ReadSegmentPages.simps) (simp add: fr_Read_def)
  with False r show ?thesis by (subst ReadSegmentPages.simps) (simp add: Let_def)
qed

definition page_at :: "nat \<times> bytes \<Rightarrow> wal_page_data" where
  "page_at x = \<lparr>wp_position = \<lparr>segment_no = int (fst x), page_no = 0\<rparr>, wp_data = snd x\<rparr>"

definition page_wanted :: "position \<Rightarrow> nat \<times> bytes \<Rightarrow> bool" where
  "page_wanted from x \<longleftrightarrow> snd x \<noteq> [] \<and> \<not> position_less (wp_position (page_at x)) from"

lemma CollectSegments_pages:
  assumes "\<forall>(i, c) \<in> set xs. i < 10000 \<and> map_of d (numbered_path dir ''.wal.sdb'' i) = Some c \<and> int (length c) \<le> kWalPageSize"
  shows "CollectSegments d dir from (map (numbered_name ''.wal.sdb'') (map fst xs)) out =
    Inr (out @ map page_at (filter (page_wanted from) xs))"
  using assms
proof (induction xs arbitrary: out)
  case (Cons x xs)
  obtain i c where x: "x = (i, c)" by (cases x)
  with Cons.prems have op: "fr_Open d (dir @ ''/'' @ numbered_name ''.wal.sdb'' i) =
      Inr \<lparr>fr_path = dir @ ''/'' @ numbered_name ''.wal.sdb'' i, fr_content = c, fr_pos = 0\<rparr>"
    and i: "i < 10000" and c: "int (length c) \<le> kWalPageSize"
    by (auto simp: fr_Open_def numbered_path_def)
  have skip: "\<not> page_wanted from x" if "int i < segment_no from"
    using that by (simp add: x page_wanted_def page_at_def position_less_def)
  show ?case
  proof (cases "int i < segment_no from")
    case True
    with Cons skip show ?thesis by (simp add: x GetSegmentNo_numbered i)
  next
    case False
    with Cons op c show ?thesis
      by (auto simp: x GetSegmentNo_numbered i ReadSegmentPages_page page_wanted_def page_at_def)
  qed
qed simp

lemma CollectPagesFrom_files:
  assumes "dir_holds d dir ''.wal.sdb'' xs" "\<forall>(i, c) \<in> set xs. i < 10000 \<and> int (length c) \<le> kWalPageSize"
  shows "CollectPagesFrom d dir from = Inr (map page_at (filter (page_wanted from) xs))"
proof -
  have list: "sort (io_ListDirectory d dir) = map (numbered_name ''.wal.sdb'') (map fst xs)"
    using assms by (intro dir_holds_listing) auto
  have "\<forall>(i, c) \<in> set xs. i < 10000 \<and> map_of d (numbered_path dir ''.wal.sdb'' i) = Some c \<and> int (length c) \<le> kWalPageSize"
    using assms by (fastforce simp: dir_holds_def)
  from CollectSegments_pages [OF this, of "from" "[]"] show ?thesis
    unfolding CollectPagesFrom_def list by simp
qed

lemma CollectPagesFrom_pages:
  assumes "wal_holds d dir xs evss"
  shows "CollectPagesFrom d dir from = Inr (map page_at (filter (page_wanted from) xs))"
proof (rule CollectPagesFrom_files)
  from assms have "list_all2 (\<lambda>x evs. holds_events (snd x) evs) xs evss" by (simp add: wal_holds_def)
  then have "\<forall>x \<in> set xs. \<exists>evs. holds_events (snd x) evs" by (induction rule: list_all2_induct) auto
  then have "\<forall>x \<in> set xs. int (length (snd x)) \<le> kWalPageSize" by (auto simp: holds_events_def)
  with assms show "\<forall>(i, c) \<in> set xs. i < 10000 \<and> int (length c) \<le> kWalPageSize" by (force simp: wal_holds_def)
qed (use assms in \<open>simp add: wal_holds_def\<close>)

subsection \<open>Where a follower resumes\<close>

definition complete_segment :: "disk \<Rightarrow> string \<Rightarrow> nat \<Rightarrow> bool" where
  "complete_segment d dir i \<longleftrightarrow> io_FileSize d (segment_path dir (int i)) \<ge> kWalPageSize"

lemma finite_complete_segments: "finite {i. complete_segment d dir i}"
proof -
  have "inj (\<lambda>i. numbered_path dir ''.wal.sdb'' i)" by (simp add: inj_def)
  moreover have "(\<lambda>i. numbered_path dir ''.wal.sdb'' i) ` {i. complete_segment d dir i} \<subseteq> fst ` set d"
    by (auto simp: complete_segment_def io_FileSize_def segment_path_numbered kWalPageSize_def
        split: option.splits dest!: map_of_SomeD intro: rev_image_eqI)
  ultimately show ?thesis
    by (meson finite_imageD finite_imageI finite_set finite_subset inj_on_subset subset_UNIV)
qed

lemma NextSegmentLoop_finds:
  assumes "\<not> complete_segment d dir n" "i \<le> n" "\<forall>j. i \<le> j \<and> j < n \<longrightarrow> complete_segment d dir j"
  shows "NextSegmentLoop d dir (int i) = Some (int n)"
  using assms(2,3)
proof (induction "n - i" arbitrary: i)
  case 0
  with assms(1) show ?case
    by (subst NextSegmentLoop.simps) (simp add: complete_segment_def Let_def)
next
  case (Suc k)
  then have "complete_segment d dir i" "i < n" by auto
  with Suc.hyps(1) [of "Suc i"] Suc show ?case
    by (subst NextSegmentLoop.simps) (auto simp: complete_segment_def Let_def kWalPageSize_def add.commute)
qed

lemma NextSegmentToFetch_lowest:
  "\<exists>n. NextSegmentToFetch d dir = Some (int n) \<and> \<not> complete_segment d dir n \<and> (\<forall>i < n. complete_segment d dir i)"
proof -
  have "\<exists>n. \<not> complete_segment d dir n"
    using finite_complete_segments [of d dir] infinite_UNIV_nat by (metis (mono_tags, lifting) UNIV_eq_I mem_Collect_eq)
  then obtain n where n: "\<not> complete_segment d dir n" "\<forall>i < n. complete_segment d dir i"
    using exists_least_iff [of "\<lambda>n. \<not> complete_segment d dir n"] by auto
  then have "NextSegmentLoop d dir (int 0) = Some (int n)" by (intro NextSegmentLoop_finds) simp_all
  with n show ?thesis by (auto simp: NextSegmentToFetch_def)
qed

text \<open>
  C26. The search for the segment to resume from always ends, and returns the lowest segment
  that is missing or not complete.
\<close>

theorem next_segment_is_lowest_incomplete:
  "\<exists>n. NextSegmentToFetch d dir = Some (int n) \<and> \<not> complete_segment d dir n \<and> (\<forall>i < n. complete_segment d dir i)"
  by (rule NextSegmentToFetch_lowest)

theorem next_segment_is_lowest_incomplete_witness:
  "NextSegmentToFetch [(numbered_path ''wal'' ''.wal.sdb'' 0, replicate 4096 CHR ''x'')] ''wal'' = Some 1"
proof -
  let ?d = "[(numbered_path ''wal'' ''.wal.sdb'' 0, replicate 4096 CHR ''x'')] :: disk"
  have iff: "complete_segment ?d ''wal'' i \<longleftrightarrow> i = 0" for i
    by (simp add: complete_segment_def io_FileSize_def segment_path_numbered kWalPageSize_def)
  obtain n where n: "NextSegmentToFetch ?d ''wal'' = Some (int n)" "n \<noteq> 0" "\<forall>i < n. i = 0"
    using next_segment_is_lowest_incomplete [of ?d "''wal''"] unfolding iff by blast
  then have "n = 1" by (metis gr_zeroI less_one linorder_neqE_nat zero_neq_one)
  with n(1) show ?thesis by simp
qed

end
