(* ===== verification/Replication.thy ===== *)
theory Replication
  imports Services Wal_Tail
begin

section \<open>Replication\<close>

text \<open>
  \<open>src/src/server/replication\<close> and \<open>services/replication_service\<close>: the registry of followers, the
  coroutine with which the leader streams the pages of its log to a follower, and what a follower
  does with a page. The stream itself is gRPC: the pages arrive in the order they were sent, and
  the stream may end at any time.
\<close>

subsection \<open>FollowerRegistry\<close>

record follower_registry =
  reg_next_token :: "64 word"
  reg_positions :: "(64 word \<times> position) list"

definition FollowerRegistry :: follower_registry where
  "FollowerRegistry = \<lparr>reg_next_token = 0, reg_positions = []\<rparr>"

definition reg_Register :: "follower_registry \<Rightarrow> position \<Rightarrow> 64 word \<times> follower_registry" where
  "reg_Register reg from =
     (let token = reg_next_token reg
      in (token, \<lparr>reg_next_token = token + 1,
                  reg_positions = (if map_of (reg_positions reg) token = None then reg_positions reg @ [(token, from)]
                                   else reg_positions reg)\<rparr>))"

definition reg_Update :: "follower_registry \<Rightarrow> 64 word \<Rightarrow> position \<Rightarrow> follower_registry" where
  "reg_Update reg token next_needed =
     (if map_of (reg_positions reg) token = None then reg
      else reg\<lparr>reg_positions := AList.update token next_needed (reg_positions reg)\<rparr>)"

definition reg_Unregister :: "follower_registry \<Rightarrow> 64 word \<Rightarrow> follower_registry" where
  "reg_Unregister reg token = reg\<lparr>reg_positions := AList.delete token (reg_positions reg)\<rparr>"

definition reg_MinRetainedSegment :: "follower_registry \<Rightarrow> int option" where
  "reg_MinRetainedSegment reg =
     (case reg_positions reg of
        [] \<Rightarrow> None
      | (token, pos) # ps \<Rightarrow> Some (fold (\<lambda>(token, pos) m. min m (segment_no pos)) (reg_positions reg) (segment_no pos)))"

subsection \<open>Follower\<close>

text \<open>
  The events of a page, applied one after the other. Only \<open>ParseEvent\<close> is inside the \<open>try\<close>: an
  exception of \<open>Apply\<close> ends the stream, and what was applied stays applied.
\<close>

function process_events :: "buffer_reader \<Rightarrow> database \<Rightarrow> database \<times> error option" where
  "process_events rd db =
     (if br_HasMore rd then
        (case ParseEvent rd of
           Inl e \<Rightarrow> (db, if is_exception e then None else Some e)
         | Inr x \<Rightarrow>
             (case ev_Apply (fst x) db of
                Inl e \<Rightarrow> (db, Some e)
              | Inr db \<Rightarrow> process_events (snd x) db))
      else (db, None))"
  by pat_completeness auto
termination
  by (relation "measure (\<lambda>(rd, db). length (br_data rd) - br_buf rd)") (auto dest!: ParseEvent_moves)

declare process_events.simps [simp del]

definition ProcessPage :: "database \<Rightarrow> string \<Rightarrow> int \<Rightarrow> string \<Rightarrow> database \<times> error option" where
  "ProcessPage db wal_dir seg data =
     process_events (BufferReader data) (db\<lparr>db_disk := WriteReceivedPage (db_disk db) wal_dir seg data\<rparr>)"

text \<open>
  One connection of \<open>Follower::Run\<close>: the segment it asks for and the pages the stream delivers.
  An exception ends it and \<open>Run\<close> connects again.
\<close>

fun process_pages :: "database \<Rightarrow> string \<Rightarrow> wal_page_data list \<Rightarrow> database \<times> error option" where
  "process_pages db wal_dir [] = (db, None)"
| "process_pages db wal_dir (page # pages) =
     (case ProcessPage db wal_dir (segment_no (wp_position page)) (wp_data page) of
        (db, Some e) \<Rightarrow> (db, Some e)
      | (db, None) \<Rightarrow> process_pages db wal_dir pages)"

definition Follower_connection :: "(position \<Rightarrow> wal_page_data list) \<Rightarrow> database \<Rightarrow> string \<Rightarrow> (database \<times> error option) option" where
  "Follower_connection GetEvents db wal_dir =
     map_option (\<lambda>from_segment. process_pages db wal_dir (GetEvents \<lparr>segment_no = from_segment, page_no = 0\<rparr>))
       (NextSegmentToFetch (db_disk db) wal_dir)"

text \<open>
  The loop of \<open>Follower::Run\<close>, one connection after the other: an exception of a connection is logged and the
  next one is made, undefined behaviour ends the follower.
\<close>

fun Follower_Run :: "(position \<Rightarrow> wal_page_data list) list \<Rightarrow> database \<Rightarrow> string \<Rightarrow> database result option" where
  "Follower_Run [] db wal_dir = Some (Inr db)"
| "Follower_Run (GetEvents # connections) db wal_dir =
     (case Follower_connection GetEvents db wal_dir of
        None \<Rightarrow> None
      | Some (db, e) \<Rightarrow>
          if (case e of None \<Rightarrow> True | Some e \<Rightarrow> is_exception e) then Follower_Run connections db wal_dir else Some (Inl (the e)))"

subsection \<open>GetEventsReactor\<close>

record reactor =
  ger_next_pos :: position
  ger_token :: "64 word"
  ger_tail_sent_size :: int
  ger_write_pending :: bool
  ger_write_ok :: bool
  ger_cancelled :: bool

definition GetEventsReactor :: "follower_registry \<Rightarrow> position \<Rightarrow> reactor \<times> follower_registry" where
  "GetEventsReactor reg from =
     (let (token, reg) = reg_Register reg from
      in (\<lparr>ger_next_pos = from, ger_token = token, ger_tail_sent_size = -1, ger_write_pending = False,
           ger_write_ok = True, ger_cancelled = False\<rparr>, reg))"

text \<open>\<open>ReplicationServiceImpl::GetEvents\<close>: the stream starts at the position of the request.\<close>

record get_events_request =
  gq_segment_no :: int
  gq_page_no :: int

definition svc_GetEvents :: "follower_registry \<Rightarrow> get_events_request \<Rightarrow> reactor \<times> follower_registry" where
  "svc_GetEvents followers request =
     GetEventsReactor followers \<lparr>segment_no = gq_segment_no request, page_no = gq_page_no request\<rparr>"

definition ger_OnWriteDone :: "bool \<Rightarrow> reactor \<Rightarrow> reactor" where
  "ger_OnWriteDone ok r = r\<lparr>ger_write_ok := ok, ger_write_pending := False\<rparr>"

definition ger_OnCancel :: "reactor \<Rightarrow> reactor" where
  "ger_OnCancel r = r\<lparr>ger_cancelled := True\<rparr>"

definition ger_OnDone :: "reactor \<Rightarrow> follower_registry \<Rightarrow> follower_registry" where
  "ger_OnDone r reg = reg_Unregister reg (ger_token r)"

definition IsAlreadySentTail :: "reactor \<Rightarrow> wal_page_data \<Rightarrow> bool" where
  "IsAlreadySentTail r page \<longleftrightarrow>
     segment_no (wp_position page) = segment_no (ger_next_pos r) \<and> page_no (wp_position page) = page_no (ger_next_pos r) \<and>
     int (length (wp_data page)) = ger_tail_sent_size r"

definition page_completed :: "wal_page_data \<Rightarrow> bool" where
  "page_completed page \<longleftrightarrow> int (length (wp_data page)) = kWalPageSize"

text \<open>
  \<open>Pump\<close> as a state machine: it is at the top of its loop, in the loop over the pages it has
  collected, waiting for a write, asleep until the next poll, or finished. Between two steps other
  coroutines run, which is where \<open>OnWriteDone\<close> and \<open>OnCancel\<close> take effect and where the log grows.
\<close>

datatype pump_phase =
    Polling
  | Shipping "wal_page_data list"
  | AwaitingWrite wal_page_data "wal_page_data list"
  | Sleeping
  | Finished

text \<open>A step of the coroutine: its reactor, the registry, and the message it starts to write, if any.\<close>

fun Pump :: "disk \<Rightarrow> string \<Rightarrow> pump_phase \<Rightarrow> reactor \<Rightarrow> follower_registry \<Rightarrow> (pump_phase \<times> reactor \<times> follower_registry \<times> wal_page_data option) option" where
  "Pump d wal_dir Polling r reg =
     (if ger_cancelled r then Some (Finished, r, reg, None)
      else case CollectPagesFrom d wal_dir (ger_next_pos r) of
             Inl e \<Rightarrow> if is_exception e then Some (Shipping [], r, reg, None) else None
           | Inr pages \<Rightarrow> Some (Shipping pages, r, reg, None))"
| "Pump d wal_dir (Shipping []) r reg = Some (if ger_cancelled r then Finished else Sleeping, r, reg, None)"
| "Pump d wal_dir (Shipping (page # pages)) r reg =
     (if ger_cancelled r then Some (Finished, r, reg, None)
      else if \<not> page_completed page \<and> IsAlreadySentTail r page then Some (Sleeping, r, reg, None)
      else Some (AwaitingWrite page pages, r\<lparr>ger_write_pending := True\<rparr>, reg, Some page))"
| "Pump d wal_dir (AwaitingWrite page pages) r reg =
     (if ger_write_pending r \<and> \<not> ger_cancelled r then None
      else if \<not> ger_write_ok r \<or> ger_cancelled r then Some (Finished, r, reg, None)
      else if page_completed page
      then let next_pos = \<lparr>segment_no = segment_no (wp_position page), page_no = page_no (wp_position page) + 1\<rparr>
           in Some (Shipping pages, r\<lparr>ger_next_pos := next_pos, ger_tail_sent_size := -1\<rparr>, reg_Update reg (ger_token r) next_pos, None)
      else Some (Sleeping, r\<lparr>ger_next_pos := wp_position page, ger_tail_sent_size := int (length (wp_data page))\<rparr>, reg, None))"
| "Pump d wal_dir Sleeping r reg = Some (Polling, r, reg, None)"
| "Pump d wal_dir Finished r reg = None"

end
