(* ===== verification/Replication_Correct.thy ===== *)
theory Replication_Correct
  imports Replication
begin

section \<open>Correctness of replication\<close>

text \<open>
  A follower is at a prefix of the log of its leader, whatever pages it gets, in whatever overlap:
  events it has applied before change nothing. The stream of pages of the leader moves the prefix
  forward without gaps while the log grows.
\<close>

subsection \<open>A follower at a prefix of the log\<close>

text \<open>
  The storages a follower has hold the versions whose events are in \<open>dn\<close>; a storage it has not is
  one without events, and its directory is still empty.
\<close>

definition storage_follows :: "crc32 \<Rightarrow> database \<Rightarrow> string \<Rightarrow> lsm_record list \<Rightarrow> event list \<Rightarrow> bool" where
  "storage_follows crc db sid log dn \<longleftrightarrow>
     (let k = length (filter (upsert_of sid) dn)
      in case map_of (db_storages db) sid of
           None \<Rightarrow> k = 0 \<and> io_ListDirectory (db_disk db) (db_base_dir db @ ''/'' @ sid) = []
         | Some e \<Rightarrow> lsm_options (le_lsm e) = db_lsm_options db \<and> le_rep crc e (int k + 1, rev (take k (rev log))))"

definition follows :: "crc32 \<Rightarrow> database \<Rightarrow> storage_logs \<Rightarrow> event list \<Rightarrow> bool" where
  "follows crc db logs dn \<longleftrightarrow>
     good_options (db_lsm_options db) \<and> distinct (map fst (db_disk db)) \<and>
     (\<forall>sid m log. map_of logs sid = Some (m, log) \<longrightarrow> storage_follows crc db sid log dn) \<and>
     (\<forall>tx. ts_IsCommited (db_tx_storage db) tx \<longleftrightarrow> TxStorageCommitEvent tx \<in> set dn)"

text \<open>What is needed of the log of the leader.\<close>

definition leader_log :: "lsm_options \<Rightarrow> storage_logs \<Rightarrow> event list \<Rightarrow> bool" where
  "leader_log opts logs evs \<longleftrightarrow>
     (\<forall>sid s. map_of logs sid = Some s \<longrightarrow> log_ok opts sid s evs) \<and>
     (\<forall>ev \<in> set evs. \<forall>sid. upsert_of sid ev \<longrightarrow> sid \<in> fst ` set logs) \<and> (\<forall>sid \<in> fst ` set logs. good_sid sid)"

lemma follows_storage:
  assumes "follows crc db logs dn" "map_of logs sid = Some (m, log)"
  shows "case map_of (db_storages db) sid of
      None \<Rightarrow> length (filter (upsert_of sid) dn) = 0 \<and> io_ListDirectory (db_disk db) (db_base_dir db @ ''/'' @ sid) = []
    | Some e \<Rightarrow> lsm_options (le_lsm e) = db_lsm_options db \<and>
        le_rep crc e (int (length (filter (upsert_of sid) dn)) + 1, rev (take (length (filter (upsert_of sid) dn)) (rev log)))"
  using assms unfolding follows_def storage_follows_def Let_def by blast

lemma count_mono: "i \<le> j \<Longrightarrow> length (filter P (take i xs)) \<le> length (filter P (take j xs))"
  by (metis filter_append le_add1 length_append min.absorb1 take_add le_iff_add)

lemma new_engine_follows:
  assumes "follows crc db logs dn" "map_of logs sid = Some s" "map_of (db_storages db) sid = None"
  obtains e where "new_engine (db\<lparr>db_dirs := dirs\<rparr>) sid = Inr e" "lsm_options (le_lsm e) = db_lsm_options db" "le_rep crc e (1, [])"
proof -
  let ?dir = "db_base_dir db @ ''/'' @ sid" let ?l = "(Lsm ?dir (db_lsm_options db))\<lparr>lsm_next_seq_no := 1\<rparr>"
  have ok: "good_options (db_lsm_options db)" "distinct (map fst (db_disk db))" "io_ListDirectory (db_disk db) ?dir = []"
    using assms(1,3) follows_storage [OF assms(1)] assms(2) by (cases s; force simp: follows_def)+
  let ?e = "\<lparr>le_id = sid, le_lsm = ?l, le_wal_writer = False\<rparr>"
  have "le_rep crc (if db_wal_writer db = None then ?e else le_StartLogInto ?e) (1, [])"
    using plain_rep_log [OF plain_rep_empty [OF ok(1,3,2)]] by (simp add: le_rep_def le_StartLogInto_def)
  moreover have "new_engine (db\<lparr>db_dirs := dirs\<rparr>) sid = Inr (if db_wal_writer db = None then ?e else le_StartLogInto ?e)"
    using lsm_Init_empty [OF ok(3), of "db_lsm_options db"] by (simp add: new_engine_def le_Init_def LsmEngine_def)
  ultimately show thesis by (intro that) (simp_all add: le_StartLogInto_def Lsm_def)
qed

text \<open>The storage of an event that is applied for the first time, created if need be.\<close>

lemma ensure_follows:
  assumes f: "follows crc db logs dn" and log: "map_of logs sid = Some (m, log)"
  defines "k \<equiv> length (filter (upsert_of sid) dn)"
  obtains e db' where "db_EnsureStorageForRecover db sid = Inr (e, db')" "lsm_options (le_lsm e) = db_lsm_options db"
    "le_rep crc e (int k + 1, rev (take k (rev log)))" "map_of (db_storages db') = (map_of (db_storages db))(sid \<mapsto> e)"
    "db_disk db' = db_disk db" "db_base_dir db' = db_base_dir db" "db_lsm_options db' = db_lsm_options db" "db_tx_storage db' = db_tx_storage db"
proof (cases "map_of (db_storages db) sid")
  case None
  have k: "k = 0" using follows_storage [OF f log] None by (simp add: k_def)
  let ?db = "db\<lparr>db_dirs := io_CreateDirectory (db_dirs db) (db_base_dir db @ ''/'' @ sid)\<rparr>"
  from new_engine_follows [OF f log None] obtain e where e: "new_engine ?db sid = Inr e" "lsm_options (le_lsm e) = db_lsm_options db" "le_rep crc e (1, [])" .
  have "map_of (db_storages db @ [(sid, e)]) = (map_of (db_storages db))(sid \<mapsto> e)"
    using None by (auto simp: map_add_def fun_eq_iff split: option.splits)
  with e None k show thesis
    by (intro that [of e "?db\<lparr>db_storages := try_emplace sid e (db_storages db)\<rparr>"])
      (simp_all add: db_EnsureStorageForRecover_def try_emplace_def)
next
  case (Some e)
  have "lsm_options (le_lsm e) = db_lsm_options db \<and> le_rep crc e (int k + 1, rev (take k (rev log)))"
    using follows_storage [OF f log] Some by (simp add: k_def)
  with Some show thesis by (intro that [of e db]) (auto simp: db_EnsureStorageForRecover_def)
qed

lemma Apply_first_time:
  assumes f: "follows crc db logs (take n evs)" and ld: "leader_log (db_lsm_options db) logs evs"
    and n: "n < length evs" and ev: "evs ! n = LsmStorageUpsertEvent sid seq key val"
  shows "\<exists>db'. ev_Apply (evs ! n) db = Inr db' \<and> follows crc db' logs (take (Suc n) evs) \<and>
    db_base_dir db' = db_base_dir db \<and> db_lsm_options db' = db_lsm_options db \<and> db_disk db' = db_disk db"
proof -
  let ?k = "length (filter (upsert_of sid) (take n evs))"
  have evs: "evs = take n evs @ LsmStorageUpsertEvent sid seq key val # drop (Suc n) evs" using id_take_nth_drop [OF n] ev by simp
  from ld n ev obtain m log where log: "map_of logs sid = Some (m, log)"
    unfolding leader_log_def by (metis in_fst_set_conv nth_mem option.exhaust surj_pair upsert_of.simps(1))
  from ld log have ok: "log_ok (db_lsm_options db) sid (m, log) evs" by (simp add: leader_log_def)
  note e4 = log_ok_event [OF ok evs]
  from ensure_follows [OF f log] obtain e db1 where ens: "db_EnsureStorageForRecover db sid = Inr (e, db1)"
    and opt: "lsm_options (le_lsm e) = db_lsm_options db" and rep: "le_rep crc e (int ?k + 1, rev (take ?k (rev log)))"
    and sts: "map_of (db_storages db1) = (map_of (db_storages db))(sid \<mapsto> e)"
    and fr: "db_disk db1 = db_disk db" "db_base_dir db1 = db_base_dir db" "db_lsm_options db1 = db_lsm_options db" "db_tx_storage db1 = db_tx_storage db" .
  let ?e = "le_RecoverFromLog e seq key val" let ?db = "set_storage sid ?e db1"
  have "int ?k + 1 < kMaxSequence" using ok e4(1) by (simp add: log_ok_def)
  moreover have "row_fits e \<lparr>row_key = key, row_value = val\<rparr>" using e4(4) opt by (simp add: row_fits_def)
  ultimately have "le_rep crc ?e (int ?k + 2, Record key seq val # rev (take ?k (rev log)))"
    using le_rep_RecoverFromLog [OF rep, of key val seq] e4(2) by (simp add: add.commute)
  then have new: "le_rep crc ?e (int (Suc ?k) + 1, rev (take (Suc ?k) (rev log)))" using e4(1,3) by (simp add: take_Suc_conv_app_nth add.commute)
  have opt': "lsm_options (le_lsm ?e) = db_lsm_options db" using opt by (simp add: le_RecoverFromLog_def lsm_PutSeq_def lsm_DoPut_def Let_def)
  have sts': "map_of (db_storages ?db) = (map_of (db_storages db))(sid \<mapsto> ?e)" by (simp add: set_storage_def update_conv' sts)
  have tk: "take (Suc n) evs = take n evs @ [LsmStorageUpsertEvent sid seq key val]" using n ev by (simp add: take_Suc_conv_app_nth)
  have fr': "db_disk ?db = db_disk db" "db_base_dir ?db = db_base_dir db" "db_lsm_options ?db = db_lsm_options db" "db_tx_storage ?db = db_tx_storage db"
    by (simp_all add: set_storage_def fr)
  have st: "storage_follows crc ?db sid' log' (take (Suc n) evs)" if "map_of logs sid' = Some (m', log')" for sid' m' log'
  proof (cases "sid' = sid")
    case True
    with that log new opt' show ?thesis by (simp add: storage_follows_def tk sts' fr' add.commute)
  next
    case False
    have "storage_follows crc db sid' log' (take n evs)" using f that by (auto simp: follows_def)
    with False show ?thesis by (simp add: storage_follows_def tk sts' fr' cong: option.case_cong)
  qed
  have "follows crc ?db logs (take (Suc n) evs)"
    using f st unfolding follows_def fr' by (auto simp: tk)
  moreover have "ev_Apply (evs ! n) db = Inr ?db" using ens ev by simp
  ultimately show ?thesis using fr' by blast
qed

lemma Apply_again:
  assumes f: "follows crc db logs (take n evs)" and ld: "leader_log (db_lsm_options db) logs evs"
    and j: "j < n" "j < length evs" and ev: "evs ! j = LsmStorageUpsertEvent sid seq key val"
  shows "ev_Apply (evs ! j) db = Inr db"
proof -
  let ?k = "length (filter (upsert_of sid) (take n evs))" and ?c = "length (filter (upsert_of sid) (take j evs))"
  have evs: "evs = take j evs @ LsmStorageUpsertEvent sid seq key val # drop (Suc j) evs" using id_take_nth_drop [OF j(2)] ev by simp
  from ld j ev obtain m log where log: "map_of logs sid = Some (m, log)"
    unfolding leader_log_def by (metis in_fst_set_conv nth_mem option.exhaust surj_pair upsert_of.simps(1))
  from ld log have ok: "log_ok (db_lsm_options db) sid (m, log) evs" by (simp add: leader_log_def)
  have "Suc ?c \<le> ?k"
    using count_mono [of "Suc j" n "upsert_of sid" evs] j ev by (simp add: take_Suc_conv_app_nth)
  with follows_storage [OF f log] obtain e where e: "map_of (db_storages db) sid = Some e" "le_rep crc e (int ?k + 1, rev (take ?k (rev log)))"
    by (auto split: option.splits)
  have "lsm_next_seq_no (le_lsm e) \<noteq> seq" using le_rep_next [OF e(2)] log_ok_event(2) [OF ok evs] \<open>Suc ?c \<le> ?k\<close> by simp
  then have "le_RecoverFromLog e seq key val = e" by (rule le_RecoverFromLog_skip)
  then show ?thesis using e(1) ev by (simp add: db_EnsureStorageForRecover_def set_storage_def update_same)
qed

lemma Apply_commit:
  assumes f: "follows crc db logs (take n evs)" and j: "j \<le> n" "j < length evs" and ev: "evs ! j = TxStorageCommitEvent tx"
  shows "follows crc (db\<lparr>db_tx_storage := ts_RecoverFromLog (db_tx_storage db) tx\<rparr>) logs (take (max n (Suc j)) evs)"
proof -
  have evs: "set (take (max n (Suc j)) evs) = insert (TxStorageCommitEvent tx) (set (take n evs))"
    "filter (upsert_of sid) (take (max n (Suc j)) evs) = filter (upsert_of sid) (take n evs)" for sid
  proof -
    consider "j = n" | "j < n" using j(1) by linarith
    then have "take (max n (Suc j)) evs = take n evs @ [TxStorageCommitEvent tx] \<or>
        (take (max n (Suc j)) evs = take n evs \<and> TxStorageCommitEvent tx \<in> set (take n evs))"
      using j(2) ev by cases (auto simp: take_Suc_conv_app_nth max_absorb1 in_set_conv_nth)
    then show "set (take (max n (Suc j)) evs) = insert (TxStorageCommitEvent tx) (set (take n evs))"
      "filter (upsert_of sid) (take (max n (Suc j)) evs) = filter (upsert_of sid) (take n evs)" by auto
  qed
  have "storage_follows crc (db\<lparr>db_tx_storage := ts\<rparr>) sid log (take (max n (Suc j)) evs) = storage_follows crc db sid log (take n evs)" for ts sid log
    by (simp add: storage_follows_def evs(2) cong: option.case_cong)
  with f show ?thesis unfolding follows_def evs(1) by (auto simp: ts_RecoverFromLog_def ts_IsCommited_def)
qed

lemma Apply_any:
  assumes f: "follows crc db logs (take n evs)" and ld: "leader_log (db_lsm_options db) logs evs" and j: "j \<le> n" "j < length evs"
  shows "\<exists>db'. ev_Apply (evs ! j) db = Inr db' \<and> follows crc db' logs (take (max n (Suc j)) evs) \<and>
    db_base_dir db' = db_base_dir db \<and> db_lsm_options db' = db_lsm_options db \<and> db_disk db' = db_disk db"
proof (cases "evs ! j")
  case (LsmStorageUpsertEvent sid seq key val)
  show ?thesis
  proof (cases "j = n")
    case True
    with Apply_first_time [OF f ld] j(2) LsmStorageUpsertEvent show ?thesis by simp
  next
    case False
    with Apply_again [OF f ld _ j(2) LsmStorageUpsertEvent] f j(1) show ?thesis by (simp add: max_absorb1)
  qed
next
  case (TxStorageCommitEvent tx)
  with Apply_commit [OF f j TxStorageCommitEvent] show ?thesis by simp
qed

lemma Apply_range:
  assumes "follows crc db logs (take n evs)" "leader_log (db_lsm_options db) logs evs" "i \<le> n" "i + l \<le> length evs"
  shows "\<exists>db'. handle_all ev_Apply (take l (drop i evs)) db = (db', None) \<and> follows crc db' logs (take (max n (i + l)) evs) \<and>
    db_base_dir db' = db_base_dir db \<and> db_lsm_options db' = db_lsm_options db \<and> db_disk db' = db_disk db"
  using assms
proof (induction l arbitrary: i n db)
  case 0
  then show ?case by (simp add: max_absorb1)
next
  case (Suc l)
  from Apply_any [OF Suc.prems(1,2), of i] Suc.prems(3,4) obtain db1 where db1: "ev_Apply (evs ! i) db = Inr db1"
    "follows crc db1 logs (take (max n (Suc i)) evs)" "db_base_dir db1 = db_base_dir db" "db_lsm_options db1 = db_lsm_options db" "db_disk db1 = db_disk db"
    by auto
  from Suc.IH [OF db1(2), of "Suc i"] Suc.prems(2,4) db1(3,4,5) obtain db' where db': "handle_all ev_Apply (take l (drop (Suc i) evs)) db1 = (db', None)"
    "follows crc db' logs (take (max (max n (Suc i)) (Suc i + l)) evs)" "db_base_dir db' = db_base_dir db" "db_lsm_options db' = db_lsm_options db" "db_disk db' = db_disk db"
    by auto
  have "take (Suc l) (drop i evs) = evs ! i # take l (drop (Suc i) evs)"
    using Suc.prems(4) by (metis Cons_nth_drop_Suc Suc_le_lessD add_Suc_right le_add1 le_trans not_less_eq_eq take_Suc_Cons)
  moreover have "max (max n (Suc i)) (Suc i + l) = max n (i + Suc l)" by simp
  ultimately show ?case using db1(1) db' by auto
qed

subsection \<open>A page\<close>

lemma process_events_handle:
  assumes "list_all valid_event evs" and "br_rest rd = events_bytes evs @ rest" and "handle_all ev_Apply evs db = (db', None)"
  shows "process_events rd db = process_events (br_advance (length (events_bytes evs)) rd) db'"
  using assms
proof (induction evs arbitrary: rd db)
  case (Cons ev evs)
  have more: "br_HasMore rd" using Cons.prems length_event_bytes [of ev] by (auto simp: br_HasMore_iff_rest)
  have parse: "ParseEvent rd = Inr (ev, br_advance (length (event_bytes ev)) rd)"
    using Cons.prems event_codec.get_enc [of ev rd "events_bytes evs @ rest"] by simp
  from Cons.prems(3) obtain db1 where db1: "ev_Apply ev db = Inr db1" "handle_all ev_Apply evs db1 = (db', None)" by (auto split: sum.splits)
  with Cons.IH [of "br_advance (length (event_bytes ev)) rd" db1] Cons.prems show ?case
    by (subst process_events.simps) (simp add: more parse)
qed simp

lemma process_events_page:
  assumes "holds_events c evs" "handle_all ev_Apply evs db = (db', None)"
  shows "process_events (BufferReader c) db = (db', None)"
proof -
  from assms obtain k where v: "list_all valid_event evs" and c: "c = events_bytes evs @ replicate k (CHR 0x00)"
    and k: "k = 0 \<or> 8 \<le> k" by (auto simp: holds_events_def)
  let ?rd = "br_advance (length (events_bytes evs)) (BufferReader c)"
  have rest: "br_rest ?rd = replicate k (CHR 0x00)" by (simp add: c)
  have "process_events ?rd db' = (db', None)"
    using k rest ParseEvent_padding [OF rest]
    by (subst process_events.simps) (auto simp: br_HasMore_iff_rest is_exception_def)
  moreover have "br_rest (BufferReader c) = events_bytes evs @ replicate k (CHR 0x00)" by (simp add: c)
  ultimately show ?thesis using process_events_handle [OF v _ assms(2)] by simp
qed

lemma only_in_WriteReceivedPage: "only_in dir d (WriteReceivedPage d dir (int n) data)"
  using in_directory_segment [of dir n]
  by (auto simp: WriteReceivedPage_def fw_Open_def Let_def intro: only_in_trans [OF only_in_update only_in_FSync])

lemma same_listing:
  assumes "only_in dir d d'" "dir \<noteq> dir'" "distinct (map fst d)" "io_ListDirectory d dir' = []"
  shows "io_ListDirectory d' dir' = []"
proof -
  have "\<not> in_directory dir' path" if "path \<in> fst ` set d'" for path
  proof
    assume a: "in_directory dir' path"
    then have "map_of d' path = map_of d path" using only_in_same_in [OF assms(1,2)] by (simp add: same_in_def)
    with that have "path \<in> fst ` set d" by (simp add: in_fst_set_conv)
    with a assms(4) show False by (auto simp: io_ListDirectory_def filter_empty_conv)
  qed
  then show ?thesis by (auto simp: io_ListDirectory_def filter_empty_conv)
qed

lemma follows_mirror:
  assumes f: "follows crc db logs dn" and good: "\<forall>sid \<in> fst ` set logs. good_sid sid" and only: "only_in (db_base_dir db @ ''/wal'') (db_disk db) d"
  shows "follows crc (db\<lparr>db_disk := d\<rparr>) logs dn"
proof -
  have "storage_follows crc (db\<lparr>db_disk := d\<rparr>) sid log dn" if log: "map_of logs sid = Some (m, log)" for sid m log
  proof -
    have "good_sid sid" using good map_of_SomeD [OF log] by force
    then have "db_base_dir db @ ''/wal'' \<noteq> db_base_dir db @ ''/'' @ sid" using good_sid_wal by (auto simp: kWal_def)
    from same_listing [OF only this] f have "io_ListDirectory (db_disk db) (db_base_dir db @ ''/'' @ sid) = [] \<Longrightarrow> io_ListDirectory d (db_base_dir db @ ''/'' @ sid) = []"
      by (simp add: follows_def)
    moreover have "storage_follows crc db sid log dn" using f log by (auto simp: follows_def)
    ultimately show ?thesis by (auto simp: storage_follows_def Let_def split: option.splits)
  qed
  then show ?thesis using f only by (auto simp: follows_def only_in_def)
qed

lemma ProcessPage_range:
  assumes f: "follows crc db logs (take n evs)" and ld: "leader_log (db_lsm_options db) logs evs" and i: "i \<le> n" "i + l \<le> length evs"
    and c: "holds_events data (take l (drop i evs))"
  shows "\<exists>db'. ProcessPage db (db_base_dir db @ ''/wal'') (int seg) data = (db', None) \<and> follows crc db' logs (take (max n (i + l)) evs) \<and>
    db_base_dir db' = db_base_dir db \<and> db_lsm_options db' = db_lsm_options db \<and>
    db_disk db' = WriteReceivedPage (db_disk db) (db_base_dir db @ ''/wal'') (int seg) data"
proof -
  let ?d = "WriteReceivedPage (db_disk db) (db_base_dir db @ ''/wal'') (int seg) data"
  have "follows crc (db\<lparr>db_disk := ?d\<rparr>) logs (take n evs)"
    using ld by (intro follows_mirror [OF f] only_in_WriteReceivedPage) (simp add: leader_log_def)
  from Apply_range [OF this _ i] ld obtain db' where "handle_all ev_Apply (take l (drop i evs)) (db\<lparr>db_disk := ?d\<rparr>) = (db', None)"
    "follows crc db' logs (take (max n (i + l)) evs)" "db_base_dir db' = db_base_dir db" "db_lsm_options db' = db_lsm_options db" "db_disk db' = ?d" by auto
  with process_events_page [OF c] show ?thesis by (auto simp: ProcessPage_def)
qed

end
