(* ===== verification/Replication_Stream.thy ===== *)
theory Replication_Stream
  imports Replication_Correct
begin

section \<open>The stream from a leader to a follower\<close>

text \<open>
  Leader, stream and follower together: the leader's log grows, its reactor ships the pages, the
  follower mirrors and applies them, the stream breaks and is opened again. The lemmas are about
  the events \<open>evs\<close> that the log has at the end; at every moment before, the log has a prefix of
  them, on pages that are prefixes of its pages at the end.
\<close>

subsection \<open>The pages of a growing log\<close>

definition page_start :: "event list \<Rightarrow> nat \<Rightarrow> nat" where
  "page_start evs j = length (concat (take j (wal_pages [] evs)))"

definition wal_files :: "event list \<Rightarrow> (nat \<times> bytes) list" where
  "wal_files evs = page_files 0 (butlast (wal_pages [] evs)) @ [(length (butlast (wal_pages [] evs)), events_bytes (last (wal_pages [] evs)))]"

definition padded_log :: "event list \<Rightarrow> bool" where
  "padded_log evs \<longleftrightarrow> list_all small_event evs \<and> list_all well_padded (butlast (wal_pages [] evs)) \<and> length (wal_pages [] evs) \<le> 10000"

lemma wal_pages_append: "wal_pages cur (evs @ evs') = butlast (wal_pages cur evs) @ wal_pages (last (wal_pages cur evs)) evs'"
  by (induction cur evs rule: wal_pages.induct) auto

lemma wal_pages_grow: "\<exists>extra rest. wal_pages cur evs = (cur @ extra) # rest"
proof (induction cur evs rule: wal_pages.induct)
  case (2 cur ev evs)
  then show ?case by (cases "int (length (events_bytes cur)) + int (length (event_bytes ev)) > kWalPageSize") auto
qed simp

lemma wal_pages_prefix:
  obtains extra rest where "wal_pages [] (evs @ evs') = butlast (wal_pages [] evs) @ (last (wal_pages [] evs) @ extra) # rest"
  using wal_pages_grow [of "last (wal_pages [] evs)" evs'] wal_pages_append [of "[]" evs evs'] that by metis

lemma padded_prefix: "padded_log (evs @ evs') \<Longrightarrow> padded_log evs"
proof -
  assume pad: "padded_log (evs @ evs')"
  obtain extra rest where ps: "wal_pages [] (evs @ evs') = butlast (wal_pages [] evs) @ (last (wal_pages [] evs) @ extra) # rest"
    by (rule wal_pages_prefix)
  have "length (butlast (wal_pages [] evs)) = length (wal_pages [] evs) - 1" by simp
  moreover have "0 < length (wal_pages [] evs)" by simp
  ultimately show ?thesis using pad by (auto simp: padded_log_def ps butlast_append)
qed

lemma page_start_mono: "i \<le> j \<Longrightarrow> page_start evs i \<le> page_start evs j"
proof -
  assume "i \<le> j"
  then obtain k where "j = i + k" by (auto simp: le_iff_add)
  then show ?thesis by (simp add: page_start_def take_add)
qed

lemma page_start_Suc: "j < length (wal_pages [] evs) \<Longrightarrow> page_start evs (Suc j) = page_start evs j + length (wal_pages [] evs ! j)"
  by (simp add: page_start_def take_Suc_conv_app_nth)

lemma page_start_0 [simp]: "page_start evs 0 = 0"
  by (simp add: page_start_def)

lemma page_events:
  assumes "j < length (wal_pages [] evs)"
  shows "take (length (wal_pages [] evs ! j)) (drop (page_start evs j) evs) = wal_pages [] evs ! j"
    "page_start evs j + length (wal_pages [] evs ! j) \<le> length evs"
proof -
  let ?ps = "wal_pages [] evs"
  have "evs = concat (take j ?ps @ ?ps ! j # drop (Suc j) ?ps)" using id_take_nth_drop [OF assms] concat_wal_pages [of "[]" evs] by simp
  then have evs: "evs = concat (take j ?ps) @ ?ps ! j @ concat (drop (Suc j) ?ps)" by simp
  have "drop (length (concat (take j ?ps))) (concat (take j ?ps) @ ?ps ! j @ concat (drop (Suc j) ?ps)) = ?ps ! j @ concat (drop (Suc j) ?ps)" by simp
  then have "drop (page_start evs j) evs = ?ps ! j @ concat (drop (Suc j) ?ps)" using evs by (simp add: page_start_def)
  then show "take (length (?ps ! j)) (drop (page_start evs j) evs) = ?ps ! j" by simp
  have "length evs = length (concat (take j ?ps) @ ?ps ! j @ concat (drop (Suc j) ?ps))" using evs by (rule arg_cong)
  then show "page_start evs j + length (?ps ! j) \<le> length evs" by (simp add: page_start_def)
qed

text \<open>
  A message of the stream: page \<open>j\<close> of the log, with the first \<open>l\<close> of the events it has at the end;
  a complete page has them all.
\<close>

definition page_ok :: "event list \<Rightarrow> wal_page_data \<Rightarrow> nat \<Rightarrow> nat \<Rightarrow> bool" where
  "page_ok evs p j l \<longleftrightarrow>
     wp_position p = \<lparr>segment_no = int j, page_no = 0\<rparr> \<and> j < length (wal_pages [] evs) \<and> l \<le> length (wal_pages [] evs ! j) \<and>
     holds_events (wp_data p) (take l (drop (page_start evs j) evs)) \<and>
     (if page_completed p then l = length (wal_pages [] evs ! j) else wp_data p = events_bytes (take l (drop (page_start evs j) evs)))"

lemma page_ok_end: "page_ok evs p j l \<Longrightarrow> page_start evs j + l \<le> length evs"
  using page_events(2) [of j evs] by (auto simp: page_ok_def)

lemma events_bytes_Nil_iff: "events_bytes evs = [] \<longleftrightarrow> evs = []"
proof (cases evs)
  case (Cons ev evs')
  then show ?thesis using length_event_bytes [of ev] by (auto simp: events_bytes_def)
qed simp

lemma closed_page_ok:
  assumes pad: "padded_log (evs @ evs')" and j: "j < length (butlast (wal_pages [] evs))"
  shows "page_ok (evs @ evs') (page_at (j, segment_image (wal_pages [] evs ! j))) j (length (wal_pages [] evs ! j))"
    "page_completed (page_at (j, segment_image (wal_pages [] evs ! j)))"
proof -
  let ?ps = "wal_pages [] evs" and ?PS = "wal_pages [] (evs @ evs')"
  obtain extra rest where PS: "?PS = butlast ?ps @ (last ?ps @ extra) # rest" by (rule wal_pages_prefix)
  have eq: "?PS ! j = ?ps ! j" using j by (simp add: PS nth_append nth_butlast)
  have jl: "j < length ?PS" using j by (simp add: PS)
  have in_b: "?ps ! j \<in> set (butlast ?ps)" using j by (metis nth_butlast nth_mem)
  have wp: "well_padded (?ps ! j)" using padded_prefix [OF pad] in_b by (auto simp: padded_log_def list_all_iff)
  have fit: "list_all valid_event (?ps ! j)" "int (length (events_bytes (?ps ! j))) \<le> kWalPageSize"
    using small_pages_fit [of evs "?ps ! j"] padded_prefix [OF pad] in_set_butlastD [OF in_b] by (auto simp: padded_log_def)
  have "holds_events (segment_image (?ps ! j)) (?ps ! j)"
    using page_files_events [of "[?ps ! j]" 0] wp fit by simp
  moreover have "length (segment_image (?ps ! j)) = nat kWalPageSize" using fit(2) by (simp add: segment_image_def kWalPageSize_def)
  ultimately show "page_ok (evs @ evs') (page_at (j, segment_image (?ps ! j))) j (length (?ps ! j))"
    "page_completed (page_at (j, segment_image (?ps ! j)))" using page_events [OF jl] jl
    by (simp_all add: page_ok_def page_at_def page_completed_def eq kWalPageSize_def)
qed

lemma open_page_ok:
  assumes pad: "padded_log (evs @ evs')"
  defines "j \<equiv> length (butlast (wal_pages [] evs))"
  shows "page_ok (evs @ evs') (page_at (j, events_bytes (last (wal_pages [] evs)))) j (length (last (wal_pages [] evs)))"
    "page_start (evs @ evs') j + length (last (wal_pages [] evs)) = length evs"
proof -
  let ?ps = "wal_pages [] evs" and ?PS = "wal_pages [] (evs @ evs')"
  obtain extra rest where PS: "?PS = butlast ?ps @ (last ?ps @ extra) # rest" by (rule wal_pages_prefix)
  have J: "?PS ! j = last ?ps @ extra" "j < length ?PS" by (simp_all add: PS j_def nth_append)
  have pg: "take (length (last ?ps)) (drop (page_start (evs @ evs') j) (evs @ evs')) = last ?ps"
  proof -
    have "take (length (last ?ps)) (take (length (?PS ! j)) (drop (page_start (evs @ evs') j) (evs @ evs'))) = take (length (last ?ps)) (?PS ! j)"
      by (simp only: page_events(1) [OF J(2)])
    then show ?thesis by (simp add: J(1) min_def del: drop_append)
  qed
  have small: "list_all small_event (evs @ evs')" "list_all small_event evs" using pad by (auto simp: padded_log_def)
  have fit: "list_all valid_event (last ?ps)" "int (length (events_bytes (last ?ps))) \<le> kWalPageSize"
    using small_pages_fit [OF small(2), of "last ?ps"] by simp_all
  have FIT: "int (length (events_bytes (last ?ps @ extra))) \<le> kWalPageSize" using small_pages_fit [OF small(1) nth_mem [OF J(2)]] unfolding J(1) by simp
  have "extra = []" if "int (length (events_bytes (last ?ps))) = kWalPageSize"
    using FIT that events_bytes_Nil_iff [of extra] by (simp add: events_bytes_def)
  moreover have "holds_events (events_bytes (last ?ps)) (last ?ps)" using fit by (auto simp: holds_events_def intro: exI [of _ 0])
  ultimately show "page_ok (evs @ evs') (page_at (j, events_bytes (last ?ps))) j (length (last ?ps))"
    using J pg by (auto simp: page_ok_def page_at_def page_completed_def)
  have "page_start (evs @ evs') j = length (concat (butlast ?ps))" by (simp add: page_start_def PS j_def)
  moreover have "length (concat (butlast ?ps)) + length (last ?ps) = length evs"
    using arg_cong [OF concat_wal_pages [of "[]" evs], of length] by (cases ?ps rule: rev_cases) simp_all
  ultimately show "page_start (evs @ evs') j + length (last ?ps) = length evs" by simp
qed

subsection \<open>What a poll collects\<close>

text \<open>
  The pages from page \<open>q\<close> on that a poll found in a log of \<open>m\<close> events: consecutive, and only the
  last one may be incomplete.
\<close>

fun ships :: "event list \<Rightarrow> nat \<Rightarrow> nat \<Rightarrow> wal_page_data list \<Rightarrow> bool" where
  "ships evs m q [] \<longleftrightarrow> m \<le> page_start evs q"
| "ships evs m q (p # ps) \<longleftrightarrow>
     (\<exists>l. page_ok evs p q l \<and> page_start evs q + l \<le> m \<and> (if page_completed p then ships evs m (Suc q) ps else ps = [] \<and> m \<le> page_start evs q + l))"

text \<open>The page a position stands for: after a complete page the position is the second page of a segment, which has only one.\<close>

definition resume :: "position \<Rightarrow> nat" where
  "resume pos = nat (segment_no pos + page_no pos)"

definition page_position :: "position \<Rightarrow> bool" where
  "page_position pos \<longleftrightarrow> 0 \<le> segment_no pos \<and> (page_no pos = 0 \<or> page_no pos = 1)"

lemma page_wanted_from:
  "page_position from \<Longrightarrow> page_wanted from (n, c) \<longleftrightarrow> c \<noteq> [] \<and> resume from \<le> n"
  by (auto simp: page_position_def page_wanted_def page_at_def position_less_def resume_def)

lemma page_ok_next: "page_ok evs p j l \<Longrightarrow> page_start evs j + l \<le> page_start evs (Suc j)"
  by (auto simp: page_ok_def page_start_Suc)

lemma page_ok_completed: "page_ok evs p j l \<Longrightarrow> page_completed p \<Longrightarrow> page_start evs j + l = page_start evs (Suc j)"
  by (auto simp: page_ok_def page_start_Suc)

lemma ships_files:
  assumes "page_position from" and "\<And>i. i < length qs \<Longrightarrow> \<exists>l. page_ok evs (page_at (n + i, segment_image (qs ! i))) (n + i) l \<and> page_completed (page_at (n + i, segment_image (qs ! i)))"
    and "page_ok evs (page_at (n + length qs, c)) (n + length qs) l" "m = page_start evs (n + length qs) + l" "c = [] \<Longrightarrow> l = 0"
  shows "ships evs m (max n (resume from)) (map page_at (filter (page_wanted from) (page_files n qs @ [(n + length qs, c)])))"
  using assms(2-)
proof (induction qs arbitrary: n)
  case Nil
  show ?case
  proof (cases "resume from \<le> n")
    case True
    with Nil show ?thesis using page_ok_completed [OF Nil(2)]
      by (auto simp: page_wanted_from [OF assms(1)] max_absorb1)
  next
    case False
    then have "page_start evs (Suc n) \<le> page_start evs (resume from)" by (intro page_start_mono) simp
    with False Nil page_ok_next [OF Nil(2)] show ?thesis by (auto simp: page_wanted_from [OF assms(1)] max_absorb2)
  qed
next
  case (Cons q qs)
  from Cons.prems(1) [of 0] obtain k where k: "page_ok evs (page_at (n, segment_image q)) n k" "page_completed (page_at (n, segment_image q))" by auto
  have ne: "segment_image q \<noteq> []" using k(2) by (auto simp: page_completed_def page_at_def kWalPageSize_def)
  have "ships evs m (max (Suc n) (resume from)) (map page_at (filter (page_wanted from) (page_files (Suc n) qs @ [(Suc n + length qs, c)])))"
    using Cons.prems(1) [of "Suc _"] Cons.prems(2-) by (intro Cons.IH) auto
  moreover have "page_start evs (Suc n) \<le> m"
    using page_start_mono [of "Suc n" "n + length (q # qs)" evs] Cons.prems(3) by simp
  ultimately show ?case using k ne page_ok_completed [OF k] by (auto simp: page_wanted_from [OF assms(1)] max_def)
qed

lemma poll_ships:
  assumes pad: "padded_log (evs @ evs')" and at: "wal_at d w dir 0 [] evs" and pos: "page_position from"
  shows "\<exists>pages. CollectPagesFrom d dir from = Inr pages \<and> ships (evs @ evs') (length evs) (resume from) pages"
proof -
  let ?ps = "wal_pages [] evs" and ?c = "events_bytes (last (wal_pages [] evs))"
  note pad' = padded_prefix [OF pad]
  from wal_at_files [OF at] pad' obtain xs evss where xs: "\<forall>i \<in> fst ` set xs. i < 0"
    and wal: "wal_holds d dir (xs @ page_files 0 (butlast ?ps) @ [(length (butlast ?ps), ?c)]) (evss @ ?ps)"
    unfolding padded_log_def by auto
  have "xs = []" using xs by (cases xs) auto
  with CollectPagesFrom_pages [OF wal] have "CollectPagesFrom d dir from = Inr (map page_at (filter (page_wanted from) (page_files 0 (butlast ?ps) @ [(0 + length (butlast ?ps), ?c)])))"
    by simp
  moreover have "ships (evs @ evs') (length evs) (max 0 (resume from)) (map page_at (filter (page_wanted from) (page_files 0 (butlast ?ps) @ [(0 + length (butlast ?ps), ?c)])))"
  proof (rule ships_files [OF pos])
    show "page_ok (evs @ evs') (page_at (0 + length (butlast ?ps), ?c)) (0 + length (butlast ?ps)) (length (last ?ps))"
      using open_page_ok(1) [OF pad] by simp
    show "length evs = page_start (evs @ evs') (0 + length (butlast ?ps)) + length (last ?ps)" using open_page_ok(2) [OF pad] by simp
  qed (use closed_page_ok [OF pad] events_bytes_Nil_iff [of "last ?ps"] in \<open>auto simp: nth_butlast\<close>)
  ultimately show ?thesis by auto
qed

subsection \<open>The leader's coroutine\<close>

text \<open>
  The follower gets at least the first \<open>n\<close> events from what is sent. The reactor asks next for a page
  that begins within them; when it has sent an incomplete page, it knows it by its length.
\<close>

definition reactor_ok :: "event list \<Rightarrow> nat \<Rightarrow> reactor \<Rightarrow> bool" where
  "reactor_ok evs n r \<longleftrightarrow>
     page_position (ger_next_pos r) \<and> page_start evs (resume (ger_next_pos r)) \<le> n \<and>
     (0 \<le> ger_tail_sent_size r \<longrightarrow>
       (\<exists>l. page_start evs (resume (ger_next_pos r)) + l \<le> n \<and> page_start evs (resume (ger_next_pos r)) + l \<le> length evs \<and>
          ger_tail_sent_size r = int (length (events_bytes (take l (drop (page_start evs (resume (ger_next_pos r))) evs))))))"

fun phase_ok :: "event list \<Rightarrow> nat \<Rightarrow> nat \<Rightarrow> reactor \<Rightarrow> pump_phase \<Rightarrow> bool" where
  "phase_ok evs m n r Polling \<longleftrightarrow> reactor_ok evs n r"
| "phase_ok evs m n r Finished \<longleftrightarrow> reactor_ok evs n r"
| "phase_ok evs m n r Sleeping \<longleftrightarrow> reactor_ok evs n r \<and> m \<le> n"
| "phase_ok evs m n r (Shipping pages) \<longleftrightarrow> reactor_ok evs n r \<and> ships evs m (resume (ger_next_pos r)) pages"
| "phase_ok evs m n r (AwaitingWrite p pages) \<longleftrightarrow>
     reactor_ok evs n r \<and>
     (\<exists>l. page_ok evs p (resume (ger_next_pos r)) l \<and> page_start evs (resume (ger_next_pos r)) + l \<le> n \<and>
        (if page_completed p then ships evs m (Suc (resume (ger_next_pos r))) pages
         else m \<le> page_start evs (resume (ger_next_pos r)) + l))"

lemma events_bytes_mono: "i < j \<Longrightarrow> j \<le> length evs \<Longrightarrow> length (events_bytes (take i evs)) < length (events_bytes (take j evs))"
proof -
  assume ij: "i < j" "j \<le> length evs"
  then have "take j evs = take i evs @ take (j - i) (drop i evs)" by (metis less_imp_le take_add le_add_diff_inverse)
  moreover have "take (j - i) (drop i evs) \<noteq> []" using ij by simp
  then have "0 < length (events_bytes (take (j - i) (drop i evs)))" using events_bytes_Nil_iff by blast
  ultimately show ?thesis by simp
qed

lemma events_bytes_length_eq:
  assumes "i \<le> length evs" "j \<le> length evs" "length (events_bytes (take i evs)) = length (events_bytes (take j evs))"
  shows "i = j"
  using events_bytes_mono [of i j evs] events_bytes_mono [of j i evs] assms by (metis linorder_neqE_nat nat_neq_iff)

text \<open>A tail that was sent before has nothing new.\<close>

lemma sent_tail:
  assumes ok: "reactor_ok evs n r" and p: "page_ok evs p (resume (ger_next_pos r)) l" "\<not> page_completed p" "IsAlreadySentTail r p"
  shows "page_start evs (resume (ger_next_pos r)) + l \<le> n"
proof -
  let ?i = "page_start evs (resume (ger_next_pos r))"
  have data: "wp_data p = events_bytes (take l (drop ?i evs))" and l: "?i + l \<le> length evs"
    using p page_ok_end [OF p(1)] by (auto simp: page_ok_def)
  from p(3) have sz: "ger_tail_sent_size r = int (length (wp_data p))" by (simp add: IsAlreadySentTail_def)
  with ok obtain k where k: "?i + k \<le> n" "?i + k \<le> length evs" "ger_tail_sent_size r = int (length (events_bytes (take k (drop ?i evs))))"
    by (auto simp: reactor_ok_def)
  have "k = l" using k(2,3) l sz data by (intro events_bytes_length_eq [of k "drop ?i evs"]) auto
  with k(1) show ?thesis by simp
qed

lemma reactor_ok_mono: "reactor_ok evs n r \<Longrightarrow> n \<le> n' \<Longrightarrow> reactor_ok evs n' r"
  by (force simp: reactor_ok_def)

lemma resume_next:
  "page_ok evs p j l \<Longrightarrow> resume \<lparr>segment_no = segment_no (wp_position p), page_no = page_no (wp_position p) + 1\<rparr> = Suc j"
  by (simp add: page_ok_def resume_def nat_add_distrib)

lemma reactor_ok_sent:
  assumes "reactor_ok evs n r" "page_ok evs p (resume (ger_next_pos r)) l" "page_start evs (resume (ger_next_pos r)) + l \<le> n"
  shows "reactor_ok evs n (if page_completed p
      then r\<lparr>ger_next_pos := \<lparr>segment_no = segment_no (wp_position p), page_no = page_no (wp_position p) + 1\<rparr>, ger_tail_sent_size := -1\<rparr>
      else r\<lparr>ger_next_pos := wp_position p, ger_tail_sent_size := int (length (wp_data p))\<rparr>)"
proof (cases "page_completed p")
  case True
  moreover have "page_position \<lparr>segment_no = segment_no (wp_position p), page_no = page_no (wp_position p) + 1\<rparr>"
    using assms(2) by (simp add: page_ok_def page_position_def)
  ultimately show ?thesis using assms(3) page_ok_completed [OF assms(2) True] resume_next [OF assms(2)] by (simp add: reactor_ok_def)
next
  case False
  let ?q = "resume (ger_next_pos r)"
  have "resume (wp_position p) = ?q" "page_position (wp_position p)" using assms(2) by (auto simp: page_ok_def resume_def page_position_def)
  moreover have "wp_data p = events_bytes (take l (drop (page_start evs ?q) evs))" using assms(2) False by (simp add: page_ok_def)
  ultimately show ?thesis using assms False page_ok_end [OF assms(2)]
    by (auto simp: reactor_ok_def)
qed

lemma Pump_ok:
  assumes ok: "phase_ok evs m n r ph" and at: "wal_at d w dir 0 [] pre" and evs: "evs = pre @ post" and pad: "padded_log evs"
    and step: "Pump d dir ph r reg = Some (ph', r', reg', msg)"
  defines "m' \<equiv> if ph = Polling then length pre else m"
  shows "case msg of
      None \<Rightarrow> phase_ok evs m' n r' ph'
    | Some p \<Rightarrow> \<exists>j l. page_ok evs p j l \<and> page_start evs j \<le> n \<and> phase_ok evs m' (max n (page_start evs j + l)) r' ph'"
proof (cases ph)
  case Polling
  then have "page_position (ger_next_pos r)" using ok by (simp add: reactor_ok_def)
  from poll_ships [OF _ at this, of post] pad evs obtain pages where
    "CollectPagesFrom d dir (ger_next_pos r) = Inr pages" "ships evs (length pre) (resume (ger_next_pos r)) pages" by blast
  with Polling ok step show ?thesis by (auto simp: m'_def split: if_splits)
next
  case (Shipping pages)
  show ?thesis
  proof (cases pages)
    case Nil
    with Shipping ok step show ?thesis by (auto simp: m'_def reactor_ok_def)
  next
    case (Cons p ps)
    from ok Shipping Cons obtain l where l: "page_ok evs p (resume (ger_next_pos r)) l"
      "if page_completed p then ships evs m (Suc (resume (ger_next_pos r))) ps else ps = [] \<and> m \<le> page_start evs (resume (ger_next_pos r)) + l" by auto
    have ok': "reactor_ok evs n r" using ok Shipping by simp
    have "reactor_ok evs (max n (page_start evs (resume (ger_next_pos r)) + l)) (r\<lparr>ger_write_pending := True\<rparr>)"
      using reactor_ok_mono [OF ok', of "max n (page_start evs (resume (ger_next_pos r)) + l)"] by (simp add: reactor_ok_def)
    moreover have "m \<le> n" if "\<not> page_completed p" "IsAlreadySentTail r p"
      using sent_tail [OF ok' l(1) that] l(2) that(1) by simp
    moreover have "page_start evs (resume (ger_next_pos r)) \<le> n" using ok' by (simp add: reactor_ok_def)
    moreover have "phase_ok evs m (max n (page_start evs (resume (ger_next_pos r)) + l)) (r\<lparr>ger_write_pending := True\<rparr>) (AwaitingWrite p ps)"
      using calculation(1) l by auto
    ultimately show ?thesis using Shipping Cons step ok' l(1) unfolding m'_def
      by (auto simp del: phase_ok.simps(5) split: if_splits; blast)
  qed
next
  case (AwaitingWrite p pages)
  from ok AwaitingWrite obtain l where l: "page_ok evs p (resume (ger_next_pos r)) l" "page_start evs (resume (ger_next_pos r)) + l \<le> n"
    "if page_completed p then ships evs m (Suc (resume (ger_next_pos r))) pages else m \<le> page_start evs (resume (ger_next_pos r)) + l"
    and ok': "reactor_ok evs n r" by auto
  have "resume (wp_position p) = resume (ger_next_pos r)" using l(1) by (simp add: page_ok_def resume_def)
  with resume_next [OF l(1)] reactor_ok_sent [OF ok' l(1,2)] AwaitingWrite step l ok' show ?thesis by (auto simp: m'_def Let_def split: if_splits)
qed (use ok step in \<open>auto simp: m'_def\<close>)

subsection \<open>Messages in flight\<close>

text \<open>A follower that has \<open>n\<close> events can apply the messages one after the other and then has at least \<open>m\<close>.\<close>

fun covers :: "event list \<Rightarrow> nat \<Rightarrow> wal_page_data list \<Rightarrow> nat \<Rightarrow> bool" where
  "covers evs n [] m \<longleftrightarrow> m \<le> n"
| "covers evs n (p # ps) m \<longleftrightarrow>
     (\<exists>j l. page_ok evs p j l \<and> page_start evs j \<le> n \<and> covers evs (max n (page_start evs j + l)) ps m)"

lemma covers_snoc:
  "covers evs n ps m \<Longrightarrow> page_ok evs p j l \<Longrightarrow> page_start evs j \<le> m \<Longrightarrow> covers evs n (ps @ [p]) (max m (page_start evs j + l))"
proof (induction ps arbitrary: n)
  case Nil
  then have "page_ok evs p j l \<and> page_start evs j \<le> n \<and> max m (page_start evs j + l) \<le> max n (page_start evs j + l)" by auto
  then show ?case by (simp only: append_Nil covers.simps) blast
qed fastforce

text \<open>The segments a follower has complete are segments whose events it has applied.\<close>

definition mirrored :: "event list \<Rightarrow> nat \<Rightarrow> disk \<Rightarrow> string \<Rightarrow> bool" where
  "mirrored evs n d dir \<longleftrightarrow> (\<forall>j. complete_segment d dir j \<longrightarrow> page_start evs (Suc j) \<le> n)"

lemma WriteReceivedPage_file:
  "map_of (WriteReceivedPage d dir (int j) data) (segment_path dir (int i)) =
     (if i = j then Some data else map_of d (segment_path dir (int i)))"
  by (auto simp: WriteReceivedPage_def fw_Open_def fw_Write_def fw_FSync_def Let_def segment_path_numbered update_conv' dom_update)

lemma mirrored_write:
  assumes "mirrored evs n d dir" "page_ok evs p j l" "n \<le> n'" "page_start evs j + l \<le> n'"
  shows "mirrored evs n' (WriteReceivedPage d dir (int j) (wp_data p)) dir"
  unfolding mirrored_def
proof (intro allI impI)
  fix i
  assume full: "complete_segment (WriteReceivedPage d dir (int j) (wp_data p)) dir i"
  show "page_start evs (Suc i) \<le> n'"
  proof (cases "i = j")
    case True
    have "int (length (wp_data p)) \<le> kWalPageSize" using assms(2) by (auto simp: page_ok_def holds_events_def)
    then have "page_completed p" using full True by (simp add: complete_segment_def io_FileSize_def WriteReceivedPage_file page_completed_def)
    from page_ok_completed [OF assms(2) this] True assms(4) show ?thesis by simp
  next
    case False
    then have "complete_segment d dir i" using full by (simp add: complete_segment_def io_FileSize_def WriteReceivedPage_file)
    then show ?thesis using assms(1,3) by (auto simp: mirrored_def)
  qed
qed

lemma mirrored_next:
  assumes "mirrored evs n d dir" "NextSegmentToFetch d dir = Some q"
  shows "0 \<le> q" "page_start evs (nat q) \<le> n"
proof -
  from NextSegmentToFetch_lowest [of d dir] assms(2) obtain k where k: "q = int k" "\<forall>i < k. complete_segment d dir i" by auto
  then show "0 \<le> q" by simp
  have "page_start evs k \<le> n" using k(2) assms(1) by (cases k) (auto simp: mirrored_def)
  then show "page_start evs (nat q) \<le> n" using k(1) by simp
qed

subsection \<open>Leader, stream and follower\<close>

text \<open>
  The directory and the writer of the leader's log with the events written so far, the coroutine
  that serves the follower, the messages on their way and the follower. \<open>rs_polled\<close> remembers
  how long the log was at the last poll.
\<close>

record replication =
  rs_disk :: disk
  rs_writer :: wal_writer
  rs_events :: "event list"
  rs_registry :: follower_registry
  rs_phase :: pump_phase
  rs_reactor :: reactor
  rs_polled :: nat
  rs_stream :: "wal_page_data list"
  rs_follower :: database

text \<open>
  In any order: the leader writes an event; it writes files in other directories; the coroutine moves; a write is reported done, well or
  not; the call is cancelled; the follower gets the next message, and an exception there breaks the
  stream; the stream is lost with the messages on it and the follower connects again, with a token
  that no other follower has; other followers come, move on and go.
\<close>

inductive repl_step :: "string \<Rightarrow> replication \<Rightarrow> replication \<Rightarrow> bool" for dir where
  write_log: "ww_Write (rs_disk s) (rs_writer s) ev = (d, w) \<Longrightarrow>
     repl_step dir s (s\<lparr>rs_disk := d, rs_writer := w, rs_events := rs_events s @ [ev]\<rparr>)"
| other_files: "same_in dir (rs_disk s) d \<Longrightarrow> distinct (map fst d) \<Longrightarrow> repl_step dir s (s\<lparr>rs_disk := d\<rparr>)"
| pump: "Pump (rs_disk s) dir (rs_phase s) (rs_reactor s) (rs_registry s) = Some (ph, r, reg, msg) \<Longrightarrow>
     repl_step dir s (s\<lparr>rs_phase := ph, rs_reactor := r, rs_registry := reg,
       rs_polled := (if rs_phase s = Polling then length (rs_events s) else rs_polled s),
       rs_stream := rs_stream s @ (case msg of None \<Rightarrow> [] | Some p \<Rightarrow> [p])\<rparr>)"
| write_done: "repl_step dir s (s\<lparr>rs_reactor := ger_OnWriteDone ok (rs_reactor s)\<rparr>)"
| cancel: "repl_step dir s (s\<lparr>rs_reactor := ger_OnCancel (rs_reactor s)\<rparr>)"
| deliver: "rs_stream s = p # ps \<Longrightarrow>
     ProcessPage (rs_follower s) (db_base_dir (rs_follower s) @ ''/wal'') (segment_no (wp_position p)) (wp_data p) = (db, e) \<Longrightarrow>
     repl_step dir s (s\<lparr>rs_stream := (if e = None then ps else []), rs_follower := db\<rparr>)"
| reconnect: "NextSegmentToFetch (db_disk (rs_follower s)) (db_base_dir (rs_follower s) @ ''/wal'') = Some q \<Longrightarrow>
     GetEventsReactor (ger_OnDone (rs_reactor s) (rs_registry s)) \<lparr>segment_no = q, page_no = 0\<rparr> = (r, reg) \<Longrightarrow>
     map_of (reg_positions (ger_OnDone (rs_reactor s) (rs_registry s))) (ger_token r) = None \<Longrightarrow>
     repl_step dir s (s\<lparr>rs_phase := Polling, rs_reactor := r, rs_registry := reg, rs_stream := []\<rparr>)"
| other_followers: "map_of (reg_positions reg) (ger_token (rs_reactor s)) = map_of (reg_positions (rs_registry s)) (ger_token (rs_reactor s)) \<Longrightarrow>
     repl_step dir s (s\<lparr>rs_registry := reg\<rparr>)"

definition repl_inv :: "crc32 \<Rightarrow> string \<Rightarrow> lsm_options \<Rightarrow> storage_logs \<Rightarrow> event list \<Rightarrow> replication \<Rightarrow> bool" where
  "repl_inv crc dir opts logs evs s \<longleftrightarrow>
     wal_at (rs_disk s) (rs_writer s) dir 0 [] (rs_events s) \<and> db_lsm_options (rs_follower s) = opts \<and>
     (\<exists>n m. n \<le> length evs \<and> follows crc (rs_follower s) logs (take n evs) \<and>
        mirrored evs n (db_disk (rs_follower s)) (db_base_dir (rs_follower s) @ ''/wal'') \<and>
        covers evs n (rs_stream s) m \<and> phase_ok evs (rs_polled s) m (rs_reactor s) (rs_phase s))"

lemma repl_invI:
  assumes "wal_at (rs_disk s) (rs_writer s) dir 0 [] (rs_events s)" "db_lsm_options (rs_follower s) = opts"
    and "n \<le> length evs" "follows crc (rs_follower s) logs (take n evs)"
    and "mirrored evs n (db_disk (rs_follower s)) (db_base_dir (rs_follower s) @ ''/wal'')"
    and "covers evs n (rs_stream s) m" "phase_ok evs (rs_polled s) m (rs_reactor s) (rs_phase s)"
  shows "repl_inv crc dir opts logs evs s"
  using assms by (auto simp: repl_inv_def)

lemma repl_invE:
  assumes "repl_inv crc dir opts logs evs s"
  obtains n m where "wal_at (rs_disk s) (rs_writer s) dir 0 [] (rs_events s)" "db_lsm_options (rs_follower s) = opts"
    and "n \<le> length evs" "follows crc (rs_follower s) logs (take n evs)"
    and "mirrored evs n (db_disk (rs_follower s)) (db_base_dir (rs_follower s) @ ''/wal'')"
    and "covers evs n (rs_stream s) m" "phase_ok evs (rs_polled s) m (rs_reactor s) (rs_phase s)"
  using assms by (auto simp: repl_inv_def)

lemma repl_inv_write:
  assumes "repl_inv crc dir opts logs evs s" "ww_Write (rs_disk s) (rs_writer s) ev = (d, w)" "small_event ev"
  shows "repl_inv crc dir opts logs evs (s\<lparr>rs_disk := d, rs_writer := w, rs_events := rs_events s @ [ev]\<rparr>)"
  using assms(1)
proof (rule repl_invE)
  fix n m
  assume "wal_at (rs_disk s) (rs_writer s) dir 0 [] (rs_events s)"
  from wal_at_Write [OF this assms(3,2)] have "wal_at d w dir 0 [] (rs_events s @ [ev])" .
  then show ?thesis using assms(1) by (simp add: repl_inv_def)
qed

lemma repl_inv_pump:
  assumes inv: "repl_inv crc dir opts logs evs s" and pad: "padded_log evs" and evs: "evs = rs_events s @ post"
    and step: "Pump (rs_disk s) dir (rs_phase s) (rs_reactor s) (rs_registry s) = Some (ph, r, reg, msg)"
  shows "repl_inv crc dir opts logs evs (s\<lparr>rs_phase := ph, rs_reactor := r, rs_registry := reg,
       rs_polled := (if rs_phase s = Polling then length (rs_events s) else rs_polled s),
       rs_stream := rs_stream s @ (case msg of None \<Rightarrow> [] | Some p \<Rightarrow> [p])\<rparr>)"
  using inv
proof (rule repl_invE)
  fix n m
  assume at: "wal_at (rs_disk s) (rs_writer s) dir 0 [] (rs_events s)" and opts: "db_lsm_options (rs_follower s) = opts"
    and n: "n \<le> length evs" and f: "follows crc (rs_follower s) logs (take n evs)"
    and mi: "mirrored evs n (db_disk (rs_follower s)) (db_base_dir (rs_follower s) @ ''/wal'')"
    and cov: "covers evs n (rs_stream s) m" and ph: "phase_ok evs (rs_polled s) m (rs_reactor s) (rs_phase s)"
  note ok = Pump_ok [OF ph at evs pad step]
  show ?thesis
  proof (cases msg)
    case None
    show ?thesis by (rule repl_invI [where n = n and m = m]) (use at opts n f mi cov ok None in simp_all)
  next
    case (Some p)
    with ok obtain j l where j: "page_ok evs p j l" "page_start evs j \<le> m"
      "phase_ok evs (if rs_phase s = Polling then length (rs_events s) else rs_polled s) (max m (page_start evs j + l)) r ph" by auto
    show ?thesis
      by (rule repl_invI [where n = n and m = "max m (page_start evs j + l)"]) (use at opts n f mi covers_snoc [OF cov j(1,2)] j(3) Some in simp_all)
  qed
qed

lemma repl_inv_reactor:
  assumes inv: "repl_inv crc dir opts logs evs s" and "ger_next_pos r = ger_next_pos (rs_reactor s)" "ger_tail_sent_size r = ger_tail_sent_size (rs_reactor s)"
  shows "repl_inv crc dir opts logs evs (s\<lparr>rs_reactor := r\<rparr>)"
proof -
  have "reactor_ok evs n r = reactor_ok evs n (rs_reactor s)" for n using assms(2,3) by (simp add: reactor_ok_def)
  then have "phase_ok evs (rs_polled s) m r (rs_phase s) = phase_ok evs (rs_polled s) m (rs_reactor s) (rs_phase s)" for m
    using assms(2) by (cases "rs_phase s") simp_all
  then show ?thesis using inv by (simp add: repl_inv_def)
qed

lemma repl_inv_deliver:
  assumes inv: "repl_inv crc dir opts logs evs s" and ld: "leader_log opts logs evs" and st: "rs_stream s = p # ps"
    and pp: "ProcessPage (rs_follower s) (db_base_dir (rs_follower s) @ ''/wal'') (segment_no (wp_position p)) (wp_data p) = (db, e)"
  shows "e = None" "repl_inv crc dir opts logs evs (s\<lparr>rs_stream := (if e = None then ps else []), rs_follower := db\<rparr>)"
proof -
  let ?dir = "db_base_dir (rs_follower s) @ ''/wal''"
  obtain n m where at: "wal_at (rs_disk s) (rs_writer s) dir 0 [] (rs_events s)" and opts: "db_lsm_options (rs_follower s) = opts"
    and n: "n \<le> length evs" and f: "follows crc (rs_follower s) logs (take n evs)" and mi: "mirrored evs n (db_disk (rs_follower s)) ?dir"
    and cov: "covers evs n (rs_stream s) m" and ph: "phase_ok evs (rs_polled s) m (rs_reactor s) (rs_phase s)" using inv by (rule repl_invE)
  from cov st obtain j l where j: "page_ok evs p j l" "page_start evs j \<le> n" "covers evs (max n (page_start evs j + l)) ps m" by auto
  have h: "holds_events (wp_data p) (take l (drop (page_start evs j) evs))" and seg: "segment_no (wp_position p) = int j"
    using j(1) by (simp_all add: page_ok_def)
  note le = page_ok_end [OF j(1)]
  from ProcessPage_range [OF f _ j(2) le h, of j] ld opts pp [unfolded seg] have e: "e = None"
    and db: "follows crc db logs (take (max n (page_start evs j + l)) evs)" "db_base_dir db = db_base_dir (rs_follower s)"
      "db_lsm_options db = opts" "db_disk db = WriteReceivedPage (db_disk (rs_follower s)) ?dir (int j) (wp_data p)" by auto
  from e show "e = None" .
  have "mirrored evs (max n (page_start evs j + l)) (db_disk db) (db_base_dir db @ ''/wal'')"
    unfolding db(2,4) by (rule mirrored_write [OF mi j(1)]) simp_all
  then show "repl_inv crc dir opts logs evs (s\<lparr>rs_stream := (if e = None then ps else []), rs_follower := db\<rparr>)"
    by (intro repl_invI [where n = "max n (page_start evs j + l)" and m = m]) (use at n le db(1,3) j(3) ph e in simp_all)
qed

lemma repl_inv_reconnect:
  assumes inv: "repl_inv crc dir opts logs evs s"
    and q: "NextSegmentToFetch (db_disk (rs_follower s)) (db_base_dir (rs_follower s) @ ''/wal'') = Some q"
    and r: "GetEventsReactor reg0 \<lparr>segment_no = q, page_no = 0\<rparr> = (r, reg)"
  shows "repl_inv crc dir opts logs evs (s\<lparr>rs_phase := Polling, rs_reactor := r, rs_registry := reg, rs_stream := []\<rparr>)"
  using inv
proof (rule repl_invE)
  fix n m
  assume at: "wal_at (rs_disk s) (rs_writer s) dir 0 [] (rs_events s)" and opts: "db_lsm_options (rs_follower s) = opts"
    and n: "n \<le> length evs" and f: "follows crc (rs_follower s) logs (take n evs)"
    and mi: "mirrored evs n (db_disk (rs_follower s)) (db_base_dir (rs_follower s) @ ''/wal'')"
  have "reactor_ok evs n r"
    using mirrored_next [OF mi q] r by (auto simp: GetEventsReactor_def reactor_ok_def page_position_def resume_def split: prod.splits)
  then show ?thesis by (intro repl_invI [where n = n and m = n]) (use at opts n f mi in simp_all)
qed

end
