(* ===== verification/Replication_Restart.thy ===== *)
theory Replication_Restart
  imports Replication_Stream
begin

section \<open>Replication after a restart of the leader\<close>

text \<open>
  A restarted leader opens a new segment; the last segment of the run before is never completed. The
  coroutine that streams the log takes an incomplete page for the end of the log and waits for it
  to grow. Whatever follows in the log is not sent any more.
\<close>

subsection \<open>The log of a restarted leader\<close>

text \<open>Segments \<open>xs\<close> of earlier runs, and the segments of this run.\<close>

definition log_after :: "(nat \<times> bytes) list \<Rightarrow> disk \<Rightarrow> wal_writer \<Rightarrow> string \<Rightarrow> bool" where
  "log_after xs d w dir \<longleftrightarrow>
     (\<exists>zs n cur. ww_rep d w dir (xs @ zs) n cur \<and> int (length (events_bytes cur)) \<le> kWalPageSize \<and>
        (\<forall>(i, c) \<in> set zs. int (length c) \<le> kWalPageSize))"

lemma segment_image_length: "int (length (events_bytes p)) \<le> kWalPageSize \<Longrightarrow> length (segment_image p) = nat kWalPageSize"
  by (simp add: segment_image_def kWalPageSize_def)

lemma log_after_Write:
  assumes log: "log_after xs d w dir" and small: "small_event ev" and wr: "ww_Write d w ev = (d', w')"
  shows "log_after xs d' w' dir" "ww_segment_no w \<le> ww_segment_no w'"
proof -
  from log obtain zs n cur where rep: "ww_rep d w dir (xs @ zs) n cur" and cur: "int (length (events_bytes cur)) \<le> kWalPageSize"
    and zs: "\<forall>(i, c) \<in> set zs. int (length c) \<le> kWalPageSize" by (auto simp: log_after_def)
  let ?ps = "wal_pages cur [ev]"
  have rep': "ww_rep d' w' dir (xs @ zs @ page_files n (butlast ?ps)) (n + length (butlast ?ps)) (last ?ps)"
    using ww_WriteAll_rep [OF rep, of "[ev]" d' w'] cur small wr by simp
  moreover have "int (length (events_bytes (last ?ps))) \<le> kWalPageSize" using small by (simp add: small_event_def)
  moreover have "\<forall>(i, c) \<in> set (page_files n (butlast ?ps)). int (length c) \<le> kWalPageSize"
    using segment_image_length [OF cur] by (simp add: kWalPageSize_def)
  ultimately show "log_after xs d' w' dir" using zs unfolding log_after_def
    by (intro exI [of _ "zs @ page_files n (butlast ?ps)"] exI [of _ "n + length (butlast ?ps)"] exI [of _ "last ?ps"]) auto
  show "ww_segment_no w \<le> ww_segment_no w'" using rep rep' by (simp add: ww_rep_def)
qed

lemma log_after_collect:
  assumes log: "log_after xs d w dir" and few: "ww_segment_no w < 10000" and xs: "\<forall>(i, c) \<in> set xs. int (length c) \<le> kWalPageSize"
  obtains zs where "CollectPagesFrom d dir from = Inr (map page_at (filter (page_wanted from) (xs @ zs)))"
    "sorted_wrt (<) (map fst (xs @ zs))"
proof -
  from log obtain zs n cur where rep: "ww_rep d w dir (xs @ zs) n cur" and cur: "int (length (events_bytes cur)) \<le> kWalPageSize"
    and zs: "\<forall>(i, c) \<in> set zs. int (length c) \<le> kWalPageSize" by (auto simp: log_after_def)
  let ?ys = "xs @ zs @ [(n, events_bytes cur)]"
  have h: "dir_holds d dir ''.wal.sdb'' ?ys" and n: "n < 10000" using rep few by (simp_all add: ww_rep_def)
  then have sorted: "sorted_wrt (<) (map fst ?ys)" by (simp add: dir_holds_def)
  then have "\<forall>(i, c) \<in> set ?ys. i \<le> n" by (force simp: sorted_wrt_append)
  then have "\<forall>(i, c) \<in> set ?ys. i < 10000 \<and> int (length c) \<le> kWalPageSize" using n xs zs cur by fastforce
  from CollectPagesFrom_files [OF h this, of "from"] sorted show thesis by (intro that [of "zs @ [(n, events_bytes cur)]"]) simp_all
qed

subsection \<open>Stuck at an incomplete page\<close>

definition before :: "nat \<Rightarrow> wal_page_data \<Rightarrow> bool" where
  "before j p \<longleftrightarrow> 0 \<le> segment_no (wp_position p) \<and> segment_no (wp_position p) < int j"

definition not_past :: "nat \<Rightarrow> reactor \<Rightarrow> bool" where
  "not_past j r \<longleftrightarrow> \<not> position_less \<lparr>segment_no = int j, page_no = 0\<rparr> (ger_next_pos r)"

definition stops_at :: "nat \<Rightarrow> bytes \<Rightarrow> wal_page_data list \<Rightarrow> bool" where
  "stops_at j c pages \<longleftrightarrow> (\<exists>ps qs. pages = ps @ page_at (j, c) # qs \<and> (\<forall>p \<in> set ps. before j p))"

fun stuck_phase :: "nat \<Rightarrow> bytes \<Rightarrow> pump_phase \<Rightarrow> bool" where
  "stuck_phase j c (Shipping pages) \<longleftrightarrow> stops_at j c pages"
| "stuck_phase j c (AwaitingWrite p pages) \<longleftrightarrow> p = page_at (j, c) \<or> before j p \<and> stops_at j c pages"
| "stuck_phase j c _ \<longleftrightarrow> True"

lemma stops_at_Cons: "stops_at j c (p # pages) \<Longrightarrow> p = page_at (j, c) \<or> before j p \<and> stops_at j c pages"
  by (auto simp: stops_at_def Cons_eq_append_conv)

lemma collect_stops:
  assumes log: "log_after (xs @ [(j, c)]) d w dir" and few: "ww_segment_no w < 10000"
    and xs: "\<forall>(i, c) \<in> set (xs @ [(j, c)]). int (length c) \<le> kWalPageSize" and c: "c \<noteq> []" and r: "not_past j r"
  obtains pages where "CollectPagesFrom d dir (ger_next_pos r) = Inr pages" "stops_at j c pages"
proof -
  obtain zs where zs: "CollectPagesFrom d dir (ger_next_pos r) = Inr (map page_at (filter (page_wanted (ger_next_pos r)) ((xs @ [(j, c)]) @ zs)))"
    "sorted_wrt (<) (map fst ((xs @ [(j, c)]) @ zs))" by (rule log_after_collect [OF log few xs])
  have "page_wanted (ger_next_pos r) (j, c)" using c r by (simp add: page_wanted_def page_at_def not_past_def)
  moreover have "\<forall>x \<in> set xs. before j (page_at x)" using zs(2) by (auto simp: sorted_wrt_append before_def page_at_def)
  ultimately have "stops_at j c (map page_at (filter (page_wanted (ger_next_pos r)) ((xs @ [(j, c)]) @ zs)))"
    unfolding stops_at_def
    by - (rule exI [of _ "map page_at (filter (page_wanted (ger_next_pos r)) xs)"],
      rule exI [of _ "map page_at (filter (page_wanted (ger_next_pos r)) zs)"], auto)
  with zs(1) show thesis by (rule that)
qed

lemma Pump_stuck:
  assumes step: "Pump d dir ph r reg = Some (ph', r', reg', msg)" and ph: "stuck_phase j c ph" and r: "not_past j r"
    and poll: "\<And>r. not_past j r \<Longrightarrow> \<exists>pages. CollectPagesFrom d dir (ger_next_pos r) = Inr pages \<and> stops_at j c pages"
    and c: "int (length c) < kWalPageSize"
  shows "stuck_phase j c ph' \<and> not_past j r' \<and> (\<forall>p. msg = Some p \<longrightarrow> before j p \<or> p = page_at (j, c))"
proof -
  have inc: "\<not> page_completed (page_at (j, c))" using c by (simp add: page_completed_def page_at_def)
  have less: "\<not> position_less \<lparr>segment_no = int j, page_no = 0\<rparr> \<lparr>segment_no = segment_no (wp_position p), page_no = k\<rparr>"
    "\<not> position_less \<lparr>segment_no = int j, page_no = 0\<rparr> (wp_position p)" if "before j p" for p k
    using that by (auto simp: before_def position_less_def)
  have at: "\<not> position_less \<lparr>segment_no = int j, page_no = 0\<rparr> (wp_position (page_at (j, c)))" by (simp add: position_less_def page_at_def)
  show ?thesis
  proof (cases ph)
    case Polling
    with poll [OF r] step r show ?thesis by (auto split: if_splits)
  next
    case (Shipping pages)
    show ?thesis
    proof (cases pages)
      case Nil
      with Shipping ph show ?thesis by (simp add: stops_at_def)
    next
      case (Cons p ps)
      with Shipping ph have "p = page_at (j, c) \<or> before j p \<and> stops_at j c ps" by (simp add: stops_at_Cons)
      with Shipping Cons step r show ?thesis by (auto simp: not_past_def split: if_splits)
    qed
  next
    case (AwaitingWrite p ps)
    with ph step r inc less at show ?thesis by (auto simp: not_past_def Let_def split: if_splits)
  qed (use step r in \<open>auto simp: not_past_def\<close>)
qed

subsection \<open>The follower\<close>

lemma ev_Apply_disk: "ev_Apply ev db = Inr db' \<Longrightarrow> db_disk db' = db_disk db \<and> db_base_dir db' = db_base_dir db"
  by (cases ev) (auto simp: db_EnsureStorageForRecover_def set_storage_def bindE_def Let_def split: option.splits sum.splits)

lemma process_events_disk: "db_disk (fst (process_events rd db)) = db_disk db \<and> db_base_dir (fst (process_events rd db)) = db_base_dir db"
proof (induction rd db rule: process_events.induct)
  case (1 rd db)
  show ?case
  proof (cases "br_HasMore rd")
    case True
    show ?thesis
    proof (cases "ParseEvent rd")
      case (Inr x)
      with 1 [OF True Inr] True show ?thesis
        by (subst (1 2) process_events.simps) (auto split: sum.splits dest!: ev_Apply_disk)
    qed (simp add: process_events.simps [of rd db] True)
  qed (simp add: process_events.simps [of rd db])
qed

lemma ProcessPage_disk:
  assumes "ProcessPage db dir seg data = (db', e)"
  shows "db_disk db' = WriteReceivedPage (db_disk db) dir seg data" "db_base_dir db' = db_base_dir db"
  using assms process_events_disk [of "BufferReader data" "db\<lparr>db_disk := WriteReceivedPage (db_disk db) dir seg data\<rparr>"]
  by (auto simp: ProcessPage_def)

lemma incomplete_write:
  assumes "\<not> complete_segment d dir j" and "before j p \<or> p = page_at (j, c)" and "int (length c) < kWalPageSize"
  shows "\<not> complete_segment (WriteReceivedPage d dir (segment_no (wp_position p)) (wp_data p)) dir j"
proof -
  obtain k where k: "segment_no (wp_position p) = int k" "k = j \<longrightarrow> wp_data p = c"
    using assms(2) by (cases "segment_no (wp_position p)") (auto simp: before_def page_at_def)
  then show ?thesis using assms(1,3) by (auto simp: complete_segment_def io_FileSize_def WriteReceivedPage_file)
qed

subsection \<open>Every run\<close>

definition stuck :: "(nat \<times> bytes) list \<Rightarrow> nat \<Rightarrow> bytes \<Rightarrow> string \<Rightarrow> replication \<Rightarrow> bool" where
  "stuck xs j c dir s \<longleftrightarrow>
     log_after (xs @ [(j, c)]) (rs_disk s) (rs_writer s) dir \<and> stuck_phase j c (rs_phase s) \<and> not_past j (rs_reactor s) \<and>
     (\<forall>p \<in> set (rs_stream s). before j p \<or> p = page_at (j, c)) \<and>
     \<not> complete_segment (db_disk (rs_follower s)) (db_base_dir (rs_follower s) @ ''/wal'') j"

lemma stuck_step:
  assumes step: "repl_step dir s s'" and st: "stuck xs j c dir s" and c: "c \<noteq> []" "int (length c) < kWalPageSize"
    and xs: "\<forall>(i, c) \<in> set xs. int (length c) \<le> kWalPageSize" and few: "ww_segment_no (rs_writer s) < 10000"
    and small: "list_all small_event (rs_events s')"
  shows "stuck xs j c dir s'"
  using step
proof cases
  case (write_log ev d w)
  with st small log_after_Write(1) [OF _ _ write_log(2)] show ?thesis by (auto simp: stuck_def)
next
  case (other_files d)
  then have "log_after (xs @ [(j, c)]) d (rs_writer s) dir"
    using st dir_holds_frame [of "rs_disk s" dir "''.wal.sdb''" _ d] unfolding stuck_def log_after_def ww_rep_def by fastforce
  with other_files st show ?thesis by (auto simp: stuck_def)
next
  case (pump ph r reg msg)
  have log: "log_after (xs @ [(j, c)]) (rs_disk s) (rs_writer s) dir" using st by (simp add: stuck_def)
  have "\<forall>(i, c) \<in> set (xs @ [(j, c)]). int (length c) \<le> kWalPageSize" using xs c by auto
  note collect_stops [OF log few this c(1)]
  then have poll: "\<exists>pages. CollectPagesFrom (rs_disk s) dir (ger_next_pos r) = Inr pages \<and> stops_at j c pages" if "not_past j r" for r
    using that by metis
  from Pump_stuck [OF pump(2) _ _ poll c(2)] st show ?thesis unfolding pump(1) by (auto simp: stuck_def split: option.splits)
next
  case (write_done ok)
  with st show ?thesis by (auto simp: stuck_def not_past_def ger_OnWriteDone_def)
next
  case cancel
  with st show ?thesis by (auto simp: stuck_def not_past_def ger_OnCancel_def)
next
  case (deliver p ps db e)
  have "before j p \<or> p = page_at (j, c)" using st deliver(2) by (auto simp: stuck_def)
  with ProcessPage_disk [OF deliver(3)] incomplete_write [OF _ _ c(2)] st deliver(1,2) show ?thesis by (auto simp: stuck_def)
next
  case (reconnect q r reg)
  let ?d = "db_disk (rs_follower s)" and ?dir = "db_base_dir (rs_follower s) @ ''/wal''"
  from NextSegmentToFetch_lowest [of ?d ?dir] reconnect(2) obtain k where k: "q = int k" "\<forall>i < k. complete_segment ?d ?dir i" by auto
  then have "k \<le> j" using st by (force simp: stuck_def not_less)
  then have "not_past j r" using reconnect(3) k(1) by (auto simp: GetEventsReactor_def not_past_def position_less_def split: prod.splits)
  with reconnect(1) st show ?thesis by (simp add: stuck_def)
next
  case (other_followers reg)
  with st show ?thesis by (simp add: stuck_def)
qed

lemma repl_step_grows:
  assumes "repl_step dir s s'"
  shows "ww_segment_no (rs_writer s) \<le> ww_segment_no (rs_writer s')" "\<exists>new. rs_events s' = rs_events s @ new"
proof -
  have grows: "ww_segment_no w \<le> ww_segment_no (snd (ww_Write d w ev))" for d w ev
    by (auto simp: ww_Write_def ww_FlushPage_def ww_FlushSegment_def ww_OpenSegment_def Let_def split: prod.splits)
  from assms show "ww_segment_no (rs_writer s) \<le> ww_segment_no (rs_writer s')"
  proof cases
    case (write_log ev d w)
    with grows [of "rs_writer s" "rs_disk s" ev] show ?thesis by simp
  qed auto
  show "\<exists>new. rs_events s' = rs_events s @ new" using assms by cases auto
qed

lemma stuck_run:
  assumes "(repl_step dir)\<^sup>*\<^sup>* s s'" "stuck xs j c dir s" "c \<noteq> []" "int (length c) < kWalPageSize"
    and "\<forall>(i, c) \<in> set xs. int (length c) \<le> kWalPageSize" "ww_segment_no (rs_writer s') < 10000" "list_all small_event (rs_events s')"
  shows "stuck xs j c dir s'"
  using assms(1,6,7)
proof (induction rule: rtranclp_induct)
  case base
  show ?case by (rule assms(2))
next
  case (step s1 s2)
  from repl_step_grows [OF step.hyps(2)] step.prems have s1: "ww_segment_no (rs_writer s1) < 10000" "list_all small_event (rs_events s1)" by auto
  from stuck_step [OF step.hyps(2) step.IH [OF s1] assms(3-5) s1(1) step.prems(2)] show ?case .
qed

lemma stuck_restart:
  assumes wal: "wal_holds d dir (xs @ [(j, c)]) evss" and "Writer_Open d dir = (rs_disk s, rs_writer s)"
    and "rs_phase s = Polling" "not_past j (rs_reactor s)" "rs_stream s = []"
    and "\<not> complete_segment (db_disk (rs_follower s)) (db_base_dir (rs_follower s) @ ''/wal'') j"
  shows "stuck xs j c dir s" "\<forall>(i, c) \<in> set xs. int (length c) \<le> kWalPageSize"
proof -
  from Writer_Open_rep [OF wal assms(2)] have "log_after (xs @ [(j, c)]) (rs_disk s) (rs_writer s) dir"
    unfolding log_after_def by (intro exI [of _ "[]"] exI [of _ "Suc j"]) (simp add: kWalPageSize_def)
  then show "stuck xs j c dir s" using assms(3-) by (simp add: stuck_def)
  from wal have "list_all2 (\<lambda>x evs. holds_events (snd x) evs) (xs @ [(j, c)]) evss" by (simp add: wal_holds_def)
  then have "\<forall>x \<in> set (xs @ [(j, c)]). \<exists>evs. holds_events (snd x) evs" by (induction rule: list_all2_induct) auto
  then show "\<forall>(i, c) \<in> set xs. int (length c) \<le> kWalPageSize" by (auto simp: holds_events_def)
qed

lemma stuck_new_segments: "stuck xs j c dir s \<Longrightarrow> int j < ww_segment_no (rs_writer s)"
  by (auto simp: stuck_def log_after_def ww_rep_def dir_holds_def sorted_wrt_append)



end
