(* ===== verification/Replication_Runs.thy ===== *)
theory Replication_Runs
  imports Replication_Stream
begin

section \<open>Runs of leader and follower\<close>

text \<open>
  The invariant of leader, stream and follower holds whatever the interleaving, a follower that has the whole log
  reads as its leader, and the loop of a follower goes on over any connections.
\<close>

definition repl_init :: "string \<Rightarrow> database \<Rightarrow> replication" where
  "repl_init dir f =
     (let (d, w) = Writer_Open [] dir;
          (r, reg) = GetEventsReactor FollowerRegistry \<lparr>segment_no = 0, page_no = 0\<rparr>
      in \<lparr>rs_disk = d, rs_writer = w, rs_events = [], rs_registry = reg, rs_phase = Polling, rs_reactor = r,
          rs_polled = 0, rs_stream = [], rs_follower = f\<rparr>)"

subsection \<open>A new follower\<close>

lemma empty_directory:
  assumes "dirs_ok db sids" "sid \<notin> insert kWal sids"
  shows "io_ListDirectory (db_disk db) (db_base_dir db @ ''/'' @ sid) = []"
proof -
  have "\<not> in_directory (db_base_dir db @ ''/'' @ sid) path" if "path \<in> fst ` set (db_disk db)" for path
  proof
    assume a: "in_directory (db_base_dir db @ ''/'' @ sid) path"
    from that assms(1) obtain sid' where "sid' \<in> insert kWal sids" "in_directory (db_base_dir db @ ''/'' @ sid') path"
      unfolding dirs_ok_def by blast
    with in_directory_unique [OF a] assms(2) show False by auto
  qed
  then show ?thesis by (auto simp: io_ListDirectory_def filter_empty_conv)
qed

lemma new_follower_mirrors:
  assumes "wal_at d w dir 0 [] []"
  shows "\<not> complete_segment d dir j"
proof
  assume "complete_segment d dir j"
  then obtain c where c: "map_of d (numbered_path dir ''.wal.sdb'' j) = Some c" "int (length c) \<ge> kWalPageSize"
    by (auto simp: complete_segment_def io_FileSize_def segment_path_numbered kWalPageSize_def split: option.splits)
  from wal_at_files [OF assms] obtain xs evss where xs: "\<forall>i \<in> fst ` set xs. i < 0" "wal_holds d dir (xs @ [(0, [])]) evss" by auto
  have "xs = []" using xs(1) by (cases xs) auto
  with xs(2) have h: "dir_holds d dir ''.wal.sdb'' [(0, [])]" by (simp add: wal_holds_def)
  have "numbered_path dir ''.wal.sdb'' j \<in> fst ` set d" using map_of_SomeD [OF c(1)] by force
  moreover have "in_directory dir (numbered_path dir ''.wal.sdb'' j)" by (simp add: in_directory_numbered)
  ultimately have "numbered_path dir ''.wal.sdb'' j = numbered_path dir ''.wal.sdb'' 0" using h unfolding dir_holds_def by fastforce
  then have "j = 0" by simp
  with h c show False by (simp add: dir_holds_def kWalPageSize_def)
qed

lemma new_follower_follows:
  assumes inv: "db_inv crc f [(kSysTables, (1, []))] []" and good: "\<forall>sid \<in> fst ` set logs. good_sid sid"
  shows "follows crc f logs []"
proof -
  from db_inv_storage [OF inv, of kSysTables] obtain e where e: "map_of (db_storages f) kSysTables = Some e" "engine_ok crc f kSysTables e (1, [])"
    by (metis map_of_Cons_code(2))
  have none: "map_of (db_storages f) sid = None" if "sid \<noteq> kSysTables" for sid
    using that db_inv_has_log [OF inv, of sid] by (cases "map_of (db_storages f) sid") auto
  have dirs: "dirs_ok f {kSysTables}" using inv by (simp add: db_inv_def db_inv_at_def)
  have "storage_follows crc f sid log []" if "map_of logs sid = Some (m, log)" for sid m log
  proof (cases "sid = kSysTables")
    case True
    then show ?thesis using e by (auto simp: storage_follows_def engine_ok_def le_rep_def dest: plain_rep_log)
  next
    case False
    have "good_sid sid" using good map_of_SomeD [OF that] by force
    then have "sid \<notin> insert kWal {kSysTables}" using False good_sid_wal by auto
    from empty_directory [OF dirs this] none [OF False] show ?thesis by (simp add: storage_follows_def)
  qed
  moreover have "distinct (map fst (db_disk f))" using dirs by (simp add: dirs_ok_def)
  ultimately show ?thesis using inv by (auto simp: follows_def db_inv_def db_inv_at_def events_ok_def)
qed

lemma repl_inv_init:
  assumes "db_Init (Database [] [] base opts) = Inr f" "good_options opts" "leader_log opts logs evs"
  shows "repl_inv crc dir opts logs evs (repl_init dir f)"
proof -
  from inv_at_Init [OF assms(2), of base crc] assms(1) have inv: "db_inv_at (0, []) crc f [(kSysTables, (1, []))] []"
    and opts: "db_lsm_options f = opts" by auto
  obtain d w where dw: "Writer_Open [] dir = (d, w)" by fastforce
  obtain r reg where r: "GetEventsReactor FollowerRegistry \<lparr>segment_no = 0, page_no = 0\<rparr> = (r, reg)" by fastforce
  have init: "repl_init dir f = \<lparr>rs_disk = d, rs_writer = w, rs_events = [], rs_registry = reg, rs_phase = Polling, rs_reactor = r,
          rs_polled = 0, rs_stream = [], rs_follower = f\<rparr>" by (simp add: repl_init_def dw r)
  have "reactor_ok evs 0 r" using r by (auto simp: GetEventsReactor_def reactor_ok_def page_position_def resume_def split: prod.splits)
  moreover from inv obtain w' where "wal_at (db_disk f) w' (db_base_dir f @ ''/wal'') 0 [] []" by (auto simp: db_inv_at_def log_at_def)
  then have "mirrored evs 0 (db_disk f) (db_base_dir f @ ''/wal'')" using new_follower_mirrors by (auto simp: mirrored_def)
  moreover have "wal_at d w dir 0 [] []" using wal_at_open [OF wal_holds_empty dw] by simp
  moreover have "follows crc f logs []" using new_follower_follows [OF db_invI [OF inv]] assms(3) by (simp add: leader_log_def)
  ultimately show ?thesis unfolding init by (intro repl_invI [where n = 0 and m = 0]) (simp_all add: opts)
qed

subsection \<open>Every run\<close>

lemma repl_step_events:
  assumes "repl_step dir s s'"
  obtains new where "rs_events s' = rs_events s @ new"
  using assms by cases auto

lemma repl_inv_step:
  assumes step: "repl_step dir s s'" and inv: "repl_inv crc dir opts logs evs s" and ld: "leader_log opts logs evs" and pad: "padded_log evs"
    and evs: "evs = rs_events s' @ post"
  shows "repl_inv crc dir opts logs evs s'"
  using step
proof cases
  case (write_log ev d w)
  then have "small_event ev" using pad evs by (simp add: padded_log_def)
  with write_log inv show ?thesis by (auto intro: repl_inv_write)
next
  case (other_files d)
  with inv show ?thesis by (auto simp: repl_inv_def intro: wal_at_frame)
next
  case (pump ph r reg msg)
  from repl_inv_pump [OF inv pad _ pump(2)] evs show ?thesis unfolding pump(1) by simp
next
  case (write_done ok)
  with inv show ?thesis by (auto simp: ger_OnWriteDone_def intro: repl_inv_reactor)
next
  case cancel
  with inv show ?thesis by (auto simp: ger_OnCancel_def intro: repl_inv_reactor)
next
  case (deliver p ps db e)
  from repl_inv_deliver(2) [OF inv ld deliver(2,3)] show ?thesis unfolding deliver(1) .
next
  case (reconnect q r reg)
  from repl_inv_reconnect [OF inv reconnect(2,3)] show ?thesis unfolding reconnect(1) .
next
  case (other_followers reg)
  with inv show ?thesis by (simp add: repl_inv_def)
qed

lemma repl_inv_run:
  assumes "(repl_step dir)\<^sup>*\<^sup>* s s'" "repl_inv crc dir opts logs evs s" "leader_log opts logs evs" "padded_log evs" "evs = rs_events s' @ post"
  shows "repl_inv crc dir opts logs evs s'"
  using assms(1,5)
proof (induction arbitrary: post rule: rtranclp_induct)
  case base
  show ?case by (rule assms(2))
next
  case (step s1 s2)
  obtain new where "rs_events s2 = rs_events s1 @ new" using step.hyps(2) by (rule repl_step_events)
  with step.prems step.IH [of "new @ post"] have "repl_inv crc dir opts logs evs s1" by simp
  from repl_inv_step [OF step.hyps(2) this assms(3,4) step.prems] show ?case .
qed

subsection \<open>What a follower reads\<close>

lemma db_inv_leader_log: "db_inv crc db logs evs \<Longrightarrow> leader_log (db_lsm_options db) logs evs"
  using db_inv_storage [of crc db logs evs] by (auto simp: leader_log_def db_inv_def db_inv_at_def events_ok_def)

lemma follows_reads:
  assumes inv: "db_inv crc db logs evs" and f: "follows crc f logs evs" and log: "map_of logs sid = Some (m, log)" and ne: "log \<noteq> []"
  shows "tx_Lookup crc f sid tx key = tx_Lookup crc db sid tx key" "tx_Scan crc f sid tx lower upper = tx_Scan crc db sid tx lower upper"
proof -
  from db_inv_storage [OF inv log] obtain e where e: "map_of (db_storages db) sid = Some e" "engine_ok crc db sid e (m, log)"
    "log_ok (db_lsm_options db) sid (m, log) evs" by metis
  then have ver: "list_all is_version log" and len: "length (filter (upsert_of sid) evs) = length log" and m: "m = int (length log) + 1"
    by (auto simp: log_ok_def list_all_iff)
  from follows_storage [OF f log] len ne obtain e' where e': "map_of (db_storages f) sid = Some e'" "le_rep crc e' (m, log)"
    by (auto simp: m split: option.splits)
  have reps: "tt_rep crc e (m, versions_of log)" "tt_rep crc e' (m, versions_of log)"
    using e(2) e'(2) ver by (auto simp: tt_rep_def le_rep_def engine_ok_def dest: plain_rep_log)
  have "ts_IsCommited (db_tx_storage f) = ts_IsCommited (db_tx_storage db)"
    using f inv by (auto simp: follows_def db_inv_def db_inv_at_def events_ok_def fun_eq_iff)
  note cong = versions_cong [OF this]
  show "tx_Lookup crc f sid tx key = tx_Lookup crc db sid tx key" "tx_Scan crc f sid tx lower upper = tx_Scan crc db sid tx lower upper"
    using reps e(1) e'(1) by (simp_all add: tx_Lookup_def tx_Scan_def storages_at_def bindM_def tt_Lookup_rep tt_Scan_rep cong)
qed

subsection \<open>The loop of a follower\<close>

text \<open>
  Whatever connections a follower makes, when each of them delivers pages of the log of its leader without
  a gap from the segment that was asked for, its loop goes on and it stays at a prefix of the log that
  only grows.
\<close>

lemma process_pages_follows:
  assumes "follows crc db logs (take n evs)" "mirrored evs n (db_disk db) (db_base_dir db @ ''/wal'')" "n \<le> length evs"
    and "leader_log (db_lsm_options db) logs evs" "covers evs n pages m"
  shows "\<exists>db' n'. process_pages db (db_base_dir db @ ''/wal'') pages = (db', None) \<and> n \<le> n' \<and> n' \<le> length evs \<and>
    follows crc db' logs (take n' evs) \<and> mirrored evs n' (db_disk db') (db_base_dir db' @ ''/wal'') \<and>
    db_base_dir db' = db_base_dir db \<and> db_lsm_options db' = db_lsm_options db"
  using assms
proof (induction pages arbitrary: db n)
  case (Cons p ps)
  let ?dir = "db_base_dir db @ ''/wal''"
  from Cons.prems(5) obtain j l where j: "page_ok evs p j l" "page_start evs j \<le> n" "covers evs (max n (page_start evs j + l)) ps m" by auto
  have h: "holds_events (wp_data p) (take l (drop (page_start evs j) evs))" and seg: "segment_no (wp_position p) = int j"
    using j(1) by (simp_all add: page_ok_def)
  note le = page_ok_end [OF j(1)]
  from ProcessPage_range [OF Cons.prems(1,4) j(2) le h, of j] obtain db1 where db1: "ProcessPage db ?dir (int j) (wp_data p) = (db1, None)"
    "follows crc db1 logs (take (max n (page_start evs j + l)) evs)" "db_base_dir db1 = db_base_dir db" "db_lsm_options db1 = db_lsm_options db"
    "db_disk db1 = WriteReceivedPage (db_disk db) ?dir (int j) (wp_data p)" by blast
  have "mirrored evs (max n (page_start evs j + l)) (db_disk db1) (db_base_dir db1 @ ''/wal'')"
    unfolding db1(3,5) by (rule mirrored_write [OF Cons.prems(2) j(1)]) simp_all
  from Cons.IH [OF db1(2) this _ _ j(3)] Cons.prems(3,4) le obtain db' n' where
    "process_pages db1 (db_base_dir db1 @ ''/wal'') ps = (db', None)" "max n (page_start evs j + l) \<le> n'" "n' \<le> length evs"
    "follows crc db' logs (take n' evs)" "mirrored evs n' (db_disk db') (db_base_dir db' @ ''/wal'')"
    "db_base_dir db' = db_base_dir db1" "db_lsm_options db' = db_lsm_options db1" by (auto simp: db1(4))
  with db1 seg show ?case by (intro exI [of _ db'] exI [of _ n']) simp
qed auto

lemma Follower_Run_follows:
  assumes "follows crc db logs (take n evs)" "mirrored evs n (db_disk db) (db_base_dir db @ ''/wal'')" "n \<le> length evs"
    and "leader_log (db_lsm_options db) logs evs"
    and "\<forall>GetEvents \<in> set connections. \<forall>q n. page_start evs q \<le> n \<longrightarrow> (\<exists>m. covers evs n (GetEvents \<lparr>segment_no = int q, page_no = 0\<rparr>) m)"
  shows "\<exists>db' n'. Follower_Run connections db (db_base_dir db @ ''/wal'') = Some (Inr db') \<and> n \<le> n' \<and> n' \<le> length evs \<and>
    follows crc db' logs (take n' evs)"
  using assms
proof (induction connections arbitrary: db n)
  case (Cons GetEvents connections)
  let ?dir = "db_base_dir db @ ''/wal''"
  from NextSegmentToFetch_lowest [of "db_disk db" ?dir] obtain q where q: "NextSegmentToFetch (db_disk db) ?dir = Some (int q)" by blast
  from mirrored_next [OF Cons.prems(2) q] have "page_start evs q \<le> n" by simp
  with Cons.prems(5) obtain m where "covers evs n (GetEvents \<lparr>segment_no = int q, page_no = 0\<rparr>) m" by fastforce
  from process_pages_follows [OF Cons.prems(1-4) this] obtain db1 n1 where
    db1: "process_pages db ?dir (GetEvents \<lparr>segment_no = int q, page_no = 0\<rparr>) = (db1, None)" "n \<le> n1" "n1 \<le> length evs"
      "follows crc db1 logs (take n1 evs)" "mirrored evs n1 (db_disk db1) (db_base_dir db1 @ ''/wal'')"
      "db_base_dir db1 = db_base_dir db" "db_lsm_options db1 = db_lsm_options db" by blast
  from Cons.IH [OF db1(4,5,3)] Cons.prems(4,5) db1(6,7) obtain db' n' where
    "Follower_Run connections db1 ?dir = Some (Inr db')" "n1 \<le> n'" "n' \<le> length evs" "follows crc db' logs (take n' evs)" by auto
  with db1(1,2) q show ?case by (intro exI [of _ db'] exI [of _ n']) (simp add: Follower_connection_def)
qed auto

subsection \<open>One event\<close>

lemma one_event_run:
  assumes ev: "small_event ev" "int (length (event_bytes ev)) < kWalPageSize"
  obtains s where "(repl_step dir)\<^sup>*\<^sup>* (repl_init dir f) s" "rs_events s = [ev]" "rs_phase s = Sleeping" "rs_stream s = []" "rs_polled s = 1"
    "rs_follower s = fst (ProcessPage f (db_base_dir f @ ''/wal'') 0 (event_bytes ev))"
proof -
  obtain d w where dw: "Writer_Open [] dir = (d, w)" by fastforce
  let ?r = "\<lparr>ger_next_pos = \<lparr>segment_no = 0, page_no = 0\<rparr>, ger_token = 0, ger_tail_sent_size = -1, ger_write_pending = False,
    ger_write_ok = True, ger_cancelled = False\<rparr>"
  let ?reg = "\<lparr>reg_next_token = 1, reg_positions = [(0, \<lparr>segment_no = 0, page_no = 0\<rparr>)]\<rparr>"
  have init: "repl_init dir f = \<lparr>rs_disk = d, rs_writer = w, rs_events = [], rs_registry = ?reg, rs_phase = Polling, rs_reactor = ?r,
    rs_polled = 0, rs_stream = [], rs_follower = f\<rparr>"
    by (simp add: repl_init_def dw GetEventsReactor_def reg_Register_def FollowerRegistry_def Let_def)
  obtain d1 w1 where w1: "ww_Write d w ev = (d1, w1)" by fastforce
  have "wal_at d w dir 0 [] []" using wal_at_open [OF wal_holds_empty dw] by simp
  from wal_at_Write [OF this ev(1) w1] have at: "wal_at d1 w1 dir 0 [] [ev]" by simp
  have pages: "wal_pages [] [ev] = [[ev]]" using ev(2) by simp
  from wal_at_files [OF at] obtain xs evss where xs: "\<forall>i \<in> fst ` set xs. i < 0" "wal_holds d1 dir (xs @ [(0, event_bytes ev)]) (evss @ [[ev]])"
    unfolding pages by auto
  have "xs = []" using xs(1) by (cases xs) auto
  moreover have "event_bytes ev \<noteq> []" using length_event_bytes [of ev] by auto
  ultimately have col: "CollectPagesFrom d1 dir \<lparr>segment_no = 0, page_no = 0\<rparr> = Inr [page_at (0, event_bytes ev)]"
    using CollectPagesFrom_pages [OF xs(2)] by (simp add: page_wanted_def page_at_def position_less_def)
  let ?p = "page_at (0, event_bytes ev)"
  have nc: "\<not> page_completed ?p" using ev(2) by (simp add: page_completed_def page_at_def)
  let ?s0 = "repl_init dir f"
  let ?s1 = "?s0\<lparr>rs_disk := d1, rs_writer := w1, rs_events := [ev]\<rparr>"
  let ?s2 = "?s1\<lparr>rs_phase := Shipping [?p], rs_polled := 1\<rparr>"
  let ?s3 = "?s2\<lparr>rs_phase := AwaitingWrite ?p [], rs_reactor := ?r\<lparr>ger_write_pending := True\<rparr>, rs_stream := [?p]\<rparr>"
  let ?s4 = "?s3\<lparr>rs_reactor := ?r\<rparr>"
  let ?s5 = "?s4\<lparr>rs_phase := Sleeping, rs_reactor := ?r\<lparr>ger_tail_sent_size := int (length (event_bytes ev))\<rparr>\<rparr>"
  have s1: "repl_step dir ?s0 ?s1" using write_log [of ?s0 ev d1 w1 dir] w1 by (simp add: init)
  have s2: "repl_step dir ?s1 ?s2" using pump [of ?s1 dir "Shipping [?p]" ?r ?reg None] col by (simp add: init)
  have s3: "repl_step dir ?s2 ?s3"
    using pump [of ?s2 dir "AwaitingWrite ?p []" "?r\<lparr>ger_write_pending := True\<rparr>" ?reg "Some ?p"] nc
    by (simp add: init IsAlreadySentTail_def)
  have s4: "repl_step dir ?s3 ?s4" using write_done [of dir ?s3 True] by (simp add: init ger_OnWriteDone_def)
  have s5: "repl_step dir ?s4 ?s5"
    using pump [of ?s4 dir Sleeping "?r\<lparr>ger_tail_sent_size := int (length (event_bytes ev))\<rparr>" ?reg None] nc
    by (simp add: init page_at_def)
  obtain db e where pp: "ProcessPage f (db_base_dir f @ ''/wal'') 0 (event_bytes ev) = (db, e)" by fastforce
  have s6: "repl_step dir ?s5 (?s5\<lparr>rs_stream := [], rs_follower := db\<rparr>)"
    using deliver [of ?s5 ?p "[]" db e dir] pp by (simp add: init page_at_def split: if_splits)
  from s1 s2 s3 s4 s5 s6 have "(repl_step dir)\<^sup>*\<^sup>* ?s0 (?s5\<lparr>rs_stream := [], rs_follower := db\<rparr>)"
    by (meson rtranclp.rtrancl_into_rtrancl rtranclp.rtrancl_refl)
  then show thesis by (rule that) (simp_all add: pp)
qed

lemma one_page: "int (length (event_bytes ev)) < kWalPageSize \<Longrightarrow> small_event ev \<Longrightarrow> padded_log [ev]"
  by (simp add: padded_log_def)

lemma new_follower:
  obtains f where "db_Init (Database [] [] base default_options) = Inr f"
  using db_inv_Init [of default_options base "\<lambda>_. 0"]
  by (auto simp: default_options_def good_options_def good_page_size_def file_fits_def)

end
