(* ===== verification/Follower_Restart.thy ===== *)
theory Follower_Restart
  imports Replication_Runs
begin

section \<open>Followers that crash\<close>

text \<open>
  A follower writes every page it gets into its own log before it applies the events of the page, and
  \<open>Init\<close> replays that log. The theory adds crashes of the follower to the runs of leader, stream and
  follower: at any point the follower may stop and start again on its files. The followers here have not
  flushed a table or cleaned their log, so that the log is all they have.
\<close>

subsection \<open>The files of a follower\<close>

text \<open>The disk of a follower has the segments of its log, numbered from 0, and nothing else.\<close>

definition log_files :: "disk \<Rightarrow> string \<Rightarrow> bytes list \<Rightarrow> bool" where
  "log_files d dir cs \<longleftrightarrow> dir_holds d dir ''.wal.sdb'' (enumerate 0 cs) \<and> (\<forall>path \<in> fst ` set d. in_directory dir path)"

text \<open>
  What they hold: the first \<open>k\<close> pages of the leader's log, the first \<open>l\<close> events of the next page, and then
  empty segments, which \<open>Init\<close> has opened for a writer that a follower does not use.
\<close>

abbreviation page_part :: "event list \<Rightarrow> nat \<Rightarrow> nat \<Rightarrow> event list" where
  "page_part evs k l \<equiv> take l (drop (page_start evs k) evs)"

definition mirror :: "event list \<Rightarrow> nat \<Rightarrow> nat \<Rightarrow> bytes list \<Rightarrow> bool" where
  "mirror evs k l cs \<longleftrightarrow>
     k \<le> length (wal_pages [] evs) \<and> list_all well_padded (take k (wal_pages [] evs)) \<and> page_start evs k + l \<le> page_start evs (Suc k) \<and>
     int (length (events_bytes (page_part evs k l))) < kWalPageSize \<and>
     (cs = map segment_image (take k (wal_pages [] evs)) \<and> l = 0 \<or>
      (\<exists>e. cs = map segment_image (take k (wal_pages [] evs)) @ events_bytes (page_part evs k l) # replicate e []))"

definition put_segment :: "bytes list \<Rightarrow> nat \<Rightarrow> bytes \<Rightarrow> bytes list" where
  "put_segment cs k data = take k cs @ data # drop (Suc k) cs"

lemma page_start_le: "page_start evs k \<le> length evs"
proof -
  have "length (concat (take k (wal_pages [] evs))) + length (concat (drop k (wal_pages [] evs))) = length (concat (wal_pages [] evs))"
    by (metis append_take_drop_id concat_append length_append)
  then show ?thesis by (simp add: page_start_def concat_wal_pages)
qed

lemma mirror_length: "mirror evs k l cs \<Longrightarrow> k \<le> length cs"
  by (auto simp: mirror_def)

lemma put_segment_images:
  assumes "mirror evs k l cs"
  obtains e where "put_segment cs k data = map segment_image (take k (wal_pages [] evs)) @ data # replicate e []"
proof -
  have len: "length (map segment_image (take k (wal_pages [] evs))) = k" using assms by (auto simp: mirror_def)
  from assms consider "cs = map segment_image (take k (wal_pages [] evs))"
    | e where "cs = map segment_image (take k (wal_pages [] evs)) @ events_bytes (page_part evs k l) # replicate e []" by (auto simp: mirror_def)
  then show thesis
  proof cases
    case 1
    then show thesis using len by (intro that [of 0]) (simp add: put_segment_def)
  next
    case (2 e)
    then show thesis using len by (intro that [of e]) (simp add: put_segment_def)
  qed
qed

lemma completed_page:
  assumes "page_ok evs p k l" "page_completed p"
  shows "wp_data p = segment_image (wal_pages [] evs ! k)" "well_padded (wal_pages [] evs ! k)"
proof -
  let ?pg = "wal_pages [] evs ! k"
  have "holds_events (wp_data p) ?pg" using assms page_events(1) [of k evs] by (auto simp: page_ok_def)
  then obtain c where c: "wp_data p = events_bytes ?pg @ replicate c (CHR 0x00)" "c = 0 \<or> 8 \<le> c" by (auto simp: holds_events_def)
  have "int (length (wp_data p)) = kWalPageSize" using assms(2) by (simp add: page_completed_def)
  then have "c = nat kWalPageSize - length (events_bytes ?pg)" "int (length (events_bytes ?pg)) + int c = kWalPageSize" using c(1) by auto
  then show "wp_data p = segment_image ?pg" "well_padded ?pg" using c by (auto simp: segment_image_def well_padded_def)
qed

lemma mirror_put:
  assumes m: "mirror evs k l cs" and p: "page_ok evs p k l'"
  shows "if page_completed p then mirror evs (Suc k) 0 (put_segment cs k (wp_data p)) else mirror evs k l' (put_segment cs k (wp_data p))"
proof -
  let ?ps = "wal_pages [] evs"
  from put_segment_images [OF m, of "wp_data p"] obtain e where
    e: "put_segment cs k (wp_data p) = map segment_image (take k ?ps) @ wp_data p # replicate e []" .
  have k: "k < length ?ps" using p by (simp add: page_ok_def)
  show ?thesis
  proof (cases "page_completed p")
    case True
    note full = completed_page [OF p True]
    have "map segment_image (take (Suc k) ?ps) = map segment_image (take k ?ps) @ [wp_data p]" using k full(1) by (simp add: take_Suc_conv_app_nth)
    moreover have "replicate e [] = [] \<or> (\<exists>e'. replicate e [] = [] # replicate e' ([] :: bytes))" by (cases e) auto
    ultimately show ?thesis
      using True m k full(2) e page_start_mono [of "Suc k" "Suc (Suc k)" evs]
      by (auto simp: mirror_def take_Suc_conv_app_nth events_bytes_def kWalPageSize_def)
  next
    case False
    then have "wp_data p = events_bytes (page_part evs k l')" using p by (simp add: page_ok_def)
    moreover have "int (length (wp_data p)) < kWalPageSize" using p False by (auto simp: page_ok_def holds_events_def page_completed_def)
    ultimately show ?thesis using False m e page_ok_next [OF p] by (auto simp: mirror_def)
  qed
qed

lemma mirror_events:
  assumes m: "mirror evs k l cs" and pad: "padded_log evs"
  obtains evss where "list_all2 holds_events cs evss" "concat evss = take (page_start evs k + l) evs"
proof -
  let ?ps = "wal_pages [] evs" let ?part = "page_part evs k l"
  have small: "list_all small_event evs" using pad by (simp add: padded_log_def)
  have full: "holds_events (segment_image pg) pg" if "pg \<in> set (take k ?ps)" for pg
  proof -
    have "well_padded pg" "pg \<in> set ?ps" using m that by (auto simp: mirror_def list_all_iff dest: in_set_takeD)
    then show ?thesis using page_files_events [of "[pg]" 0] small_pages_fit [OF small, of pg] by simp
  qed
  have pages: "list_all2 holds_events (map segment_image (take k ?ps)) (take k ?ps)"
    unfolding list_all2_map1 using full by (simp add: list_all2_same)
  have start: "concat (take k ?ps) = take (page_start evs k) evs"
  proof -
    have "evs = concat (take k ?ps) @ concat (drop k ?ps)" using concat_wal_pages [of "[]" evs] by (metis append_Nil append_take_drop_id concat_append)
    then show ?thesis unfolding page_start_def by (metis append_eq_conv_conj)
  qed
  have "\<forall>ev \<in> set evs. valid_event ev" using small by (auto simp: list_all_iff small_event_def)
  then have "list_all valid_event ?part" unfolding list_all_iff by (meson in_set_dropD in_set_takeD)
  moreover have "int (length (events_bytes ?part)) < kWalPageSize" using m by (simp add: mirror_def)
  ultimately have part: "holds_events (events_bytes ?part) ?part" "holds_events [] []"
    by (auto simp: holds_events_def events_bytes_def kWalPageSize_def intro: exI [of _ 0])
  have split: "take (page_start evs k + l) evs = concat (take k ?ps) @ ?part" by (simp add: start take_add)
  from m consider "cs = map segment_image (take k ?ps)" "l = 0"
    | e where "cs = map segment_image (take k ?ps) @ events_bytes ?part # replicate e []" by (auto simp: mirror_def)
  then show thesis
  proof cases
    case 1
    then show thesis using pages split by (intro that [of "take k ?ps"]) simp_all
  next
    case (2 e)
    have "list_all2 holds_events (replicate e []) (replicate e [])" using part(2) by (induction e) simp_all
    then show thesis using 2 pages split part(1)
      by (intro that [of "take k ?ps @ ?part # replicate e []"]) (auto intro: list_all2_appendI)
  qed
qed

text \<open>The complete segments of a mirror are those of the first pages.\<close>

lemma log_files_file:
  assumes "log_files d dir cs"
  shows "map_of d (numbered_path dir ''.wal.sdb'' i) = (if i < length cs then Some (cs ! i) else None)"
proof (cases "i < length cs")
  case True
  then have "(i, cs ! i) \<in> set (enumerate 0 cs)" by (simp add: in_set_enumerate_eq)
  with assms True show ?thesis by (auto simp: log_files_def dir_holds_def)
next
  case False
  have "numbered_path dir ''.wal.sdb'' i \<notin> fst ` set d"
  proof
    assume "numbered_path dir ''.wal.sdb'' i \<in> fst ` set d"
    then have "\<exists>j \<in> fst ` set (enumerate 0 cs). numbered_path dir ''.wal.sdb'' i = numbered_path dir ''.wal.sdb'' j"
      using assms unfolding log_files_def dir_holds_def by blast
    with False show False by (auto simp: in_set_enumerate_eq)
  qed
  with False show ?thesis by (simp add: map_of_eq_None_iff)
qed

lemma mirror_complete:
  assumes m: "mirror evs k l cs" and d: "log_files d dir cs" and pad: "padded_log evs"
  shows "complete_segment d dir i \<longleftrightarrow> i < k"
proof -
  let ?imgs = "map segment_image (take k (wal_pages [] evs))"
  have small: "list_all small_event evs" using pad by (simp add: padded_log_def)
  have k: "k \<le> length (wal_pages [] evs)" using m by (simp add: mirror_def)
  have "int (length (cs ! i)) \<ge> kWalPageSize" if "i < k"
  proof -
    have "cs ! i = segment_image (wal_pages [] evs ! i)" using m that k by (auto simp: mirror_def nth_append)
    then show ?thesis by (simp add: segment_image_def kWalPageSize_def)
  qed
  moreover have "int (length (cs ! i)) < kWalPageSize" if "\<not> i < k" "i < length cs"
  proof -
    from m that k obtain e where e: "cs = ?imgs @ events_bytes (page_part evs k l) # replicate e []"
      "int (length (events_bytes (page_part evs k l))) < kWalPageSize" by (auto simp: mirror_def)
    then show ?thesis using that k by (auto simp: nth_append nth_Cons' kWalPageSize_def)
  qed
  ultimately show ?thesis using mirror_length [OF m]
    by (cases "i < k") (auto simp: complete_segment_def io_FileSize_def segment_path_numbered log_files_file [OF d] kWalPageSize_def)
qed

lemma mirror_next:
  assumes "mirror evs k l cs" "log_files d dir cs" "padded_log evs"
  shows "NextSegmentToFetch d dir = Some (int k)"
proof -
  obtain n where n: "NextSegmentToFetch d dir = Some (int n)" "\<not> n < k" "\<forall>i < n. i < k"
    using NextSegmentToFetch_lowest [of d dir] unfolding mirror_complete [OF assms] by blast
  then have "n = k" by (meson less_irrefl linorder_neqE_nat)
  with n(1) show ?thesis by simp
qed

subsection \<open>Writing a segment\<close>

lemma dir_holds_put:
  assumes ok: "dir_holds d dir suffix xs" and d': "distinct (map fst d')" and m: "map_of d' = (map_of d)(numbered_path dir suffix n \<mapsto> c)"
    and ys: "sorted_wrt (<) (map fst ys)" "\<And>i x. (i, x) \<in> set ys \<longleftrightarrow> (if i = n then x = c else (i, x) \<in> set xs)"
  shows "dir_holds d' dir suffix ys"
  unfolding dir_holds_def
proof (intro conjI ballI impI)
  fix path
  assume path: "path \<in> fst ` set d'" "in_directory dir path"
  show "\<exists>i \<in> fst ` set ys. path = numbered_path dir suffix i"
  proof (cases "path = numbered_path dir suffix n")
    case True
    have "(n, c) \<in> set ys" by (simp add: ys(2))
    with True show ?thesis by force
  next
    case False
    with path m have "path \<in> fst ` set d" by (simp add: in_fst_set_conv)
    with ok path(2) obtain i x where ix: "(i, x) \<in> set xs" "path = numbered_path dir suffix i" unfolding dir_holds_def by fastforce
    with False have "(i, x) \<in> set ys" by (auto simp: ys(2))
    with ix(2) show ?thesis by force
  qed
next
  fix y
  assume y: "y \<in> set ys"
  obtain i x where ix: "y = (i, x)" by (cases y)
  have old: "\<forall>(i, c) \<in> set xs. map_of d (numbered_path dir suffix i) = Some c" using ok unfolding dir_holds_def by blast
  have "if i = n then x = c else (i, x) \<in> set xs" using y unfolding ix ys(2) .
  then show "case y of (i, x) \<Rightarrow> map_of d' (numbered_path dir suffix i) = Some x"
    using old by (auto simp: ix m split: if_splits)
qed (use d' ys(1) in simp_all)

lemma log_files_put:
  assumes d: "log_files d dir cs" and k: "k \<le> length cs" and only: "only_in dir d d'"
    and m: "map_of d' = (map_of d)(numbered_path dir ''.wal.sdb'' k \<mapsto> c)"
  shows "log_files d' dir (put_segment cs k c)"
proof -
  have nth: "put_segment cs k c ! i = (if i = k then c else cs ! i)" if "i < length cs \<or> i = k" for i
    using k that by (auto simp: put_segment_def nth_append nth_Cons' min_def)
  have len: "length (put_segment cs k c) = max (length cs) (Suc k)" using k by (auto simp: put_segment_def)
  have "dir_holds d' dir ''.wal.sdb'' (enumerate 0 (put_segment cs k c))"
  proof (rule dir_holds_put [OF _ _ m])
    show "dir_holds d dir ''.wal.sdb'' (enumerate 0 cs)" "distinct (map fst d')"
      using d only by (auto simp: log_files_def dir_holds_def only_in_def)
    show "sorted_wrt (<) (map fst (enumerate 0 (put_segment cs k c)))" by simp
    show "(i, x) \<in> set (enumerate 0 (put_segment cs k c)) \<longleftrightarrow> (if i = k then x = c else (i, x) \<in> set (enumerate 0 cs))" for i x
      using k nth [of i] by (auto simp: in_set_enumerate_eq len)
  qed
  moreover have "in_directory dir path" if "path \<in> fst ` set d'" for path
  proof (cases "path = numbered_path dir ''.wal.sdb'' k")
    case False
    then have "path \<in> fst ` set d" using that False unfolding in_fst_set_conv m by simp
    with d show ?thesis unfolding log_files_def by blast
  qed (simp add: in_directory_numbered)
  ultimately show ?thesis by (simp add: log_files_def)
qed

lemma log_files_WriteReceivedPage:
  assumes "log_files d dir cs" "k \<le> length cs"
  shows "log_files (WriteReceivedPage d dir (int k) data) dir (put_segment cs k data)"
  by (rule log_files_put [OF assms only_in_WriteReceivedPage])
    (auto simp: WriteReceivedPage_def fw_Open_def fw_Write_def fw_FSync_def Let_def segment_path_numbered update_conv' dom_update fun_eq_iff)

subsection \<open>A restart of a follower\<close>

text \<open>No storage of the follower has a file: all of them are opened empty.\<close>

definition empty_engine :: "string \<Rightarrow> lsm_options \<Rightarrow> string \<Rightarrow> lsm_engine" where
  "empty_engine base opts name =
     \<lparr>le_id = name, le_lsm = (Lsm (base @ ''/'' @ name) opts)\<lparr>lsm_next_seq_no := 1\<rparr>, le_wal_writer = False\<rparr>"

definition only_empty :: "database \<Rightarrow> bool" where
  "only_empty db \<longleftrightarrow> (\<forall>sid e. map_of (db_storages db) sid = Some e \<longrightarrow> e = empty_engine (db_base_dir db) (db_lsm_options db) sid)"

lemma InitTables_empty:
  assumes "\<forall>name \<in> set names. io_ListDirectory (db_disk db) (db_base_dir db @ ''/'' @ name) = []" "only_empty db"
  obtains st where "db_InitTables db names = Inr (db\<lparr>db_storages := st\<rparr>)" "only_empty (db\<lparr>db_storages := st\<rparr>)"
  using assms
proof (induction names arbitrary: db thesis)
  case Nil
  show ?case by (rule Nil.prems(1) [of "db_storages db"]) (use Nil.prems in simp_all)
next
  case (Cons name names)
  let ?e = "empty_engine (db_base_dir db) (db_lsm_options db) name"
  let ?db = "db\<lparr>db_storages := try_emplace name ?e (db_storages db)\<rparr>"
  have init: "le_Init (db_disk db) (LsmEngine (db_base_dir db @ ''/'' @ name) name (db_lsm_options db)) = Inr ?e"
    using Cons.prems(2) lsm_Init_empty [of "db_disk db" "db_base_dir db @ ''/'' @ name" "db_lsm_options db"]
    by (simp add: le_Init_def LsmEngine_def empty_engine_def)
  have "only_empty ?db"
    using Cons.prems(3) by (auto simp: only_empty_def try_emplace_def map_add_def split: option.splits if_splits)
  from Cons.IH [OF _ _ this] Cons.prems(2) obtain st where
    "db_InitTables ?db names = Inr (?db\<lparr>db_storages := st\<rparr>)" "only_empty (?db\<lparr>db_storages := st\<rparr>)" by auto
  then show ?case using init by (intro Cons.prems(1) [of st]) simp_all
qed

lemma log_files_other:
  assumes "log_files d (base @ ''/wal'') cs" "name \<noteq> kWal"
  shows "io_ListDirectory d (base @ ''/'' @ name) = []"
proof -
  have "\<not> in_directory (base @ ''/'' @ name) path" if "path \<in> fst ` set d" for path
  proof
    assume a: "in_directory (base @ ''/'' @ name) path"
    have "in_directory (base @ ''/wal'') path" using assms(1) that unfolding log_files_def by blast
    from in_directory_unique [OF a this] assms(2) show False by (simp add: kWal_def)
  qed
  then show ?thesis by (auto simp: io_ListDirectory_def filter_empty_conv)
qed

lemma only_empty_follows:
  assumes "only_empty db" "db_tx_storage db = Tx_Storage" "good_options (db_lsm_options db)" "\<forall>sid \<in> fst ` set logs. good_sid sid"
    and d: "log_files (db_disk db) (db_base_dir db @ ''/wal'') cs"
  shows "follows crc db logs []"
proof -
  have dist: "distinct (map fst (db_disk db))" using d by (simp add: log_files_def dir_holds_def)
  have "storage_follows crc db sid log []" if log: "map_of logs sid = Some (m, log)" for sid m log
  proof -
    have "good_sid sid" using assms(4) map_of_SomeD [OF log] by force
    then have dir: "io_ListDirectory (db_disk db) (db_base_dir db @ ''/'' @ sid) = []" using good_sid_wal by (intro log_files_other [OF d]) auto
    note rep = plain_rep_log [OF plain_rep_empty [OF assms(3) dir dist, of crc]]
    show ?thesis
    proof (cases "map_of (db_storages db) sid")
      case None
      with dir show ?thesis by (simp add: storage_follows_def)
    next
      case (Some e)
      then have "e = empty_engine (db_base_dir db) (db_lsm_options db) sid" using assms(1) unfolding only_empty_def by blast
      with Some rep show ?thesis by (simp add: storage_follows_def empty_engine_def le_rep_def Lsm_def)
    qed
  qed
  then show ?thesis using dist assms(2,3) by (simp add: follows_def Tx_Storage_def ts_IsCommited_def)
qed

lemma follows_started:
  assumes "follows crc db logs dn"
  shows "follows crc (db\<lparr>db_wal_writer := w, db_tx_storage := ts_StartLogInto (db_tx_storage db),
    db_storages := map (\<lambda>(sid, e). (sid, le_StartLogInto e)) (db_storages db), db_is_initialized := b\<rparr>) logs dn" (is "follows crc ?db logs dn")
proof -
  have st: "map_of (db_storages ?db) sid = map_option le_StartLogInto (map_of (db_storages db) sid)" for sid
    using map_of_map [of le_StartLogInto "db_storages db"] by (simp add: fun_eq_iff)
  have "storage_follows crc ?db sid log dn" if "storage_follows crc db sid log dn" for sid log
    using that st [of sid] by (auto simp: storage_follows_def Let_def le_rep_def le_StartLogInto_def split: option.splits)
  then show ?thesis using assms by (auto simp: follows_def ts_StartLogInto_def ts_IsCommited_def)
qed

lemma log_files_Writer_Open:
  assumes d: "log_files d dir cs" and few: "length cs \<le> 10000" and evss: "list_all2 holds_events cs evss" and op: "Writer_Open d dir = (d', w)"
  shows "wal_holds d dir (enumerate 0 cs) evss" "only_in dir d d'" "log_files d' dir (cs @ [[]])"
proof -
  have "list_all2 (\<lambda>x evs. holds_events (snd x) evs) (enumerate 0 cs) evss"
    using evss by (metis (no_types, lifting) list.rel_map(1) list_all2_mono map_snd_enumerate)
  then show wal: "wal_holds d dir (enumerate 0 cs) evss"
    using d few by (auto simp: wal_holds_def log_files_def in_set_enumerate_eq)
  show only: "only_in dir d d'" using only_in_Writer_Open [OF wal] op by simp
  have "(if enumerate 0 cs = [] then 0 else Suc (fst (last (enumerate 0 cs)))) = length cs"
    by (cases cs rule: rev_cases) (simp_all add: enumerate_append_eq)
  then have "ww_rep d' w dir (enumerate 0 cs) (length cs) []" using Writer_Open_rep [OF wal op] by simp
  then have "dir_holds d' dir ''.wal.sdb'' (enumerate 0 (cs @ [[]]))" by (simp add: ww_rep_def enumerate_append_eq events_bytes_def)
  moreover have "in_directory dir path" if path: "path \<in> fst ` set d'" for path
  proof (rule ccontr)
    assume out: "\<not> in_directory dir path"
    then have "path \<in> fst ` set d" using path only unfolding in_fst_set_conv only_in_def by simp
    with out d show False unfolding log_files_def by blast
  qed
  ultimately show "log_files d' dir (cs @ [[]])" by (simp add: log_files_def)
qed

text \<open>A restart replays the mirror: the follower has again what the log of its leader had up to there.\<close>

lemma Init_mirror:
  assumes d: "log_files d (base @ ''/wal'') cs" and m: "mirror evs k l cs" and pad: "padded_log evs" and ld: "leader_log opts logs evs"
    and opts: "good_options opts" and few: "length cs \<le> 10000"
  obtains f where "db_Init (Database d dirs base opts) = Inr f" "follows crc f logs (take (page_start evs k + l) evs)"
    "db_base_dir f = base" "db_lsm_options f = opts" "log_files (db_disk f) (base @ ''/wal'') (cs @ [[]])"
proof -
  let ?n = "page_start evs k + l"
  define dirs' where "dirs' = io_CreateDirectory (io_CreateDirectory dirs (base @ ''/'' @ kSysTransactions)) (base @ ''/'' @ kSysTables)"
  define db0 where "db0 = (Database d dirs base opts)\<lparr>db_dirs := dirs', db_tx_storage := Tx_Storage\<rparr>"
  have f0: "db_disk db0 = d" "db_base_dir db0 = base" "db_lsm_options db0 = opts" "db_tx_storage db0 = Tx_Storage" "only_empty db0" "db_dirs db0 = dirs'"
    by (simp_all add: db0_def Database_def only_empty_def)
  have none: "io_ListDirectory d (base @ ''/'' @ name) = []" if "name \<noteq> kWal" for name by (rule log_files_other [OF d that])
  obtain st1 where st1: "db_InitTables db0 [kSysTables] = Inr (db0\<lparr>db_storages := st1\<rparr>)" "only_empty (db0\<lparr>db_storages := st1\<rparr>)"
    by (rule InitTables_empty [of "[kSysTables]" db0]) (use none f0 in \<open>auto simp: kSysTables_def kWal_def\<close>)
  let ?names = "filter (\<lambda>name. name \<notin> set kInternalTables) (io_ListEntries d dirs' base)"
  obtain st where st: "db_InitTables (db0\<lparr>db_storages := st1\<rparr>) ?names = Inr (db0\<lparr>db_storages := st1, db_storages := st\<rparr>)" "only_empty (db0\<lparr>db_storages := st\<rparr>)"
    by (rule InitTables_empty [of ?names "db0\<lparr>db_storages := st1\<rparr>"]) (use none f0 st1(2) in \<open>auto simp: kInternalTables_def\<close>)
  let ?db = "db0\<lparr>db_storages := st\<rparr>"
  have good: "\<forall>sid \<in> fst ` set logs. good_sid sid" using ld by (simp add: leader_log_def)
  have f1: "follows crc ?db logs (take 0 evs)" using only_empty_follows [OF st(2), of logs cs crc] good d opts f0 by simp
  have "?n \<le> length evs" using m page_start_le [of evs "Suc k"] by (simp add: mirror_def)
  with Apply_range [OF f1, of 0 ?n] ld obtain db1 where db1: "handle_all ev_Apply (take ?n evs) ?db = (db1, None)"
    "follows crc db1 logs (take ?n evs)" "db_base_dir db1 = base" "db_lsm_options db1 = opts" "db_disk db1 = d" by (auto simp: f0)
  obtain evss where evss: "list_all2 holds_events cs evss" "concat evss = take ?n evs" by (rule mirror_events [OF m pad])
  obtain d' w where op: "Writer_Open d (base @ ''/wal'') = (d', w)" by fastforce
  note wo = log_files_Writer_Open [OF d few evss(1) op]
  have rec: "Recover ev_Apply d (base @ ''/wal'') ?db = Inr db1" by (rule Recover_total [OF wo(1)]) (simp only: evss(2) db1(1))
  let ?f = "db1\<lparr>db_disk := d', db_wal_writer := Some w, db_tx_storage := ts_StartLogInto (db_tx_storage db1),
    db_storages := map (\<lambda>(sid, e). (sid, le_StartLogInto e)) (db_storages db1), db_is_initialized := True\<rparr>"
  have "follows crc (db1\<lparr>db_disk := d'\<rparr>) logs (take ?n evs)" using wo(2) by (intro follows_mirror [OF db1(2) good]) (simp add: db1)
  from follows_started [OF this, where w = "Some w" and b = True] have "follows crc ?f logs (take ?n evs)" by simp
  moreover have "db_Init (Database d dirs base opts) = Inr ?f"
  proof -
    have "db_Init (Database d dirs base opts) = bindE (db_InitTables db0 [kSysTables]) (\<lambda>db.
       let dir_content = filter (\<lambda>name. name \<notin> set kInternalTables) (io_ListEntries (db_disk db) (db_dirs db) (db_base_dir db))
       in bindE (db_InitTables db dir_content) (\<lambda>db.
          let wal_path = db_base_dir db @ ''/wal''
          in bindE (Recover ev_Apply (db_disk db) wal_path db) (\<lambda>db.
             let (d, w) = Writer_Open (db_disk db) wal_path
             in Inr (db\<lparr>db_disk := d, db_wal_writer := Some w, db_tx_storage := ts_StartLogInto (db_tx_storage db),
                  db_storages := map (\<lambda>(sid, e). (sid, le_StartLogInto e)) (db_storages db), db_is_initialized := True\<rparr>))))"
      by (simp add: db_Init_def Let_def db0_def dirs'_def Database_def)
    then show ?thesis using st(1) rec op unfolding st1(1) by (simp add: f0 db1(3-) Let_def)
  qed
  ultimately show thesis using that [of ?f] wo(3) db1(3,4) by simp
qed

text \<open>A follower that has, on disk and in memory, the first \<open>k\<close> pages of the log and \<open>l\<close> events of the next one.\<close>

definition follower_at :: "crc32 \<Rightarrow> storage_logs \<Rightarrow> event list \<Rightarrow> database \<Rightarrow> nat \<Rightarrow> nat \<Rightarrow> bool" where
  "follower_at crc logs evs f k l \<longleftrightarrow>
     follows crc f logs (take (page_start evs k + l) evs) \<and>
     (\<exists>cs. mirror evs k l cs \<and> log_files (db_disk f) (db_base_dir f @ ''/wal'') cs)"

lemma mirror_open: "mirror evs k l cs \<Longrightarrow> mirror evs k l (cs @ [[]])"
  unfolding mirror_def by (auto simp: events_bytes_def replicate_append_same intro: exI [of _ "Suc _"] exI [of _ 0])

lemma log_files_length:
  assumes "log_files d dir cs"
  shows "length d = length cs"
proof -
  have "fst ` set d \<subseteq> numbered_path dir ''.wal.sdb'' ` fst ` set (enumerate 0 cs)"
    using assms unfolding log_files_def dir_holds_def by blast
  moreover have "fst ` set (enumerate 0 cs) = {..<length cs}" by (simp add: atLeast0LessThan flip: set_map)
  moreover have "numbered_path dir ''.wal.sdb'' ` {..<length cs} \<subseteq> fst ` set d"
    using log_files_file [OF assms] by (auto simp: in_fst_set_conv)
  ultimately have "fst ` set d = numbered_path dir ''.wal.sdb'' ` {..<length cs}" by simp
  moreover have "card (numbered_path dir ''.wal.sdb'' ` {..<length cs}) = length cs" by (subst card_image) (simp_all add: inj_on_def)
  moreover have "card (fst ` set d) = length d" using assms distinct_card [of "map fst d"] by (simp add: log_files_def dir_holds_def)
  ultimately show ?thesis by simp
qed

lemma follower_at_restart:
  assumes at: "follower_at crc logs evs f k l" and pad: "padded_log evs" and ld: "leader_log (db_lsm_options f) logs evs"
    and few: "length (db_disk f) \<le> 10000"
  obtains f' where "Restart f = Inr f'" "follower_at crc logs evs f' k l" "db_lsm_options f' = db_lsm_options f"
proof -
  from at obtain cs where m: "mirror evs k l cs" and d: "log_files (db_disk f) (db_base_dir f @ ''/wal'') cs" by (auto simp: follower_at_def)
  have opts: "good_options (db_lsm_options f)" using at by (simp add: follower_at_def follows_def)
  have "length cs \<le> 10000" using log_files_length [OF d] few by simp
  from Init_mirror [OF d m pad ld opts this] obtain f' where f': "Restart f = Inr f'" "follows crc f' logs (take (page_start evs k + l) evs)"
    "db_base_dir f' = db_base_dir f" "db_lsm_options f' = db_lsm_options f" "log_files (db_disk f') (db_base_dir f @ ''/wal'') (cs @ [[]])" .
  then show thesis using mirror_open [OF m] by (intro that [of f']) (auto simp: follower_at_def)
qed

lemma new_follower_files:
  assumes "db_Init (Database [] [] base opts) = Inr f" "good_options opts" "leader_log opts logs evs" "padded_log evs"
  shows "follows crc f logs []" "db_base_dir f = base" "db_lsm_options f = opts" "log_files (db_disk f) (base @ ''/wal'') [[]]"
proof -
  have "mirror evs 0 0 []" by (simp add: mirror_def events_bytes_def kWalPageSize_def)
  moreover have "log_files [] (base @ ''/wal'') []" by (simp add: log_files_def dir_holds_def)
  ultimately obtain f' where "db_Init (Database [] [] base opts) = Inr f'" "follows crc f' logs (take (page_start evs 0 + 0) evs)"
    "db_base_dir f' = base" "db_lsm_options f' = opts" "log_files (db_disk f') (base @ ''/wal'') ([] @ [[]])"
    using Init_mirror [OF _ _ assms(4,3,2), of "[]" base "[]" 0 0 "[]"] by (metis le0 list.size(3))
  with assms(1) show "follows crc f logs []" "db_base_dir f = base" "db_lsm_options f = opts" "log_files (db_disk f) (base @ ''/wal'') [[]]" by simp_all
qed

lemma follower_at_new:
  assumes "db_Init (Database [] [] base opts) = Inr f" "good_options opts" "leader_log opts logs evs" "padded_log evs"
  shows "follower_at crc logs evs f 0 0"
proof -
  have "mirror evs 0 0 [[]]" by (simp add: mirror_def events_bytes_def kWalPageSize_def)
  with new_follower_files [OF assms] show ?thesis by (auto simp: follower_at_def)
qed

lemma follower_at_page:
  assumes at: "follower_at crc logs evs f k l" and ld: "leader_log (db_lsm_options f) logs evs" and p: "page_ok evs p k l'"
    and l: "page_completed p \<or> l \<le> l'"
  obtains f' where "ProcessPage f (db_base_dir f @ ''/wal'') (segment_no (wp_position p)) (wp_data p) = (f', None)"
    "db_lsm_options f' = db_lsm_options f"
    "if page_completed p then follower_at crc logs evs f' (Suc k) 0 else follower_at crc logs evs f' k l'"
proof -
  let ?dir = "db_base_dir f @ ''/wal''"
  from at obtain cs where f: "follows crc f logs (take (page_start evs k + l) evs)" and m: "mirror evs k l cs"
    and d: "log_files (db_disk f) ?dir cs" by (auto simp: follower_at_def)
  have h: "holds_events (wp_data p) (take l' (drop (page_start evs k) evs))" and seg: "segment_no (wp_position p) = int k"
    using p by (simp_all add: page_ok_def)
  from ProcessPage_range [OF f ld _ page_ok_end [OF p] h, of k] obtain f' where
    f': "ProcessPage f ?dir (int k) (wp_data p) = (f', None)" "follows crc f' logs (take (max (page_start evs k + l) (page_start evs k + l')) evs)"
      "db_base_dir f' = db_base_dir f" "db_lsm_options f' = db_lsm_options f" "db_disk f' = WriteReceivedPage (db_disk f) ?dir (int k) (wp_data p)" by auto
  note files = log_files_WriteReceivedPage [OF d mirror_length [OF m], of "wp_data p"]
  have "if page_completed p then follower_at crc logs evs f' (Suc k) 0 else follower_at crc logs evs f' k l'"
  proof (cases "page_completed p")
    case True
    have "max (page_start evs k + l) (page_start evs k + l') = page_start evs (Suc k)"
      using page_ok_completed [OF p True] m by (simp add: mirror_def max_def)
    with True mirror_put [OF m p] files f' show ?thesis by (auto simp: follower_at_def)
  next
    case False
    with l have "max (page_start evs k + l) (page_start evs k + l') = page_start evs k + l'" by simp
    with False mirror_put [OF m p] files f' show ?thesis by (auto simp: follower_at_def)
  qed
  then show thesis using that [of f'] f' seg by simp
qed

lemma follower_at_next:
  "follower_at crc logs evs f k l \<Longrightarrow> padded_log evs \<Longrightarrow> NextSegmentToFetch (db_disk f) (db_base_dir f @ ''/wal'') = Some (int k)"
  using mirror_next by (auto simp: follower_at_def)

subsection \<open>The stream between them\<close>

text \<open>The messages on their way bring a follower from \<open>k\<close> pages and \<open>l\<close> events to \<open>k'\<close> pages and \<open>l'\<close> events.\<close>

fun in_line :: "event list \<Rightarrow> nat \<Rightarrow> nat \<Rightarrow> wal_page_data list \<Rightarrow> nat \<Rightarrow> nat \<Rightarrow> bool" where
  "in_line evs k l [] k' l' \<longleftrightarrow> k' = k \<and> l' = l"
| "in_line evs k l (p # ps) k' l' \<longleftrightarrow>
     (\<exists>n. page_ok evs p k n \<and> (if page_completed p then in_line evs (Suc k) 0 ps k' l' else l \<le> n \<and> in_line evs k n ps k' l'))"

lemma in_line_snoc:
  "in_line evs k l ps k' l' \<Longrightarrow> page_ok evs p k' n \<Longrightarrow> page_completed p \<or> l' \<le> n \<Longrightarrow>
   in_line evs k l (ps @ [p]) (if page_completed p then Suc k' else k') (if page_completed p then 0 else n)"
proof (induction ps arbitrary: k l)
  case (Cons q ps)
  then show ?case by (cases "page_completed q") (auto split: if_splits)
qed auto

lemma page_ok_unique:
  assumes "page_ok evs p j l" "page_ok evs p j' l'"
  shows "j' = j" "l' = l"
proof -
  show j: "j' = j" using assms by (simp add: page_ok_def)
  show "l' = l"
  proof (cases "page_completed p")
    case True
    then show ?thesis using assms by (simp add: page_ok_def)
  next
    case False
    then have "events_bytes (page_part evs j l') = events_bytes (page_part evs j l)" using assms j by (simp add: page_ok_def)
    then show ?thesis using page_ok_end [OF assms(1)] page_ok_end [OF assms(2)] j by (intro events_bytes_length_eq [of l' "drop (page_start evs j) evs"]) auto
  qed
qed

text \<open>Where the coroutine of the leader is, when what it has sent ends at \<open>k\<close> pages and \<open>l\<close> events.\<close>

definition sent_to :: "event list \<Rightarrow> nat \<Rightarrow> reactor \<Rightarrow> pump_phase \<Rightarrow> nat \<Rightarrow> nat \<Rightarrow> bool" where
  "sent_to evs m r ph k l \<longleftrightarrow>
     phase_ok evs m (page_start evs k + l) r ph \<and> page_start evs k + l \<le> page_start evs (Suc k) \<and>
     (case ph of
        Finished \<Rightarrow> True
      | Shipping _ \<Rightarrow> k = resume (ger_next_pos r) \<and> page_start evs k + l \<le> m
      | AwaitingWrite p _ \<Rightarrow> k = (if page_completed p then Suc (resume (ger_next_pos r)) else resume (ger_next_pos r)) \<and> page_start evs k + l \<le> m
      | _ \<Rightarrow> k = resume (ger_next_pos r))"

text \<open>A message that the coroutine sends is the next one in line.\<close>

lemma Pump_in_line:
  assumes to: "sent_to evs m r ph k l" and at: "wal_at d w dir 0 [] pre" and evs: "evs = pre @ post" and pad: "padded_log evs"
    and step: "Pump d dir ph r reg = Some (ph', r', reg', msg)" and le: "page_start evs k + l \<le> length pre" "m \<le> length pre"
  defines "m' \<equiv> if ph = Polling then length pre else m"
  shows "case msg of
      None \<Rightarrow> sent_to evs m' r' ph' k l
    | Some p \<Rightarrow> \<exists>n. page_ok evs p k n \<and> (page_completed p \<or> l \<le> n) \<and> page_start evs k + n \<le> length pre \<and>
        sent_to evs m' r' ph' (if page_completed p then Suc k else k) (if page_completed p then 0 else n)"
proof -
  have ok: "phase_ok evs m (page_start evs k + l) r ph" using to by (simp add: sent_to_def)
  note next_ok = Pump_ok [OF ok at evs pad step, folded m'_def]
  show ?thesis
  proof (cases ph)
    case Polling
    with next_ok to step le show ?thesis by (auto simp: sent_to_def m'_def split: if_splits sum.splits)
  next
    case Sleeping
    with next_ok to step show ?thesis by (auto simp: sent_to_def m'_def)
  next
    case Finished
    with step show ?thesis by simp
  next
    case (AwaitingWrite p pages)
    with ok obtain n where "page_ok evs p (resume (ger_next_pos r)) n" by auto
    then have "resume (wp_position p) = resume (ger_next_pos r)"
      "resume \<lparr>segment_no = segment_no (wp_position p), page_no = page_no (wp_position p) + 1\<rparr> = Suc (resume (ger_next_pos r))"
      using resume_next by (auto simp: page_ok_def resume_def)
    with AwaitingWrite next_ok to step show ?thesis by (auto simp: sent_to_def m'_def Let_def split: if_splits)
  next
    case (Shipping pages)
    have k: "k = resume (ger_next_pos r)" "page_start evs k + l \<le> m" "page_start evs k + l \<le> page_start evs (Suc k)" using to Shipping by (auto simp: sent_to_def)
    show ?thesis
    proof (cases msg)
      case None
      with Shipping next_ok k step show ?thesis by (cases pages) (auto simp: sent_to_def m'_def split: if_splits)
    next
      case (Some p)
      then obtain ps where ps: "pages = p # ps" "ph' = AwaitingWrite p ps" "r' = r\<lparr>ger_write_pending := True\<rparr>"
        using Shipping step by (cases pages) (auto split: if_splits)
      then obtain n where n: "page_ok evs p k n" "page_start evs k + n \<le> m" "page_completed p \<or> m \<le> page_start evs k + n"
        using ok Shipping k by (auto split: if_splits)
      from next_ok Some obtain j n' where "page_ok evs p j n'" "phase_ok evs m' (max (page_start evs k + l) (page_start evs j + n')) r' ph'" by auto
      with page_ok_unique [OF n(1)] have ph': "phase_ok evs m' (max (page_start evs k + l) (page_start evs k + n)) r' ph'" by metis
      have max: "max (page_start evs k + l) (page_start evs k + n) = page_start evs k + n" "page_completed p \<or> l \<le> n"
        using n k(2) page_ok_completed [OF n(1)] to by (auto simp: sent_to_def)
      have m': "m' = m" "page_start evs k + n \<le> length pre" using Shipping n(2) le(2) by (simp_all add: m'_def)
      have "sent_to evs m r' ph' (if page_completed p then Suc k else k) (if page_completed p then 0 else n)"
        using ph' [unfolded max(1) m'(1)] n(2) ps page_ok_completed [OF n(1)] page_ok_next [OF n(1)] page_start_mono [of "Suc k" "Suc (Suc k)" evs] k(1)
        by (auto simp: sent_to_def simp del: phase_ok.simps)
      with Some n(1) max(2) m' show ?thesis by auto
    qed
  qed
qed

subsection \<open>Every run\<close>

text \<open>
  The steps of leader, stream and follower, and crashes of the follower: it starts again on its files, the
  messages that were on their way are lost, and it connects again from the first segment that it does
  not have complete. The number of its files is that which four digits can name.
\<close>

inductive crash_step :: "string \<Rightarrow> replication \<Rightarrow> replication \<Rightarrow> bool" for dir where
  running: "repl_step dir s s' \<Longrightarrow> crash_step dir s s'"
| crash: "length (db_disk (rs_follower s)) \<le> 10000 \<Longrightarrow> Restart (rs_follower s) = Inr f \<Longrightarrow>
     NextSegmentToFetch (db_disk f) (db_base_dir f @ ''/wal'') = Some q \<Longrightarrow>
     GetEventsReactor (ger_OnDone (rs_reactor s) (rs_registry s)) \<lparr>segment_no = q, page_no = 0\<rparr> = (r, reg) \<Longrightarrow>
     map_of (reg_positions (ger_OnDone (rs_reactor s) (rs_registry s))) (ger_token r) = None \<Longrightarrow>
     crash_step dir s (s\<lparr>rs_follower := f, rs_phase := Polling, rs_reactor := r, rs_registry := reg, rs_stream := []\<rparr>)"

definition line_inv :: "crc32 \<Rightarrow> string \<Rightarrow> lsm_options \<Rightarrow> storage_logs \<Rightarrow> event list \<Rightarrow> replication \<Rightarrow> bool" where
  "line_inv crc dir opts logs evs s \<longleftrightarrow>
     wal_at (rs_disk s) (rs_writer s) dir 0 [] (rs_events s) \<and> db_lsm_options (rs_follower s) = opts \<and> rs_polled s \<le> length (rs_events s) \<and>
     (\<exists>k l k' l'. follower_at crc logs evs (rs_follower s) k l \<and> in_line evs k l (rs_stream s) k' l' \<and>
        page_start evs k' + l' \<le> length (rs_events s) \<and> sent_to evs (rs_polled s) (rs_reactor s) (rs_phase s) k' l')"

lemma line_invI:
  assumes "wal_at (rs_disk s) (rs_writer s) dir 0 [] (rs_events s)" "db_lsm_options (rs_follower s) = opts" "rs_polled s \<le> length (rs_events s)"
    and "follower_at crc logs evs (rs_follower s) k l" "in_line evs k l (rs_stream s) k' l'"
    and "page_start evs k' + l' \<le> length (rs_events s)" "sent_to evs (rs_polled s) (rs_reactor s) (rs_phase s) k' l'"
  shows "line_inv crc dir opts logs evs s"
  using assms unfolding line_inv_def by blast

lemma line_invE:
  assumes "line_inv crc dir opts logs evs s"
  obtains k l k' l' where "wal_at (rs_disk s) (rs_writer s) dir 0 [] (rs_events s)" "db_lsm_options (rs_follower s) = opts"
    and "rs_polled s \<le> length (rs_events s)" "follower_at crc logs evs (rs_follower s) k l" "in_line evs k l (rs_stream s) k' l'"
    and "page_start evs k' + l' \<le> length (rs_events s)" "sent_to evs (rs_polled s) (rs_reactor s) (rs_phase s) k' l'"
  using assms unfolding line_inv_def by blast

lemma new_connection_sent:
  assumes "follower_at crc logs evs f k l" "GetEventsReactor reg0 \<lparr>segment_no = int k, page_no = 0\<rparr> = (r, reg)"
  shows "sent_to evs m r Polling k l"
proof -
  have "page_start evs k + l \<le> page_start evs (Suc k)" using assms(1) by (auto simp: follower_at_def mirror_def)
  moreover have "ger_next_pos r = \<lparr>segment_no = int k, page_no = 0\<rparr>" "ger_tail_sent_size r = -1"
    using assms(2) by (auto simp: GetEventsReactor_def split: prod.splits)
  ultimately show ?thesis by (simp add: sent_to_def reactor_ok_def page_position_def resume_def)
qed

text \<open>A follower can connect at any time: what it has was in the log when it was sent.\<close>

lemma in_line_mono: "in_line evs k l ps k' l' \<Longrightarrow> page_start evs k + l \<le> page_start evs (Suc k) \<Longrightarrow> page_start evs k + l \<le> page_start evs k' + l'"
proof (induction ps arbitrary: k l)
  case (Cons p ps)
  from Cons.prems(1) obtain n where n: "page_ok evs p k n"
    "if page_completed p then in_line evs (Suc k) 0 ps k' l' else l \<le> n \<and> in_line evs k n ps k' l'" by auto
  show ?case
  proof (cases "page_completed p")
    case True
    then have "page_start evs (Suc k) + 0 \<le> page_start evs k' + l'" using n(2) page_start_mono [of "Suc k" "Suc (Suc k)" evs] by (intro Cons.IH) simp_all
    with Cons.prems(2) show ?thesis by simp
  next
    case False
    then have "page_start evs k + n \<le> page_start evs k' + l'" using n page_ok_next by (intro Cons.IH) auto
    with n(2) False show ?thesis by simp
  qed
qed simp

lemma follower_at_le: "follower_at crc logs evs f k l \<Longrightarrow> page_start evs k + l \<le> page_start evs (Suc k)"
  by (auto simp: follower_at_def mirror_def)

lemma line_inv_connect:
  assumes inv: "line_inv crc dir opts logs evs s" and pad: "padded_log evs"
    and f: "\<And>k l. follower_at crc logs evs (rs_follower s) k l \<Longrightarrow> follower_at crc logs evs f k l" "db_lsm_options f = opts"
    and q: "NextSegmentToFetch (db_disk f) (db_base_dir f @ ''/wal'') = Some q"
    and r: "GetEventsReactor reg0 \<lparr>segment_no = q, page_no = 0\<rparr> = (r, reg)"
  shows "line_inv crc dir opts logs evs (s\<lparr>rs_follower := f, rs_phase := Polling, rs_reactor := r, rs_registry := reg, rs_stream := []\<rparr>)"
  using inv
proof (rule line_invE)
  fix k l k' l'
  assume at: "wal_at (rs_disk s) (rs_writer s) dir 0 [] (rs_events s)" "rs_polled s \<le> length (rs_events s)"
    and k: "follower_at crc logs evs (rs_follower s) k l" and line: "in_line evs k l (rs_stream s) k' l'" "page_start evs k' + l' \<le> length (rs_events s)"
  note k1 = f(1) [OF k]
  have "q = int k" using follower_at_next [OF k1 pad] q by simp
  with new_connection_sent [OF k1] r have "sent_to evs (rs_polled s) r Polling k l" by simp
  moreover have "page_start evs k + l \<le> length (rs_events s)" using in_line_mono [OF line(1) follower_at_le [OF k]] line(2) by simp
  ultimately show ?thesis using at k1 f(2) by (intro line_invI [where k = k and l = l and k' = k and l' = l]) simp_all
qed

lemma line_inv_deliver:
  assumes inv: "line_inv crc dir opts logs evs s" and ld: "leader_log opts logs evs" and st: "rs_stream s = p # ps"
    and pp: "ProcessPage (rs_follower s) (db_base_dir (rs_follower s) @ ''/wal'') (segment_no (wp_position p)) (wp_data p) = (db, e)"
  shows "e = None" "line_inv crc dir opts logs evs (s\<lparr>rs_stream := (if e = None then ps else []), rs_follower := db\<rparr>)"
proof -
  obtain k l k' l' where at: "wal_at (rs_disk s) (rs_writer s) dir 0 [] (rs_events s)" "db_lsm_options (rs_follower s) = opts" "rs_polled s \<le> length (rs_events s)"
    and k: "follower_at crc logs evs (rs_follower s) k l" and line: "in_line evs k l (rs_stream s) k' l'"
    and to: "page_start evs k' + l' \<le> length (rs_events s)" "sent_to evs (rs_polled s) (rs_reactor s) (rs_phase s) k' l'" using inv by (rule line_invE)
  from line st obtain n where n: "page_ok evs p k n" "page_completed p \<or> l \<le> n"
    "in_line evs (if page_completed p then Suc k else k) (if page_completed p then 0 else n) ps k' l'" by (auto split: if_splits)
  have "leader_log (db_lsm_options (rs_follower s)) logs evs" using ld at(2) by simp
  from follower_at_page [OF k this n(1,2)] obtain f' where
    f': "ProcessPage (rs_follower s) (db_base_dir (rs_follower s) @ ''/wal'') (segment_no (wp_position p)) (wp_data p) = (f', None)"
      "db_lsm_options f' = db_lsm_options (rs_follower s)"
      "if page_completed p then follower_at crc logs evs f' (Suc k) 0 else follower_at crc logs evs f' k n" .
  have e: "e = None" "db = f'" using f'(1) pp by simp_all
  show "e = None" by (rule e(1))
  have fk: "follower_at crc logs evs db (if page_completed p then Suc k else k) (if page_completed p then 0 else n)" using f'(3) e(2) by simp
  show "line_inv crc dir opts logs evs (s\<lparr>rs_stream := (if e = None then ps else []), rs_follower := db\<rparr>)"
    by (rule line_invI [where k = "if page_completed p then Suc k else k" and l = "if page_completed p then 0 else n" and k' = k' and l' = l'])
      (use e(1) fk n(3) at to f'(2) in \<open>simp_all add: e(2)\<close>)
qed

lemma line_inv_pump:
  assumes inv: "line_inv crc dir opts logs evs s" and pad: "padded_log evs" and evs: "evs = rs_events s @ post"
    and step: "Pump (rs_disk s) dir (rs_phase s) (rs_reactor s) (rs_registry s) = Some (ph, r, reg, msg)"
  shows "line_inv crc dir opts logs evs (s\<lparr>rs_phase := ph, rs_reactor := r, rs_registry := reg,
       rs_polled := (if rs_phase s = Polling then length (rs_events s) else rs_polled s),
       rs_stream := rs_stream s @ (case msg of None \<Rightarrow> [] | Some p \<Rightarrow> [p])\<rparr>)"
  using inv
proof (rule line_invE)
  fix k l k' l'
  assume at: "wal_at (rs_disk s) (rs_writer s) dir 0 [] (rs_events s)" "db_lsm_options (rs_follower s) = opts" "rs_polled s \<le> length (rs_events s)"
    and k: "follower_at crc logs evs (rs_follower s) k l" and line: "in_line evs k l (rs_stream s) k' l'"
    and to: "page_start evs k' + l' \<le> length (rs_events s)" "sent_to evs (rs_polled s) (rs_reactor s) (rs_phase s) k' l'"
  note ok = Pump_in_line [OF to(2) at(1) evs pad step to(1) at(3)]
  show ?thesis
  proof (cases msg)
    case None
    show ?thesis by (rule line_invI [where k = k and l = l and k' = k' and l' = l']) (use at k line to ok None in simp_all)
  next
    case (Some p)
    with ok obtain n where n: "page_ok evs p k' n" "page_completed p \<or> l' \<le> n" "page_start evs k' + n \<le> length (rs_events s)"
      "sent_to evs (if rs_phase s = Polling then length (rs_events s) else rs_polled s) r ph (if page_completed p then Suc k' else k') (if page_completed p then 0 else n)" by auto
    have "page_start evs (if page_completed p then Suc k' else k') + (if page_completed p then 0 else n) \<le> length (rs_events s)"
      using n(3) page_ok_completed [OF n(1)] by auto
    then show ?thesis
      by (intro line_invI [where k = k and l = l and k' = "if page_completed p then Suc k' else k'" and l' = "if page_completed p then 0 else n"])
        (use at k in_line_snoc [OF line n(1,2)] n(4) Some in simp_all)
  qed
qed

lemma line_inv_reactor:
  assumes inv: "line_inv crc dir opts logs evs s" and "ger_next_pos r = ger_next_pos (rs_reactor s)" "ger_tail_sent_size r = ger_tail_sent_size (rs_reactor s)"
  shows "line_inv crc dir opts logs evs (s\<lparr>rs_reactor := r\<rparr>)"
proof -
  have "reactor_ok evs n r = reactor_ok evs n (rs_reactor s)" for n using assms(2,3) by (simp add: reactor_ok_def)
  then have phase: "phase_ok evs m n r ph = phase_ok evs m n (rs_reactor s) ph" for m n ph
    using assms(2) by (cases ph) simp_all
  have "sent_to evs m r ph k l = sent_to evs m (rs_reactor s) ph k l" for m ph k l unfolding sent_to_def phase assms(2) by (rule refl)
  then show ?thesis using inv by (simp add: line_inv_def)
qed

lemma line_inv_write:
  assumes inv: "line_inv crc dir opts logs evs s" and w: "ww_Write (rs_disk s) (rs_writer s) ev = (d, w)" "small_event ev"
  shows "line_inv crc dir opts logs evs (s\<lparr>rs_disk := d, rs_writer := w, rs_events := rs_events s @ [ev]\<rparr>)"
  using inv
proof (rule line_invE)
  fix k l k' l'
  assume at: "wal_at (rs_disk s) (rs_writer s) dir 0 [] (rs_events s)" "db_lsm_options (rs_follower s) = opts" "rs_polled s \<le> length (rs_events s)"
    and k: "follower_at crc logs evs (rs_follower s) k l" and line: "in_line evs k l (rs_stream s) k' l'"
    and to: "page_start evs k' + l' \<le> length (rs_events s)" "sent_to evs (rs_polled s) (rs_reactor s) (rs_phase s) k' l'"
  from wal_at_Write [OF at(1) w(2,1)] have "wal_at d w dir 0 [] (rs_events s @ [ev])" .
  then show ?thesis by (intro line_invI [where k = k and l = l and k' = k' and l' = l']) (use at k line to in simp_all)
qed

lemma line_inv_repl_step:
  assumes step: "repl_step dir s s'" and inv: "line_inv crc dir opts logs evs s" and ld: "leader_log opts logs evs" and pad: "padded_log evs"
    and evs: "evs = rs_events s' @ post"
  shows "line_inv crc dir opts logs evs s'"
  using step
proof cases
  case (write_log ev d w)
  then have "small_event ev" using pad evs by (simp add: padded_log_def)
  from line_inv_write [OF inv write_log(2) this] show ?thesis unfolding write_log(1) .
next
  case (other_files d)
  with inv show ?thesis by (auto simp: line_inv_def intro: wal_at_frame)
next
  case (pump ph r reg msg)
  from line_inv_pump [OF inv pad _ pump(2)] evs show ?thesis unfolding pump(1) by simp
next
  case (write_done ok)
  with inv show ?thesis by (auto simp: ger_OnWriteDone_def intro: line_inv_reactor)
next
  case cancel
  with inv show ?thesis by (auto simp: ger_OnCancel_def intro: line_inv_reactor)
next
  case (deliver p ps db e)
  from line_inv_deliver(2) [OF inv ld deliver(2,3)] show ?thesis unfolding deliver(1) .
next
  case (reconnect q r reg)
  have "db_lsm_options (rs_follower s) = opts" using inv by (simp add: line_inv_def)
  from line_inv_connect [OF inv pad _ this reconnect(2,3)] show ?thesis unfolding reconnect(1) by simp
next
  case (other_followers reg)
  with inv show ?thesis by (simp add: line_inv_def)
qed

lemma line_inv_step:
  assumes step: "crash_step dir s s'" and inv: "line_inv crc dir opts logs evs s" and ld: "leader_log opts logs evs" and pad: "padded_log evs"
    and evs: "evs = rs_events s' @ post"
  shows "line_inv crc dir opts logs evs s'"
  using step
proof cases
  case running
  then show ?thesis by (rule line_inv_repl_step [OF _ inv ld pad evs])
next
  case (crash f q r reg)
  have opts: "db_lsm_options (rs_follower s) = opts" using inv by (simp add: line_inv_def)
  have again: "follower_at crc logs evs f k l \<and> db_lsm_options f = opts" if "follower_at crc logs evs (rs_follower s) k l" for k l
    using follower_at_restart [OF that pad _ crash(2)] ld crash(3) opts by (metis sum.inject(2))
  have "\<exists>k l. follower_at crc logs evs (rs_follower s) k l" using inv by (auto simp: line_inv_def)
  with again have "db_lsm_options f = opts" by blast
  from line_inv_connect [OF inv pad _ this crash(4,5)] again show ?thesis unfolding crash(1) by blast
qed

lemma crash_step_events:
  assumes "crash_step dir s s'"
  obtains new where "rs_events s' = rs_events s @ new"
  using assms by cases (auto elim: repl_step_events)

lemma line_inv_run:
  assumes "(crash_step dir)\<^sup>*\<^sup>* s s'" "line_inv crc dir opts logs evs s" "leader_log opts logs evs" "padded_log evs" "evs = rs_events s' @ post"
  shows "line_inv crc dir opts logs evs s'"
  using assms(1,5)
proof (induction arbitrary: post rule: rtranclp_induct)
  case base
  show ?case by (rule assms(2))
next
  case (step s1 s2)
  obtain new where "rs_events s2 = rs_events s1 @ new" using step.hyps(2) by (rule crash_step_events)
  with step.prems step.IH [of "new @ post"] have "line_inv crc dir opts logs evs s1" by simp
  from line_inv_step [OF step.hyps(2) this assms(3,4) step.prems] show ?case .
qed

lemma line_inv_init:
  assumes "db_Init (Database [] [] base opts) = Inr f" "good_options opts" "leader_log opts logs evs" "padded_log evs"
  shows "line_inv crc dir opts logs evs (repl_init dir f)"
proof -
  note at = follower_at_new [OF assms] new_follower_files(3) [OF assms]
  obtain d w where dw: "Writer_Open [] dir = (d, w)" by fastforce
  obtain r reg where r: "GetEventsReactor FollowerRegistry \<lparr>segment_no = 0, page_no = 0\<rparr> = (r, reg)" by fastforce
  have init: "repl_init dir f = \<lparr>rs_disk = d, rs_writer = w, rs_events = [], rs_registry = reg, rs_phase = Polling, rs_reactor = r,
          rs_polled = 0, rs_stream = [], rs_follower = f\<rparr>" by (simp add: repl_init_def dw r)
  have "wal_at d w dir 0 [] []" using wal_at_open [OF wal_holds_empty dw] by simp
  moreover have "sent_to evs 0 r Polling 0 0" using new_connection_sent [OF at(1)] r by simp
  ultimately show ?thesis unfolding init by (intro line_invI [where k = 0 and l = 0 and k' = 0 and l' = 0]) (use at in simp_all)
qed

lemma follower_prefix:
  assumes "db_Init (Database [] [] base opts) = Inr f" "good_options opts"
    and "(crash_step dir)\<^sup>*\<^sup>* (repl_init dir f) s" and "leader_log opts logs (rs_events s)" and "padded_log (rs_events s)"
  obtains n where "n \<le> length (rs_events s)" "follows crc (rs_follower s) logs (take n (rs_events s))"
    "rs_phase s = Sleeping \<Longrightarrow> rs_stream s = [] \<Longrightarrow> rs_polled s \<le> n"
    "\<And>p ps. rs_stream s = p # ps \<Longrightarrow>
      snd (ProcessPage (rs_follower s) (db_base_dir (rs_follower s) @ ''/wal'') (segment_no (wp_position p)) (wp_data p)) = None"
    "length (db_disk (rs_follower s)) \<le> 10000 \<Longrightarrow>
      \<exists>f'. Restart (rs_follower s) = Inr f' \<and> follows crc f' logs (take n (rs_events s))"
proof -
  have inv: "line_inv crc dir opts logs (rs_events s) s"
    by (rule line_inv_run [OF assms(3) line_inv_init [OF assms(1,2,4,5)] assms(4,5)]) simp
  then obtain k l k' l' where k: "follower_at crc logs (rs_events s) (rs_follower s) k l" "db_lsm_options (rs_follower s) = opts"
    "in_line (rs_events s) k l (rs_stream s) k' l'" "sent_to (rs_events s) (rs_polled s) (rs_reactor s) (rs_phase s) k' l'" by (rule line_invE)
  let ?n = "page_start (rs_events s) k + l"
  have "?n \<le> length (rs_events s)" using follower_at_le [OF k(1)] page_start_le [of "rs_events s" "Suc k"] by simp
  moreover have "follows crc (rs_follower s) logs (take ?n (rs_events s))" using k(1) by (simp add: follower_at_def)
  moreover have "rs_polled s \<le> ?n" if "rs_phase s = Sleeping" "rs_stream s = []" using k(3,4) that by (auto simp: sent_to_def)
  moreover have "snd (ProcessPage (rs_follower s) (db_base_dir (rs_follower s) @ ''/wal'') (segment_no (wp_position p)) (wp_data p)) = None"
    if "rs_stream s = p # ps" for p ps
    using line_inv_deliver(1) [OF inv assms(4) that] by (metis prod.exhaust_sel)
  moreover have "\<exists>f'. Restart (rs_follower s) = Inr f' \<and> follows crc f' logs (take ?n (rs_events s))" if "length (db_disk (rs_follower s)) \<le> 10000"
    using follower_at_restart [OF k(1) assms(5) _ that] assms(4) k(2) by (metis follower_at_def)
  ultimately show thesis by (rule that)
qed

text \<open>
  C4. Replication keeps the order and leaves no gap: however the writes of the leader, the polls and
  writes of the stream, broken connections, the deliveries and crashes of the follower interleave, what a follower started in an empty
  directory has applied is a prefix of the log of the leader, and delivering a page never fails.
  Whenever the stream is idle with no message on its way, the prefix reaches at
  least as far as the log did at the last poll. And a crash loses nothing of the prefix: the follower can be started
  again on its files, as long as four digits number them, and has the same events.
\<close>

theorem follower_has_prefix:
  assumes "db_Init (Database [] [] base opts) = Inr f" "good_options opts"
    and "(crash_step dir)\<^sup>*\<^sup>* (repl_init dir f) s" and "leader_log opts logs (rs_events s)" and "padded_log (rs_events s)"
  shows "\<exists>n \<le> length (rs_events s). follows crc (rs_follower s) logs (take n (rs_events s)) \<and>
    (rs_phase s = Sleeping \<and> rs_stream s = [] \<longrightarrow> rs_polled s \<le> n) \<and>
    (\<forall>p ps. rs_stream s = p # ps \<longrightarrow>
      snd (ProcessPage (rs_follower s) (db_base_dir (rs_follower s) @ ''/wal'') (segment_no (wp_position p)) (wp_data p)) = None) \<and>
    (length (db_disk (rs_follower s)) \<le> 10000 \<longrightarrow>
      (\<exists>f'. Restart (rs_follower s) = Inr f' \<and> follows crc f' logs (take n (rs_events s))))"
proof -
  obtain n where "n \<le> length (rs_events s)" "follows crc (rs_follower s) logs (take n (rs_events s))"
    "rs_phase s = Sleeping \<Longrightarrow> rs_stream s = [] \<Longrightarrow> rs_polled s \<le> n"
    "\<And>p ps. rs_stream s = p # ps \<Longrightarrow>
      snd (ProcessPage (rs_follower s) (db_base_dir (rs_follower s) @ ''/wal'') (segment_no (wp_position p)) (wp_data p)) = None"
    "length (db_disk (rs_follower s)) \<le> 10000 \<Longrightarrow> \<exists>f'. Restart (rs_follower s) = Inr f' \<and> follows crc f' logs (take n (rs_events s))"
    by (rule follower_prefix [OF assms]) (rule that)
  then show ?thesis by blast
qed


subsection \<open>One event\<close>

lemma runs_with_no_crash: "(repl_step dir)\<^sup>*\<^sup>* s s' \<Longrightarrow> (crash_step dir)\<^sup>*\<^sup>* s s'"
  by (induction rule: rtranclp_induct) (auto intro: running rtranclp.rtrancl_into_rtrancl)

text \<open>A new follower has one segment, which the first page overwrites.\<close>

lemma first_page_files:
  assumes "db_Init (Database [] [] base opts) = Inr f" "good_options opts" "leader_log opts logs evs" "padded_log evs"
    and "holds_events data evs"
  shows "length (db_disk (fst (ProcessPage f (db_base_dir f @ ''/wal'') 0 data))) = 1"
proof -
  note f = new_follower_files [OF assms(1-4)]
  have "follows (\<lambda>_. 0) f logs (take 0 evs)" "leader_log (db_lsm_options f) logs evs" "holds_events data (take (length evs) (drop 0 evs))"
    using f(1,3) assms(3,5) by simp_all
  from ProcessPage_range [OF this(1,2) _ _ this(3), of 0] obtain f' where
    "ProcessPage f (db_base_dir f @ ''/wal'') (int 0) data = (f', None)" "db_disk f' = WriteReceivedPage (db_disk f) (db_base_dir f @ ''/wal'') (int 0) data" by auto
  moreover have "log_files (WriteReceivedPage (db_disk f) (db_base_dir f @ ''/wal'') (int 0) data) (db_base_dir f @ ''/wal'') (put_segment [[]] 0 data)"
    using f(2,4) by (intro log_files_WriteReceivedPage) simp_all
  from log_files_length [OF this] have "length (WriteReceivedPage (db_disk f) (db_base_dir f @ ''/wal'') (int 0) data) = 1" by (simp add: put_segment_def)
  ultimately show ?thesis by simp
qed

theorem follower_has_prefix_witness:
  "\<exists>f s f'. db_Init (Database [] [] ''follower'' default_options) = Inr f \<and> (crash_step ''leader/wal'')\<^sup>*\<^sup>* (repl_init ''leader/wal'' f) s \<and>
    rs_events s = [TxStorageCommitEvent 10] \<and> ts_IsCommited (db_tx_storage (rs_follower s)) 10 \<and>
    Restart (rs_follower s) = Inr f' \<and> ts_IsCommited (db_tx_storage f') 10"
proof -
  let ?ev = "TxStorageCommitEvent 10"
  have ev: "small_event ?ev" "int (length (event_bytes ?ev)) < kWalPageSize" by (simp_all add: small_event_def kWalPageSize_def)
  have opts: "good_options default_options" by (simp add: default_options_def good_options_def good_page_size_def file_fits_def)
  obtain f where f: "db_Init (Database [] [] ''follower'' default_options) = Inr f" by (rule new_follower)
  obtain s where s: "(repl_step ''leader/wal'')\<^sup>*\<^sup>* (repl_init ''leader/wal'' f) s" "rs_events s = [?ev]" "rs_phase s = Sleeping"
    "rs_stream s = []" "rs_polled s = 1" "rs_follower s = fst (ProcessPage f (db_base_dir f @ ''/wal'') 0 (event_bytes ?ev))"
    by (rule one_event_run [OF ev])
  have ld: "leader_log default_options [] (rs_events s)" "padded_log (rs_events s)"
    using one_page [OF ev(2,1)] by (simp_all add: s(2) leader_log_def)
  have "holds_events (event_bytes ?ev) (rs_events s)"
    using ev by (auto simp: s(2) holds_events_def small_event_def events_bytes_def intro: exI [of _ 0])
  from first_page_files [OF f opts ld this] have "length (db_disk (rs_follower s)) \<le> 10000" unfolding s(6) by simp
  with follower_has_prefix [OF f opts runs_with_no_crash [OF s(1)] ld, of "\<lambda>_. 0"] s(2-5) obtain f' where
    "follows (\<lambda>_. 0) (rs_follower s) [] [?ev]" "Restart (rs_follower s) = Inr f'" "follows (\<lambda>_. 0) f' [] [?ev]" by auto
  moreover from this have "ts_IsCommited (db_tx_storage (rs_follower s)) 10" "ts_IsCommited (db_tx_storage f') 10" by (simp_all add: follows_def)
  ultimately show ?thesis using f runs_with_no_crash [OF s(1)] s(2) by blast
qed


end
