(* ===== verification/Log_Retention.thy ===== *)
theory Log_Retention
  imports Replication_Runs
begin

section \<open>Cleaning the log under replication\<close>

text \<open>
  The job that cleans the log asks the registry of followers for the segments it has to leave. A
  connected follower finds every page it still needs. The segment that the writer has open is not
  among what is left.
\<close>

subsection \<open>What cleaning leaves\<close>

lemma DeleteObsoleteSegments_distinct: "distinct (map fst d) \<Longrightarrow> distinct (map fst (DeleteObsoleteSegments d dir retain sp))"
  by (induction d dir retain sp rule: DeleteObsoleteSegments.induct) (simp_all add: io_Remove_def distinct_delete)

lemma wal_Clean_files:
  assumes "wal_Clean persistent d dir retain = Inr d'"
  shows "map_of d' path = None \<or> map_of d' path = map_of d path" "distinct (map fst d) \<Longrightarrow> distinct (map fst d')"
  using assms by (auto simp: wal_Clean_def bindE_Inr_conv DeleteObsoleteSegments_lookup DeleteObsoleteSegments_distinct split: if_splits)

lemma wal_Clean_holds:
  assumes "wal_Clean persistent d dir retain = Inr d'" "dir_holds d dir ''.wal.sdb'' xs"
  shows "dir_holds d' dir ''.wal.sdb'' (filter (\<lambda>(i, c). map_of d' (numbered_path dir ''.wal.sdb'' i) \<noteq> None) xs)"
proof -
  let ?ys = "filter (\<lambda>(i, c). map_of d' (numbered_path dir ''.wal.sdb'' i) \<noteq> None) xs"
  have "map_of d' (numbered_path dir ''.wal.sdb'' i) = Some c" if "(i, c) \<in> set ?ys" for i c
    using that wal_Clean_files(1) [OF assms(1), of "numbered_path dir ''.wal.sdb'' i"] assms(2) by (auto simp: dir_holds_def)
  moreover have "\<exists>i \<in> fst ` set ?ys. path = numbered_path dir ''.wal.sdb'' i" if "path \<in> fst ` set d'" "in_directory dir path" for path
  proof -
    have "path \<in> fst ` set d" using that(1) wal_Clean_files(1) [OF assms(1), of path] by (auto simp: in_fst_set_conv)
    with that(2) assms(2) obtain i c where "(i, c) \<in> set xs" "path = numbered_path dir ''.wal.sdb'' i" unfolding dir_holds_def by fastforce
    with that(1) show ?thesis by (auto simp: in_fst_set_conv intro!: image_eqI [of i fst "(i, c)"])
  qed
  moreover have "sorted_wrt (<) (map fst ?ys)" using assms(2) by (simp add: dir_holds_def sorted_wrt_map sorted_wrt_filter)
  ultimately show ?thesis using wal_Clean_files(2) [OF assms(1)] assms(2) unfolding dir_holds_def by blast
qed

lemma wal_Clean_collect:
  assumes clean: "wal_Clean persistent d dir (Some retain) = Inr d'" and wal: "wal_holds d dir xs evss" and ret: "retain \<le> segment_no from"
  shows "CollectPagesFrom d' dir from = CollectPagesFrom d dir from"
proof -
  let ?P = "\<lambda>(i, c). map_of d' (numbered_path dir ''.wal.sdb'' i) \<noteq> None"
  have h: "dir_holds d dir ''.wal.sdb'' xs" using wal by (simp add: wal_holds_def)
  from wal have "list_all2 (\<lambda>x evs. holds_events (snd x) evs) xs evss" by (simp add: wal_holds_def)
  then have "\<forall>x \<in> set xs. \<exists>evs. holds_events (snd x) evs" by (induction rule: list_all2_induct) auto
  then have "\<forall>x \<in> set xs. int (length (snd x)) \<le> kWalPageSize" by (auto simp: holds_events_def)
  moreover have "\<forall>x \<in> set xs. fst x < 10000" using wal by (simp add: wal_holds_def)
  ultimately have len: "\<forall>(i, c) \<in> set (filter ?P xs). i < 10000 \<and> int (length c) \<le> kWalPageSize" by force
  have "?P (i, c)" if "(i, c) \<in> set xs" "page_wanted from (i, c)" for i c
  proof -
    have "segment_no from \<le> int i" using that(2) by (auto simp: page_wanted_def page_at_def position_less_def split: if_splits)
    with wal_Clean_retains [OF clean, of i] ret have "map_of d' (numbered_path dir ''.wal.sdb'' i) = map_of d (numbered_path dir ''.wal.sdb'' i)"
      by (simp add: segment_path_numbered)
    moreover have "map_of d (numbered_path dir ''.wal.sdb'' i) = Some c" using h that(1) unfolding dir_holds_def by blast
    ultimately show ?thesis by simp
  qed
  then have "filter (page_wanted from) (filter ?P xs) = filter (page_wanted from) xs" by (auto simp: filter_filter intro!: filter_cong)
  with CollectPagesFrom_files [OF wal_Clean_holds [OF clean h] len, of "from"] CollectPagesFrom_pages [OF wal, of "from"] show ?thesis by simp
qed

subsection \<open>What the registry knows\<close>

lemma fold_min_le:
  fixes m :: int
  shows "fold (\<lambda>(token, pos) m. min m (segment_no pos)) ps m \<le> m"
    "(t, pos) \<in> set ps \<Longrightarrow> fold (\<lambda>(token, pos) m. min m (segment_no pos)) ps m \<le> segment_no pos"
proof (induction ps arbitrary: m)
  case (Cons p ps)
  obtain t' pos' where p: "p = (t', pos')" by fastforce
  { case 1 show ?case using Cons.IH(1) [of "min m (segment_no pos')"] by (simp add: p) }
  { case 2
    then consider "(t, pos) = p" | "(t, pos) \<in> set ps" by auto
    then show ?case
    proof cases
      case 1
      then show ?thesis using Cons.IH(1) [of "min m (segment_no pos)"] by (auto simp: p)
    next
      case 2
      then show ?thesis using Cons.IH(2) [of "min m (segment_no pos')"] by (simp add: p)
    qed }
qed simp_all

lemma MinRetainedSegment_le:
  assumes "map_of (reg_positions reg) token = Some pos"
  obtains m where "reg_MinRetainedSegment reg = Some m" "m \<le> segment_no pos"
proof (cases "reg_positions reg")
  case (Cons p ps)
  then have "reg_MinRetainedSegment reg = Some (fold (\<lambda>(token, pos) m. min m (segment_no pos)) (reg_positions reg) (segment_no (snd p)))"
    by (simp add: reg_MinRetainedSegment_def split: prod.splits)
  then show thesis using fold_min_le(2) [OF map_of_SomeD [OF assms]] by (rule that)
qed (use assms in simp)

definition registered :: "replication \<Rightarrow> bool" where
  "registered s \<longleftrightarrow>
     (\<exists>pos. map_of (reg_positions (rs_registry s)) (ger_token (rs_reactor s)) = Some pos \<and>
        segment_no pos \<le> segment_no (ger_next_pos (rs_reactor s)))"

lemma Register_lookup:
  assumes "GetEventsReactor reg from = (r, reg')" "map_of (reg_positions reg) (ger_token r) = None"
  shows "map_of (reg_positions reg') (ger_token r) = Some from" "ger_next_pos r = from"
  using assms by (auto simp: GetEventsReactor_def reg_Register_def Let_def map_add_def split: option.splits)

lemma Pump_registered:
  assumes step: "Pump d dir ph r reg = Some (ph', r', reg', msg)" and ok: "phase_ok evs m n r ph"
    and pos: "map_of (reg_positions reg) (ger_token r) = Some pos" "segment_no pos \<le> segment_no (ger_next_pos r)"
  shows "\<exists>pos'. map_of (reg_positions reg') (ger_token r') = Some pos' \<and> segment_no pos' \<le> segment_no (ger_next_pos r')"
proof (cases ph)
  case Polling
  with step pos show ?thesis by (auto split: if_splits sum.splits)
next
  case (Shipping pages)
  with step pos show ?thesis by (cases pages) (auto split: if_splits)
next
  case (AwaitingWrite p pages)
  with ok obtain l where "page_ok evs p (resume (ger_next_pos r)) l" "page_position (ger_next_pos r)" by (auto simp: reactor_ok_def)
  then have "segment_no (ger_next_pos r) \<le> segment_no (wp_position p)" by (auto simp: page_ok_def resume_def page_position_def)
  with AwaitingWrite step pos show ?thesis by (auto simp: reg_Update_def update_conv' Let_def split: if_splits)
qed (use step pos in auto)

lemma registered_step:
  assumes "repl_step dir s s'" "repl_inv crc dir opts logs evs s" "registered s"
  shows "registered s'"
  using assms(1)
proof cases
  case (pump ph r reg msg)
  from assms(2) obtain n m where "phase_ok evs (rs_polled s) m (rs_reactor s) (rs_phase s)" by (rule repl_invE)
  from Pump_registered [OF pump(2) this] assms(3) show ?thesis unfolding pump(1) by (auto simp: registered_def)
next
  case (reconnect q r reg)
  from Register_lookup [OF reconnect(3,4)] show ?thesis unfolding reconnect(1) by (auto simp: registered_def)
qed (use assms(3) in \<open>auto simp: registered_def ger_OnWriteDone_def ger_OnCancel_def\<close>)

lemma registered_run:
  assumes "(repl_step dir)\<^sup>*\<^sup>* s s'" "repl_inv crc dir opts logs evs s" "leader_log opts logs evs" "padded_log evs" "evs = rs_events s' @ post" "registered s"
  shows "registered s'"
  using assms(1,5)
proof (induction arbitrary: post rule: rtranclp_induct)
  case base
  show ?case by (rule assms(6))
next
  case (step s1 s2)
  obtain new where new: "rs_events s2 = rs_events s1 @ new" using step.hyps(2) by (rule repl_step_events)
  then have evs: "evs = rs_events s1 @ (new @ post)" using step.prems by simp
  from repl_inv_run [OF step.hyps(1) assms(2-4) evs] have "repl_inv crc dir opts logs evs s1" .
  from registered_step [OF step.hyps(2) this step.IH [OF evs]] show ?case .
qed

lemma registered_init: "registered (repl_init dir f)"
  by (simp add: repl_init_def registered_def GetEventsReactor_def reg_Register_def FollowerRegistry_def Let_def split: prod.splits)

text \<open>
  C17. Cleaning the log does not take anything away from a connected follower: at every moment of every
  run, with other followers connected or not, whatever segments the cleaner finds obsolete, the pages that the coroutine of
  the follower collects next are the same after the cleaning as before.
\<close>

theorem cleaning_keeps_stream:
  assumes "db_Init (Database [] [] base opts) = Inr f" "good_options opts"
    and "(repl_step dir)\<^sup>*\<^sup>* (repl_init dir f) s" and "leader_log opts logs (rs_events s)" and "padded_log (rs_events s)"
    and "wal_Clean persistent (rs_disk s) dir (reg_MinRetainedSegment (rs_registry s)) = Inr d'"
  shows "CollectPagesFrom d' dir (ger_next_pos (rs_reactor s)) = CollectPagesFrom (rs_disk s) dir (ger_next_pos (rs_reactor s))"
proof -
  note init = repl_inv_init [OF assms(1,2,4), where dir = dir]
  have "repl_inv crc dir opts logs (rs_events s) s" for crc
    by (rule repl_inv_run [OF assms(3) init assms(4,5)]) simp
  then obtain w where "wal_at (rs_disk s) w dir 0 [] (rs_events s)" unfolding repl_inv_def by blast
  from wal_at_files [OF this] assms(5) obtain xs evss where wal: "wal_holds (rs_disk s) dir xs evss" unfolding padded_log_def by auto
  have "registered s" by (rule registered_run [OF assms(3) init assms(4,5) _ registered_init]) simp
  then obtain pos where pos: "map_of (reg_positions (rs_registry s)) (ger_token (rs_reactor s)) = Some pos"
    "segment_no pos \<le> segment_no (ger_next_pos (rs_reactor s))" unfolding registered_def by blast
  obtain m where "reg_MinRetainedSegment (rs_registry s) = Some m" "m \<le> segment_no pos" by (rule MinRetainedSegment_le [OF pos(1)])
  with pos(2) wal_Clean_collect [OF _ wal, of persistent m d'] assms(6) show ?thesis by simp
qed

theorem cleaning_keeps_stream_witness:
  "\<exists>f s d'. db_Init (Database [] [] ''follower'' default_options) = Inr f \<and> (repl_step ''leader/wal'')\<^sup>*\<^sup>* (repl_init ''leader/wal'' f) s \<and>
    wal_Clean (\<lambda>ev. Inr True) (rs_disk s) ''leader/wal'' (reg_MinRetainedSegment (rs_registry s)) = Inr d' \<and>
    CollectPagesFrom d' ''leader/wal'' (ger_next_pos (rs_reactor s)) = CollectPagesFrom (rs_disk s) ''leader/wal'' (ger_next_pos (rs_reactor s))"
proof -
  let ?ev = "TxStorageCommitEvent 10" and ?dir = "''leader/wal''"
  have ev: "small_event ?ev" "int (length (event_bytes ?ev)) < kWalPageSize" by (simp_all add: small_event_def kWalPageSize_def)
  have opts: "good_options default_options" by (simp add: default_options_def good_options_def good_page_size_def file_fits_def)
  obtain f where f: "db_Init (Database [] [] ''follower'' default_options) = Inr f" by (rule new_follower)
  obtain s where s: "(repl_step ?dir)\<^sup>*\<^sup>* (repl_init ?dir f) s" "rs_events s = [?ev]" by (rule one_event_run [OF ev])
  have ld: "leader_log default_options [] (rs_events s)" "padded_log (rs_events s)"
    using one_page [OF ev(2,1)] by (simp_all add: s(2) leader_log_def)
  have "repl_inv (\<lambda>_. 0) ?dir default_options [] (rs_events s) s"
    by (rule repl_inv_run [OF s(1) repl_inv_init [OF f opts ld(1)] ld]) simp
  then obtain w where "wal_at (rs_disk s) w ?dir 0 [] (rs_events s)" unfolding repl_inv_def by blast
  from wal_at_files [OF this] ld(2) obtain xs evss where "wal_holds (rs_disk s) ?dir xs evss" unfolding padded_log_def by auto
  from wal_Clean_lookup [OF this, of "\<lambda>ev. Inr True" "\<lambda>ev. True"] obtain d' where
    "wal_Clean (\<lambda>ev. Inr True) (rs_disk s) ?dir (reg_MinRetainedSegment (rs_registry s)) = Inr d'" by auto
  with cleaning_keeps_stream [OF f opts s(1) ld this] f s(1) show ?thesis by blast
qed

subsection \<open>The open segment\<close>

lemma unlinked_writes_are_lost:
  assumes "fw_path (ww_segment_writer w) \<notin> fst ` set d" "ww_page_size w + int (length (events_bytes evs)) \<le> kWalPageSize"
  shows "fst (ww_WriteAll d w evs) = d"
  using assms
proof (induction evs arbitrary: w)
  case (Cons ev evs)
  have bytes: "bw_Extract (FlushEvent BufferWriter ev) = event_bytes ev" by (rule event_codec.extract_put)
  let ?fw = "fw_Write (ww_segment_writer w) (event_bytes ev)"
  have fits: "\<not> ww_page_size w + int (length (event_bytes ev)) > kWalPageSize" using Cons.prems(2) by simp
  have path: "fw_path ?fw = fw_path (ww_segment_writer w)" by (simp add: fw_Write_def Let_def)
  have "ww_Write d w ev = (d, w\<lparr>ww_segment_writer := ?fw, ww_page_size := ww_page_size w + int (length (event_bytes ev))\<rparr>)"
    using Cons.prems(1) fits by (simp add: ww_Write_def bytes Let_def fw_FSync_def path)
  then show ?case using Cons.prems path by (simp add: Cons.IH)
qed simp



end
