(* ===== verification/Shared_Mutex.thy ===== *)
theory Shared_Mutex
  imports Prelude "HOL-Library.Multiset"
begin

section \<open>Condition variables and shared mutexes\<close>

text \<open>
  \<open>src/src/server/io/condition_variable.cpp\<close> and \<open>io/shared_mutex.cpp\<close>. Coroutines run on one
  thread and switch only where they wait, so a check of a condition and what follows it up to the
  next wait is one step. A coroutine that waits leaves a handler in \<open>waiters_\<close>; calling the handler
  cancels its timer, which makes the coroutine runnable again, and it checks its condition again.
\<close>

subsection \<open>ConditionVariable\<close>

record 't condition_variable =
  cv_waiters :: "'t list"

definition ConditionVariable :: "'t condition_variable" where
  "ConditionVariable = \<lparr>cv_waiters = []\<rparr>"

text \<open>One round of the loop of \<open>Wait\<close>: \<open>None\<close> when the coroutine goes on, otherwise it is suspended.\<close>

definition cv_Wait :: "bool \<Rightarrow> 't \<Rightarrow> 't condition_variable \<Rightarrow> 't condition_variable option" where
  "cv_Wait holds t cv = (if holds then None else Some (cv\<lparr>cv_waiters := cv_waiters cv @ [t]\<rparr>))"

text \<open>The coroutines whose handlers are called, in order.\<close>

fun notify_loop :: "'t list \<Rightarrow> 't list \<Rightarrow> 't list \<times> 't list" where
  "notify_loop [] woken = (woken, [])"
| "notify_loop (t # waiters) woken = notify_loop waiters (woken @ [t])"

definition cv_NotifyAll :: "'t condition_variable \<Rightarrow> 't list \<times> 't condition_variable" where
  "cv_NotifyAll cv = (let (woken, waiters) = notify_loop (cv_waiters cv) [] in (woken, cv\<lparr>cv_waiters := waiters\<rparr>))"

subsection \<open>SharedMutex\<close>

record 't shared_mutex =
  sm_state :: int
  sm_waiters :: "'t list"

definition SharedMutex :: "'t shared_mutex" where
  "SharedMutex = \<lparr>sm_state = 0, sm_waiters = []\<rparr>"

definition sm_TryLock :: "(int \<Rightarrow> bool) \<Rightarrow> 't \<Rightarrow> 't shared_mutex \<Rightarrow> 't shared_mutex option" where
  "sm_TryLock predicate t m = (if predicate (sm_state m) then None else Some (m\<lparr>sm_waiters := sm_waiters m @ [t]\<rparr>))"

definition sm_NotifyWaiters :: "'t shared_mutex \<Rightarrow> 't list \<times> 't shared_mutex" where
  "sm_NotifyWaiters m = (let (woken, waiters) = notify_loop (sm_waiters m) [] in (woken, m\<lparr>sm_waiters := waiters\<rparr>))"

text \<open>The flag tells whether the coroutine has the lock or is suspended.\<close>

definition sm_LockShared :: "'t \<Rightarrow> 't shared_mutex \<Rightarrow> bool \<times> 't shared_mutex" where
  "sm_LockShared t m =
     (case sm_TryLock (\<lambda>state. state \<ge> 0) t m of
        None \<Rightarrow> (True, m\<lparr>sm_state := sm_state m + 1\<rparr>)
      | Some m \<Rightarrow> (False, m))"

definition sm_UnlockShared :: "'t shared_mutex \<Rightarrow> 't list \<times> 't shared_mutex" where
  "sm_UnlockShared m = sm_NotifyWaiters (m\<lparr>sm_state := sm_state m - 1\<rparr>)"

definition sm_LockExclusive :: "'t \<Rightarrow> 't shared_mutex \<Rightarrow> bool \<times> 't shared_mutex" where
  "sm_LockExclusive t m =
     (case sm_TryLock (\<lambda>state. state = 0) t m of
        None \<Rightarrow> (True, m\<lparr>sm_state := -1\<rparr>)
      | Some m \<Rightarrow> (False, m))"

definition sm_UnlockExclusive :: "'t shared_mutex \<Rightarrow> 't list \<times> 't shared_mutex" where
  "sm_UnlockExclusive m = sm_NotifyWaiters (m\<lparr>sm_state := 0\<rparr>)"

lemma notify_loop_eq [simp]: "notify_loop waiters woken = (woken @ waiters, [])"
  by (induction waiters arbitrary: woken) simp_all

lemma sm_Unlock_eq:
  "sm_UnlockShared m = (sm_waiters m, \<lparr>sm_state = sm_state m - 1, sm_waiters = []\<rparr>)"
  "sm_UnlockExclusive m = (sm_waiters m, \<lparr>sm_state = 0, sm_waiters = []\<rparr>)"
  by (simp_all add: sm_UnlockShared_def sm_UnlockExclusive_def sm_NotifyWaiters_def)

subsection \<open>Coroutines that wait for a condition\<close>

text \<open>
  Coroutines that wait on one condition variable for conditions on a shared state: \<open>pred t\<close> is the
  condition of coroutine \<open>t\<close>, \<open>act t\<close> what it does when the condition holds. Changes that can make
  a condition true are followed by \<open>NotifyAll\<close>, others are not.
\<close>

record ('t, 's) monitor =
  mon_shared :: 's
  mon_ready :: "'t set"
  mon_cv :: "'t condition_variable"

inductive mon_step :: "('t \<Rightarrow> 's \<Rightarrow> bool) \<Rightarrow> ('t \<Rightarrow> 's \<Rightarrow> 's) \<Rightarrow> ('t, 's) monitor \<Rightarrow> ('t, 's) monitor \<Rightarrow> bool" for pred act where
  arrive: "mon_step pred act s (s\<lparr>mon_ready := insert t (mon_ready s)\<rparr>)"
| pass: "t \<in> mon_ready s \<Longrightarrow> cv_Wait (pred t (mon_shared s)) t (mon_cv s) = None \<Longrightarrow>
     mon_step pred act s (s\<lparr>mon_shared := act t (mon_shared s), mon_ready := mon_ready s - {t}\<rparr>)"
| block: "t \<in> mon_ready s \<Longrightarrow> cv_Wait (pred t (mon_shared s)) t (mon_cv s) = Some cv \<Longrightarrow>
     mon_step pred act s (s\<lparr>mon_ready := mon_ready s - {t}, mon_cv := cv\<rparr>)"
| notify: "cv_NotifyAll (mon_cv s) = (woken, cv) \<Longrightarrow>
     mon_step pred act s (s\<lparr>mon_shared := x, mon_ready := mon_ready s \<union> set woken, mon_cv := cv\<rparr>)"
| silent: "(\<And>t. pred t x = pred t (mon_shared s)) \<Longrightarrow> mon_step pred act s (s\<lparr>mon_shared := x\<rparr>)"

text \<open>Nobody is suspended whose condition holds.\<close>

definition waits_rightly :: "('t \<Rightarrow> 's \<Rightarrow> bool) \<Rightarrow> ('t, 's) monitor \<Rightarrow> bool" where
  "waits_rightly pred s \<longleftrightarrow> (\<forall>t \<in> set (cv_waiters (mon_cv s)). \<not> pred t (mon_shared s))"

locale monitor_laws =
  fixes pred :: "'t \<Rightarrow> 's \<Rightarrow> bool" and act :: "'t \<Rightarrow> 's \<Rightarrow> 's"
  assumes act_disables: "\<not> pred t x \<Longrightarrow> pred t' x \<Longrightarrow> \<not> pred t (act t' x)"
begin

lemma waits_rightly_step: "mon_step pred act s s' \<Longrightarrow> waits_rightly pred s \<Longrightarrow> waits_rightly pred s'"
  by (induction rule: mon_step.induct)
    (auto simp: waits_rightly_def cv_Wait_def cv_NotifyAll_def act_disables split: if_splits)

lemma no_lost_wakeup: "(mon_step pred act)\<^sup>*\<^sup>* s s' \<Longrightarrow> waits_rightly pred s \<Longrightarrow> waits_rightly pred s'"
  by (induction rule: rtranclp_induct) (auto intro: waits_rightly_step)

text \<open>A coroutine that waits keeps waiting or becomes runnable; it is never forgotten.\<close>

lemma stays_step:
  assumes "mon_step pred act s s'" "t \<in> mon_ready s \<union> set (cv_waiters (mon_cv s))"
  shows "t \<in> mon_ready s' \<union> set (cv_waiters (mon_cv s')) \<or> pred t (mon_shared s)"
  using assms by (induction rule: mon_step.induct) (auto simp: cv_Wait_def cv_NotifyAll_def split: if_splits)

end

subsection \<open>Coroutines that share a mutex\<close>

datatype lock_mode = Shared | Exclusive

record 't mutex_sys =
  ms_mutex :: "('t \<times> lock_mode) shared_mutex"
  ms_ready :: "('t \<times> lock_mode) set"
  ms_holders :: "('t \<times> lock_mode) multiset"

definition mutex_init :: "'t mutex_sys" where
  "mutex_init = \<lparr>ms_mutex = SharedMutex, ms_ready = {}, ms_holders = {#}\<rparr>"

inductive mutex_step :: "'t mutex_sys \<Rightarrow> 't mutex_sys \<Rightarrow> bool" where
  call: "mutex_step s (s\<lparr>ms_ready := insert (t, mode) (ms_ready s)\<rparr>)"
| lock_shared: "(t, Shared) \<in> ms_ready s \<Longrightarrow> sm_LockShared (t, Shared) (ms_mutex s) = (got, m) \<Longrightarrow>
     mutex_step s (s\<lparr>ms_mutex := m, ms_ready := ms_ready s - {(t, Shared)},
       ms_holders := (if got then add_mset (t, Shared) (ms_holders s) else ms_holders s)\<rparr>)"
| lock_exclusive: "(t, Exclusive) \<in> ms_ready s \<Longrightarrow> sm_LockExclusive (t, Exclusive) (ms_mutex s) = (got, m) \<Longrightarrow>
     mutex_step s (s\<lparr>ms_mutex := m, ms_ready := ms_ready s - {(t, Exclusive)},
       ms_holders := (if got then add_mset (t, Exclusive) (ms_holders s) else ms_holders s)\<rparr>)"
| unlock_shared: "(t, Shared) \<in># ms_holders s \<Longrightarrow> sm_UnlockShared (ms_mutex s) = (woken, m) \<Longrightarrow>
     mutex_step s (s\<lparr>ms_mutex := m, ms_ready := ms_ready s \<union> set woken, ms_holders := ms_holders s - {#(t, Shared)#}\<rparr>)"
| unlock_exclusive: "(t, Exclusive) \<in># ms_holders s \<Longrightarrow> sm_UnlockExclusive (ms_mutex s) = (woken, m) \<Longrightarrow>
     mutex_step s (s\<lparr>ms_mutex := m, ms_ready := ms_ready s \<union> set woken, ms_holders := ms_holders s - {#(t, Exclusive)#}\<rparr>)"

text \<open>The state counts the holders.\<close>

definition counts :: "int \<Rightarrow> ('t \<times> lock_mode) multiset \<Rightarrow> bool" where
  "counts state holders \<longleftrightarrow>
     (state = -1 \<and> (\<exists>t. holders = {#(t, Exclusive)#})) \<or> (state = int (size holders) \<and> (\<forall>h \<in># holders. snd h = Shared))"

lemma counts_step:
  assumes "mutex_step s s'" "counts (sm_state (ms_mutex s)) (ms_holders s)"
  shows "counts (sm_state (ms_mutex s')) (ms_holders s')"
  using assms
proof cases
  case (lock_shared t got m)
  with assms(2) show ?thesis by (auto simp: sm_LockShared_def sm_TryLock_def counts_def split: if_splits)
next
  case (lock_exclusive t got m)
  with assms(2) show ?thesis by (auto simp: sm_LockExclusive_def sm_TryLock_def counts_def split: if_splits)
next
  case (unlock_shared t woken m)
  then obtain H where H: "ms_holders s = add_mset (t, Shared) H" by (blast dest: multi_member_split)
  then have "counts (sm_state (ms_mutex s) - 1) (ms_holders s - {#(t, Shared)#})" using assms(2) by (auto simp: counts_def)
  with unlock_shared show ?thesis by (auto simp: sm_Unlock_eq)
next
  case (unlock_exclusive t woken m)
  then have "ms_holders s - {#(t, Exclusive)#} = {#}" using assms(2) by (auto simp: counts_def)
  with unlock_exclusive show ?thesis by (auto simp: sm_Unlock_eq counts_def)
qed simp

text \<open>A mutex is a monitor: the waiting coroutines wait for the state.\<close>

fun can_lock :: "'t \<times> lock_mode \<Rightarrow> int \<Rightarrow> bool" where
  "can_lock (t, Shared) state \<longleftrightarrow> state \<ge> 0"
| "can_lock (t, Exclusive) state \<longleftrightarrow> state = 0"

fun locked :: "'t \<times> lock_mode \<Rightarrow> int \<Rightarrow> int" where
  "locked (t, Shared) state = state + 1"
| "locked (t, Exclusive) state = -1"

interpretation mutex: monitor_laws can_lock locked
proof
  show "\<not> can_lock t x \<Longrightarrow> can_lock t' x \<Longrightarrow> \<not> can_lock t (locked t' x)" for t t' :: "'t \<times> lock_mode" and x
    by (cases t; cases "snd t"; cases t'; cases "snd t'") auto
qed

definition as_monitor :: "'t mutex_sys \<Rightarrow> ('t \<times> lock_mode, int) monitor" where
  "as_monitor s = \<lparr>mon_shared = sm_state (ms_mutex s), mon_ready = ms_ready s, mon_cv = \<lparr>cv_waiters = sm_waiters (ms_mutex s)\<rparr>\<rparr>"

lemma mutex_step_monitor:
  assumes "mutex_step s s'"
  shows "mon_step can_lock locked (as_monitor s) (as_monitor s')"
  using assms
proof cases
  case (call t mode)
  then show ?thesis using arrive [of can_lock locked "as_monitor s" "(t, mode)"] by (simp add: as_monitor_def)
next
  case (lock_shared t got m)
  then show ?thesis
    using pass [of "(t, Shared)" "as_monitor s" can_lock locked] block [of "(t, Shared)" "as_monitor s" can_lock _ locked]
    by (auto simp: as_monitor_def sm_LockShared_def sm_TryLock_def cv_Wait_def split: if_splits)
next
  case (lock_exclusive t got m)
  then show ?thesis
    using pass [of "(t, Exclusive)" "as_monitor s" can_lock locked] block [of "(t, Exclusive)" "as_monitor s" can_lock _ locked]
    by (auto simp: as_monitor_def sm_LockExclusive_def sm_TryLock_def cv_Wait_def split: if_splits)
next
  case (unlock_shared t woken m)
  then show ?thesis
    using notify [of "as_monitor s" "sm_waiters (ms_mutex s)" "\<lparr>cv_waiters = []\<rparr>" can_lock locked "sm_state (ms_mutex s) - 1"]
    by (auto simp: as_monitor_def sm_Unlock_eq cv_NotifyAll_def)
next
  case (unlock_exclusive t woken m)
  then show ?thesis
    using notify [of "as_monitor s" "sm_waiters (ms_mutex s)" "\<lparr>cv_waiters = []\<rparr>" can_lock locked 0]
    by (auto simp: as_monitor_def sm_Unlock_eq cv_NotifyAll_def)
qed

lemma mutex_runs:
  assumes "mutex_step\<^sup>*\<^sup>* mutex_init s"
  shows "counts (sm_state (ms_mutex s)) (ms_holders s)" "\<forall>w \<in> set (sm_waiters (ms_mutex s)). \<not> can_lock w (sm_state (ms_mutex s))"
proof -
  show "counts (sm_state (ms_mutex s)) (ms_holders s)"
    using assms
  proof (induction rule: rtranclp_induct)
    case base
    show ?case by (simp add: mutex_init_def SharedMutex_def counts_def)
  qed (rule counts_step)
  have "(mon_step can_lock locked)\<^sup>*\<^sup>* (as_monitor mutex_init) (as_monitor s)"
    using assms by (induction rule: rtranclp_induct) (auto intro: rtranclp.rtrancl_into_rtrancl mutex_step_monitor)
  from mutex.no_lost_wakeup [OF this] show "\<forall>w \<in> set (sm_waiters (ms_mutex s)). \<not> can_lock w (sm_state (ms_mutex s))"
    by (simp add: waits_rightly_def as_monitor_def mutex_init_def SharedMutex_def)
qed

text \<open>
  C14. The mutex excludes: in every run of any number of coroutines that lock and unlock, a coroutine
  that holds the lock exclusively is the only holder.
\<close>

theorem exclusive_holder_is_alone:
  assumes "mutex_step\<^sup>*\<^sup>* mutex_init s" "(t, Exclusive) \<in># ms_holders s"
  shows "ms_holders s = {#(t, Exclusive)#}"
  using mutex_runs(1) [OF assms(1)] assms(2) by (auto simp: counts_def)

text \<open>
  C20. No wake-up is lost: in every run a coroutine is suspended in the mutex only while another one
  holds it, and one that asks for the shared lock only while another one holds it exclusively. So
  when the last holder has unlocked, every coroutine that waited runs again.
\<close>

theorem waiting_for_a_holder:
  assumes "mutex_step\<^sup>*\<^sup>* mutex_init s" "(t, mode) \<in> set (sm_waiters (ms_mutex s))"
  shows "ms_holders s \<noteq> {#} \<and> (mode = Shared \<longrightarrow> (\<exists>t'. ms_holders s = {#(t', Exclusive)#}))"
  using mutex_runs [OF assms(1)] assms(2) by (cases mode) (force simp: counts_def)+

text \<open>Coroutine \<open>0\<close> holds the lock exclusively, coroutine \<open>1\<close> asks for it and is suspended.\<close>

lemma one_waits:
  obtains s where "mutex_step\<^sup>*\<^sup>* (mutex_init :: nat mutex_sys) s" "ms_holders s = {#(0, Exclusive)#}"
    "(1, Shared) \<in> set (sm_waiters (ms_mutex s))"
proof -
  let ?s0 = "mutex_init :: nat mutex_sys"
  let ?s1 = "?s0\<lparr>ms_ready := {(0, Exclusive)}\<rparr>"
  let ?s2 = "\<lparr>ms_mutex = \<lparr>sm_state = -1, sm_waiters = []\<rparr>, ms_ready = {}, ms_holders = {#(0, Exclusive)#}\<rparr> :: nat mutex_sys"
  let ?s3 = "?s2\<lparr>ms_ready := {(1, Shared)}\<rparr>"
  let ?s4 = "?s2\<lparr>ms_mutex := \<lparr>sm_state = -1, sm_waiters = [(1, Shared)]\<rparr>\<rparr>"
  have "mutex_step ?s0 ?s1" using call [of ?s0 0 Exclusive] by (simp add: mutex_init_def)
  moreover have "mutex_step ?s1 ?s2"
    using lock_exclusive [of 0 ?s1 True "\<lparr>sm_state = -1, sm_waiters = []\<rparr>"]
    by (simp add: mutex_init_def SharedMutex_def sm_LockExclusive_def sm_TryLock_def)
  moreover have "mutex_step ?s2 ?s3" using call [of ?s2 1 Shared] by simp
  moreover have "mutex_step ?s3 ?s4"
    using lock_shared [of 1 ?s3 False "\<lparr>sm_state = -1, sm_waiters = [(1, Shared)]\<rparr>"] by (simp add: sm_LockShared_def sm_TryLock_def)
  ultimately have "mutex_step\<^sup>*\<^sup>* ?s0 ?s4" by (meson rtranclp.rtrancl_into_rtrancl rtranclp.rtrancl_refl)
  then show thesis by (rule that) simp_all
qed

theorem exclusive_holder_is_alone_witness:
  "\<exists>s :: nat mutex_sys. mutex_step\<^sup>*\<^sup>* mutex_init s \<and> ms_holders s = {#(0, Exclusive)#} \<and> sm_waiters (ms_mutex s) \<noteq> []"
proof -
  obtain s where s: "mutex_step\<^sup>*\<^sup>* (mutex_init :: nat mutex_sys) s" "(0, Exclusive) \<in># ms_holders s" "(1, Shared) \<in> set (sm_waiters (ms_mutex s))"
    by (rule one_waits) simp
  from exclusive_holder_is_alone [OF s(1,2)] s(1,3) show ?thesis by auto
qed

theorem waiting_for_a_holder_witness:
  "\<exists>s :: nat mutex_sys. mutex_step\<^sup>*\<^sup>* mutex_init s \<and> (1, Shared) \<in> set (sm_waiters (ms_mutex s)) \<and> (\<exists>t. ms_holders s = {#(t, Exclusive)#})"
proof -
  obtain s where s: "mutex_step\<^sup>*\<^sup>* (mutex_init :: nat mutex_sys) s" "(1, Shared) \<in> set (sm_waiters (ms_mutex s))"
    by (rule one_waits)
  from waiting_for_a_holder [OF s] s show ?thesis by blast
qed

end
