(* ===== verification/Row_Lock_Waiting.thy ===== *)
theory Row_Lock_Waiting
  imports Transactions Shared_Mutex
begin

section \<open>Waiting for row locks\<close>

text \<open>
  \<open>Storage::AcquireRowLock\<close> and \<open>ReleaseAllLocks\<close> with their condition variable
  \<open>lock_available_\<close>: the coroutines that wait for rows, and who wakes them.
\<close>

subsection \<open>Row locks as a monitor\<close>

definition row_free :: "int \<times> string \<Rightarrow> tx_storage \<Rightarrow> bool" where
  "row_free w ts \<longleftrightarrow> ts_row_locks ts (snd w) = None"

definition lock_row :: "int \<times> string \<Rightarrow> tx_storage \<Rightarrow> tx_storage" where
  "lock_row w ts = (case ts_AcquireRowLock ts (fst w) (snd w) of None \<Rightarrow> ts | Some ts \<Rightarrow> ts)"

interpretation rows: monitor_laws row_free lock_row
  by unfold_locales (auto simp: row_free_def lock_row_def ts_AcquireRowLock_def)

text \<open>
  Sessions and the coroutines of their writes. A write starts when its transaction is
  started; a transaction that ends releases its locks and, if it had any, notifies the waiters.
\<close>

type_synonym row_monitor = "(int \<times> string, tx_storage) monitor"

definition end_tx :: "tx_storage \<Rightarrow> row_monitor \<Rightarrow> int \<Rightarrow> row_monitor" where
  "end_tx ts s tx =
     (if ts_tx_locks ts tx = None then s\<lparr>mon_shared := ts\<rparr>
      else let (woken, cv) = cv_NotifyAll (mon_cv s)
           in s\<lparr>mon_shared := ts_ReleaseAllLocks ts tx, mon_ready := mon_ready s \<union> set woken, mon_cv := cv\<rparr>)"

inductive row_step :: "row_monitor \<Rightarrow> row_monitor \<Rightarrow> bool" where
  row_begin: "row_step s (s\<lparr>mon_shared := snd (ts_Begin (mon_shared s))\<rparr>)"
| row_write: "ts_IsStarted (mon_shared s) tx \<Longrightarrow> row_step s (s\<lparr>mon_ready := insert (tx, row) (mon_ready s)\<rparr>)"
| row_acquire: "(tx, row) \<in> mon_ready s \<Longrightarrow> cv_Wait (row_free (tx, row) (mon_shared s)) (tx, row) (mon_cv s) = None \<Longrightarrow>
     row_step s (s\<lparr>mon_shared := lock_row (tx, row) (mon_shared s), mon_ready := mon_ready s - {(tx, row)}\<rparr>)"
| row_wait: "(tx, row) \<in> mon_ready s \<Longrightarrow> cv_Wait (row_free (tx, row) (mon_shared s)) (tx, row) (mon_cv s) = Some cv \<Longrightarrow>
     row_step s (s\<lparr>mon_ready := mon_ready s - {(tx, row)}, mon_cv := cv\<rparr>)"
| row_end: "ts_IsStarted (mon_shared s) tx \<Longrightarrow> st \<noteq> kStarted \<Longrightarrow>
     row_step s (end_tx ((mon_shared s)\<lparr>ts_tx_status := (ts_tx_status (mon_shared s))(tx \<mapsto> st)\<rparr>) s tx)"

definition row_init :: row_monitor where
  "row_init = \<lparr>mon_shared = Tx_Storage, mon_ready = {}, mon_cv = ConditionVariable\<rparr>"

lemma end_tx_shared: "mon_shared (end_tx ts s tx) = ts_ReleaseAllLocks ts tx"
  by (simp add: end_tx_def ts_ReleaseAllLocks_def split: prod.splits option.splits)

lemma row_step_monitor: "row_step s s' \<Longrightarrow> mon_step row_free lock_row s s'"
proof (induction rule: row_step.induct)
  case (row_begin s)
  show ?case by (rule silent) (simp add: row_free_def ts_Begin_def Let_def)
next
  case (row_end s tx st)
  let ?ts = "(mon_shared s)\<lparr>ts_tx_status := (ts_tx_status (mon_shared s))(tx \<mapsto> st)\<rparr>"
  show ?case
  proof (cases "ts_tx_locks ?ts tx")
    case None
    have "mon_step row_free lock_row s (s\<lparr>mon_shared := ?ts\<rparr>)" by (rule silent) (simp add: row_free_def)
    with None show ?thesis by (simp add: end_tx_def)
  next
    case (Some rows)
    obtain woken cv where "cv_NotifyAll (mon_cv s) = (woken, cv)" by fastforce
    with Some notify [OF this, of row_free lock_row "ts_ReleaseAllLocks ?ts tx"] show ?thesis by (simp add: end_tx_def)
  qed
qed (auto intro: mon_step.intros)

lemma row_runs_wait_rightly:
  assumes "row_step\<^sup>*\<^sup>* row_init s" "(tx, row) \<in> set (cv_waiters (mon_cv s))"
  shows "ts_row_locks (mon_shared s) row \<noteq> None"
proof -
  have "(mon_step row_free lock_row)\<^sup>*\<^sup>* row_init s"
    using assms(1) by (induction rule: rtranclp_induct) (auto intro: rtranclp.rtrancl_into_rtrancl row_step_monitor)
  from rows.no_lost_wakeup [OF this] assms(2) show ?thesis
    by (auto simp: waits_rightly_def row_init_def ConditionVariable_def row_free_def)
qed

text \<open>The maps of the lock table agree; the part of \<open>ts_inv\<close> that waiting does not break.\<close>

definition locks_agree :: "tx_storage \<Rightarrow> bool" where
  "locks_agree ts \<longleftrightarrow> (\<forall>tx row. ts_row_locks ts row = Some tx \<longleftrightarrow> row \<in> tx_rows ts tx) \<and> (\<forall>tx. ts_tx_status ts tx \<noteq> None \<longrightarrow> tx < ts_next_tx_id ts)"

lemma locks_agree_release:
  assumes "locks_agree ts" "tx < ts_next_tx_id ts"
  shows "locks_agree (ts_ReleaseAllLocks (ts\<lparr>ts_tx_status := (ts_tx_status ts)(tx \<mapsto> st)\<rparr>) tx)"
    "ts_row_locks (ts_ReleaseAllLocks (ts\<lparr>ts_tx_status := (ts_tx_status ts)(tx \<mapsto> st)\<rparr>) tx) row =
      (if ts_row_locks ts row = Some tx then None else ts_row_locks ts row)"
proof -
  let ?ts = "ts\<lparr>ts_tx_status := (ts_tx_status ts)(tx \<mapsto> st)\<rparr>"
  have locks: "ts_row_locks (ts_ReleaseAllLocks ?ts tx) row = (if ts_row_locks ts row = Some tx then None else ts_row_locks ts row)" for row
    using assms(1) by (auto simp: locks_agree_def ts_ReleaseAllLocks_def tx_rows_def release_rows_eq split: option.split)
  have rows: "tx_rows (ts_ReleaseAllLocks ?ts tx) tx' = (if tx' = tx then {} else tx_rows ts tx')" for tx'
    using ReleaseAllLocks_tx_rows [of ?ts tx tx'] by (simp add: tx_rows_def)
  have uniq: "a = b" if "row \<in> tx_rows ts a" "row \<in> tx_rows ts b" for a b row
    using assms(1) that unfolding locks_agree_def by (metis option.inject)
  show "locks_agree (ts_ReleaseAllLocks ?ts tx)"
    using assms unfolding locks_agree_def locks rows by (auto split: if_splits) (use uniq in blast)+
  show "ts_row_locks (ts_ReleaseAllLocks ?ts tx) row = (if ts_row_locks ts row = Some tx then None else ts_row_locks ts row)" by (rule locks)
qed

lemma locks_agree_step:
  assumes "row_step s s'" "locks_agree (mon_shared s)"
  shows "locks_agree (mon_shared s')"
  using assms
proof (induction rule: row_step.induct)
  case (row_begin s)
  then show ?case by (fastforce simp: locks_agree_def ts_Begin_def Let_def tx_rows_def)
next
  case (row_acquire tx row s)
  then show ?case
    by (fastforce simp: locks_agree_def lock_row_def ts_AcquireRowLock_def tx_rows_def cv_Wait_def row_free_def split: if_splits option.splits)
next
  case (row_end s tx st)
  then have "tx < ts_next_tx_id (mon_shared s)" by (auto simp: locks_agree_def ts_IsStarted_def)
  from locks_agree_release(1) [OF row_end(3) this] show ?case by (simp add: end_tx_shared)
qed simp_all

lemma locks_agree_run: "row_step\<^sup>*\<^sup>* row_init s \<Longrightarrow> locks_agree (mon_shared s)"
proof (induction rule: rtranclp_induct)
  case base
  show ?case by (simp add: row_init_def locks_agree_def Tx_Storage_def tx_rows_def)
qed (rule locks_agree_step)

text \<open>
  C19. A write waits only while its row is locked, and ending the transaction that holds the row wakes
  it: in every interleaving of sessions, a coroutine that is suspended in \<open>AcquireRowLock\<close> waits for a row some transaction holds, and when that
  transaction ends the row is free and the coroutine runs again.
\<close>

theorem row_waiter_is_woken:
  assumes "row_step\<^sup>*\<^sup>* row_init s" "(tx, row) \<in> set (cv_waiters (mon_cv s))"
  shows "\<exists>holder. ts_row_locks (mon_shared s) row = Some holder \<and>
    (ts_IsStarted (mon_shared s) holder \<longrightarrow>
      (let s' = end_tx ((mon_shared s)\<lparr>ts_tx_status := (ts_tx_status (mon_shared s))(holder \<mapsto> st)\<rparr>) s holder
       in (tx, row) \<in> mon_ready s' \<and> ts_row_locks (mon_shared s') row = None))"
proof -
  from row_runs_wait_rightly [OF assms] obtain holder where h: "ts_row_locks (mon_shared s) row = Some holder" by auto
  note agree = locks_agree_run [OF assms(1)]
  let ?ts = "(mon_shared s)\<lparr>ts_tx_status := (ts_tx_status (mon_shared s))(holder \<mapsto> st)\<rparr>"
  have "row \<in> tx_rows (mon_shared s) holder" using agree h by (simp add: locks_agree_def)
  then have "ts_tx_locks ?ts holder \<noteq> None" by (auto simp: tx_rows_def split: option.splits)
  then have "(tx, row) \<in> mon_ready (end_tx ?ts s holder)" using assms(2) by (auto simp: end_tx_def cv_NotifyAll_def)
  moreover have "ts_row_locks (mon_shared (end_tx ?ts s holder)) row = None" if "ts_IsStarted (mon_shared s) holder"
  proof -
    have "holder < ts_next_tx_id (mon_shared s)" using agree that by (auto simp: locks_agree_def ts_IsStarted_def)
    from locks_agree_release(2) [OF agree this] h show ?thesis by (simp add: end_tx_shared)
  qed
  ultimately show ?thesis using h by (auto simp: Let_def)
qed

subsection \<open>A lock that is never released\<close>

text \<open>A transaction that has ended stays ended.\<close>

lemma ended_step:
  assumes "row_step s s'" "\<not> ts_IsStarted (mon_shared s) tx" "tx < ts_next_tx_id (mon_shared s)" "locks_agree (mon_shared s)"
    and "ts_row_locks (mon_shared s) row = Some tx"
  shows "\<not> ts_IsStarted (mon_shared s') tx \<and> tx < ts_next_tx_id (mon_shared s') \<and> ts_row_locks (mon_shared s') row = Some tx"
  using assms
proof (induction rule: row_step.induct)
  case (row_end s tx' st)
  have "tx' < ts_next_tx_id (mon_shared s)" using row_end(1,5) by (auto simp: locks_agree_def ts_IsStarted_def)
  from locks_agree_release(2) [OF row_end(5) this, of st row] row_end show ?case
    by (auto simp: end_tx_shared ts_IsStarted_def)
qed (auto simp: ts_Begin_def ts_IsStarted_def Let_def lock_row_def ts_AcquireRowLock_def cv_Wait_def row_free_def split: if_splits option.splits)


text \<open>Transaction \<open>10\<close> holds a row that transaction \<open>11\<close> waits for; then \<open>11\<close> ends, and after it \<open>10\<close>.\<close>

lemma waiting_run:
  obtains s1 s2 where "row_step\<^sup>*\<^sup>* row_init s1" "(11, ''k'') \<in> set (cv_waiters (mon_cv s1))" "ts_row_locks (mon_shared s1) ''k'' = Some 10"
    "ts_IsStarted (mon_shared s1) 10" "row_step\<^sup>*\<^sup>* row_init s2" "ts_row_locks (mon_shared s2) ''k'' = Some 11" "\<not> ts_IsStarted (mon_shared s2) 11"
    "ts_next_tx_id (mon_shared s2) = 12"
proof -
  let ?st = "(Map.empty(10 \<mapsto> kStarted))(11 \<mapsto> kStarted)"
  let ?ts = "\<lambda>st rows txs. \<lparr>ts_next_tx_id = 12, ts_tx_status = st, ts_wal_writer = False, ts_row_locks = rows, ts_tx_locks = txs\<rparr>"
  let ?mon = "\<lambda>ts ready cv. \<lparr>mon_shared = ts, mon_ready = ready, mon_cv = \<lparr>cv_waiters = cv\<rparr>\<rparr>"
  let ?free = "?ts ?st Map.empty Map.empty" and ?held = "?ts ?st [''k'' \<mapsto> 10] [10 \<mapsto> [''k'']]"
  let ?a = "\<lparr>mon_shared = snd (ts_Begin Tx_Storage), mon_ready = {}, mon_cv = ConditionVariable\<rparr>"
  let ?b = "?mon ?free {} []" and ?c = "?mon ?free {(10, ''k'')} []" and ?d = "?mon ?held {} []"
  let ?e = "?mon ?held {(11, ''k'')} []" and ?f = "?mon ?held {} [(11, ''k'')]"
  let ?st1 = "?st(11 \<mapsto> kCommited)" let ?st2 = "?st1(10 \<mapsto> kCommited)"
  let ?g = "?mon (?ts ?st1 [''k'' \<mapsto> 10] [10 \<mapsto> [''k'']]) {} [(11, ''k'')]"
  let ?h = "?mon (?ts ?st2 Map.empty Map.empty) {(11, ''k'')} []"
  let ?i = "?mon (?ts ?st2 [''k'' \<mapsto> 11] [11 \<mapsto> [''k'']]) {} []"
  note sts = kStarted_def kCommited_def
  have "row_step row_init ?a" using row_begin [of row_init] by (simp add: row_init_def)
  moreover have "row_step ?a ?b"
    using row_begin [of ?a] by (simp add: ts_Begin_def Tx_Storage_def kInitialTxId_def Let_def ConditionVariable_def)
  moreover have "row_step ?b ?c" using row_write [of ?b 10 "''k''"] by (simp add: ts_IsStarted_def)
  moreover have "row_step ?c ?d"
    using row_acquire [of 10 "''k''" ?c] by (simp add: cv_Wait_def row_free_def lock_row_def ts_AcquireRowLock_def)
  moreover have "row_step ?d ?e" using row_write [of ?d 11 "''k''"] by (simp add: ts_IsStarted_def)
  moreover have "row_step ?e ?f" using row_wait [of 11 "''k''" ?e] by (simp add: cv_Wait_def row_free_def)
  ultimately have f: "row_step\<^sup>*\<^sup>* row_init ?f" by (meson rtranclp.rtrancl_into_rtrancl rtranclp.rtrancl_refl)
  moreover have "row_step ?f ?g" using row_end [of ?f 11 kCommited] by (simp add: end_tx_def ts_IsStarted_def sts)
  moreover have "row_step ?g ?h"
    using row_end [of ?g 10 kCommited]
    by (simp add: end_tx_def ts_IsStarted_def sts cv_NotifyAll_def ts_ReleaseAllLocks_def fun_upd_def cong: if_cong)
  moreover have "row_step ?h ?i"
    using row_acquire [of 11 "''k''" ?h] by (simp add: cv_Wait_def row_free_def lock_row_def ts_AcquireRowLock_def)
  ultimately have i: "row_step\<^sup>*\<^sup>* row_init ?i" by (meson rtranclp.rtrancl_into_rtrancl)
  show thesis by (rule that [OF f _ _ _ i]) (simp_all add: ts_IsStarted_def sts)
qed

theorem row_waiter_is_woken_witness:
  "\<exists>s. row_step\<^sup>*\<^sup>* row_init s \<and> ts_row_locks (mon_shared s) ''k'' = Some 10 \<and>
    (11, ''k'') \<in> mon_ready (end_tx ((mon_shared s)\<lparr>ts_tx_status := (ts_tx_status (mon_shared s))(10 \<mapsto> kCommited)\<rparr>) s 10)"
proof -
  obtain s where s: "row_step\<^sup>*\<^sup>* row_init s" "(11, ''k'') \<in> set (cv_waiters (mon_cv s))" "ts_row_locks (mon_shared s) ''k'' = Some 10"
    "ts_IsStarted (mon_shared s) 10" by (rule waiting_run)
  from row_waiter_is_woken [OF s(1,2), of kCommited] s show ?thesis by (auto simp: Let_def)
qed


end
