(* ===== verification/Upsert_Races.thy ===== *)
theory Upsert_Races
  imports Lsm_Engine Shared_Mutex
begin

section \<open>Upserts that run at the same time\<close>

text \<open>
  \<open>LsmEngine::Upsert\<close> with \<open>Lsm::Put\<close> and \<open>DoPut\<close> as coroutines, cut where they can be suspended: in
  \<open>LockExclusive\<close>, while a reader holds the mutex of the tree, and before the event is written to the log.
\<close>

datatype upsert_pc =
    Idle
  | Suspended row int
  | Woken row int
  | Logging row int
  | Replied

record upserts =
  us_engine :: lsm_engine
  us_mutex :: "nat shared_mutex"
  us_pc :: "nat \<Rightarrow> upsert_pc"
  us_log :: "event list"

fun wake :: "upsert_pc \<Rightarrow> upsert_pc" where
  "wake (Suspended row seq) = Woken row seq"
| "wake pc = pc"

text \<open>From \<open>co_await shared_mutex_.LockExclusive()\<close> in \<open>DoPut\<close> to the next suspension.\<close>

definition run_DoPut :: "nat \<Rightarrow> row \<Rightarrow> int \<Rightarrow> upserts \<Rightarrow> upserts" where
  "run_DoPut t row seq s =
     (case sm_LockExclusive t (us_mutex s) of
        (False, m) \<Rightarrow> s\<lparr>us_mutex := m, us_pc := (us_pc s)(t := Suspended row seq)\<rparr>
      | (True, m) \<Rightarrow>
          let e = us_engine s; l = lsm_DoPut (le_lsm e) seq (row_key row) (row_value row); (woken, m) = sm_UnlockExclusive m
          in s\<lparr>us_engine := e\<lparr>le_lsm := l\<rparr>, us_mutex := m,
               us_pc := (\<lambda>t'. if t' = t then Logging row seq else if t' \<in> set woken then wake (us_pc s t') else us_pc s t')\<rparr>)"

definition run_Upsert :: "nat \<Rightarrow> row \<Rightarrow> upserts \<Rightarrow> upserts" where
  "run_Upsert t row s =
     (let e = us_engine s; seq = lsm_next_seq_no (le_lsm e)
      in run_DoPut t row seq (s\<lparr>us_engine := e\<lparr>le_lsm := (le_lsm e)\<lparr>lsm_next_seq_no := seq + 1\<rparr>\<rparr>\<rparr>))"

inductive upsert_step :: "upserts \<Rightarrow> upserts \<Rightarrow> bool" where
  begin_upsert: "us_pc s t = Idle \<Longrightarrow> upsert_step s (run_Upsert t row s)"
| resume_upsert: "us_pc s t = Woken row seq \<Longrightarrow> upsert_step s (run_DoPut t row seq s)"
| write_event: "us_pc s t = Logging row seq \<Longrightarrow>
     upsert_step s (s\<lparr>us_log := us_log s @ [LsmStorageUpsertEvent (le_id (us_engine s)) seq (row_key row) (row_value row)],
       us_pc := (us_pc s)(t := Replied)\<rparr>)"
| reader_locks: "sm_LockShared r (us_mutex s) = (True, m) \<Longrightarrow> upsert_step s (s\<lparr>us_mutex := m\<rparr>)"
| reader_unlocks: "sm_state (us_mutex s) > 0 \<Longrightarrow> sm_UnlockShared (us_mutex s) = (woken, m) \<Longrightarrow>
     upsert_step s (s\<lparr>us_mutex := m, us_pc := (\<lambda>t. if t \<in> set woken then wake (us_pc s t) else us_pc s t)\<rparr>)"

definition upserts_init :: "lsm_engine \<Rightarrow> upserts" where
  "upserts_init e = \<lparr>us_engine = e, us_mutex = SharedMutex, us_pc = (\<lambda>t. Idle), us_log = []\<rparr>"

text \<open>Recovery of a storage from the events of the log, one after the other.\<close>

fun recover_events :: "lsm_engine \<Rightarrow> event list \<Rightarrow> lsm_engine" where
  "recover_events e [] = e"
| "recover_events e (LsmStorageUpsertEvent sid seq key val # evs) = recover_events (le_RecoverFromLog e seq key val) evs"
| "recover_events e (TxStorageCommitEvent tx # evs) = recover_events e evs"

subsection \<open>Sequence numbers\<close>

text \<open>The numbers that upserts which have not finished have taken, and those in the log.\<close>

fun pc_seq :: "upsert_pc \<Rightarrow> int option" where
  "pc_seq (Suspended row seq) = Some seq"
| "pc_seq (Woken row seq) = Some seq"
| "pc_seq (Logging row seq) = Some seq"
| "pc_seq _ = None"

fun ev_seq :: "event \<Rightarrow> int" where
  "ev_seq (LsmStorageUpsertEvent sid seq key val) = seq"
| "ev_seq (TxStorageCommitEvent tx) = 0"

definition seqs_ok :: "upserts \<Rightarrow> bool" where
  "seqs_ok s \<longleftrightarrow>
     (\<forall>t seq. pc_seq (us_pc s t) = Some seq \<longrightarrow> seq < lsm_next_seq_no (le_lsm (us_engine s)) \<and> seq \<notin> ev_seq ` set (us_log s)) \<and>
     (\<forall>t t' seq. pc_seq (us_pc s t) = Some seq \<longrightarrow> pc_seq (us_pc s t') = Some seq \<longrightarrow> t = t') \<and>
     distinct (map ev_seq (us_log s)) \<and> (\<forall>ev \<in> set (us_log s). ev_seq ev < lsm_next_seq_no (le_lsm (us_engine s)))"

lemma pc_seq_wake [simp]: "pc_seq (wake pc) = pc_seq pc"
  by (cases pc) simp_all

lemma lsm_DoPut_next [simp]: "lsm_next_seq_no (lsm_DoPut l seq key val) = lsm_next_seq_no l"
  by (simp add: lsm_DoPut_def Let_def)

lemma run_DoPut_seqs:
  "pc_seq (us_pc (run_DoPut t row seq s) t') = (if t' = t then Some seq else pc_seq (us_pc s t'))"
  "us_log (run_DoPut t row seq s) = us_log s"
  "lsm_next_seq_no (le_lsm (us_engine (run_DoPut t row seq s))) = lsm_next_seq_no (le_lsm (us_engine s))"
  by (auto simp: run_DoPut_def Let_def split: prod.splits bool.splits)

lemma seqs_ok_step: "upsert_step s s' \<Longrightarrow> seqs_ok s \<Longrightarrow> seqs_ok s'"
proof (induction rule: upsert_step.induct)
  case (begin_upsert s t row)
  let ?n = "lsm_next_seq_no (le_lsm (us_engine s))"
  have "?n \<notin> ev_seq ` set (us_log s)" "\<forall>t'. pc_seq (us_pc s t') \<noteq> Some ?n" using begin_upsert(2) by (force simp: seqs_ok_def)+
  then show ?case using begin_upsert(2)
    by (auto simp: seqs_ok_def run_Upsert_def Let_def run_DoPut_seqs split: if_splits) force+
next
  case (resume_upsert s t row seq)
  have "(if t' = t then Some seq else pc_seq (us_pc s t')) = pc_seq (us_pc s t')" for t' using resume_upsert(1) by simp
  then show ?case using resume_upsert(2) by (simp add: seqs_ok_def run_DoPut_seqs del: if_split_asm)
next
  case (write_event s t row seq)
  then have "pc_seq (us_pc s t) = Some seq" by simp
  with write_event(2) show ?case by (auto simp: seqs_ok_def split: if_splits)
next
  case (reader_unlocks s woken m)
  have "pc_seq (if t \<in> set woken then wake (us_pc s t) else us_pc s t) = pc_seq (us_pc s t)" for t by simp
  with reader_unlocks(3) show ?case by (simp add: seqs_ok_def)
qed (simp add: seqs_ok_def)

text \<open>
  C25. Upserts that run at the same time get different sequence numbers: in every run, however upserts
  and readers interleave, no two events of the log have the same number and none has a number that is still to be given out.
\<close>

theorem concurrent_upserts_distinct:
  assumes "upsert_step\<^sup>*\<^sup>* (upserts_init e) s"
  shows "distinct (map ev_seq (us_log s)) \<and> (\<forall>ev \<in> set (us_log s). ev_seq ev < lsm_next_seq_no (le_lsm (us_engine s)))"
proof -
  have "seqs_ok (upserts_init e)" by (simp add: seqs_ok_def upserts_init_def)
  with assms have "seqs_ok s" by (induction rule: rtranclp_induct) (auto intro: seqs_ok_step)
  then show ?thesis by (simp add: seqs_ok_def)
qed

text \<open>
  A reader holds the mutex; upsert \<open>0\<close> takes the first number and is suspended; the reader unlocks;
  upsert \<open>1\<close> takes the next number, finds the mutex free and finishes before upsert \<open>0\<close> runs again.
\<close>

lemma step_to: "upsert_step s s' \<Longrightarrow> s' = s'' \<Longrightarrow> upsert_step s s''"
  by simp

lemma overtaking_run:
  fixes r0 r1 :: row and e :: lsm_engine
  obtains s where "upsert_step\<^sup>*\<^sup>* (upserts_init e) s" "us_pc s 0 = Replied" "us_pc s 1 = Replied"
    "us_log s = [LsmStorageUpsertEvent (le_id e) (lsm_next_seq_no (le_lsm e) + 1) (row_key r1) (row_value r1),
      LsmStorageUpsertEvent (le_id e) (lsm_next_seq_no (le_lsm e)) (row_key r0) (row_value r0)]"
    "lsm_next_seq_no (le_lsm (us_engine s)) = lsm_next_seq_no (le_lsm e) + 2"
proof -
  let ?n = "lsm_next_seq_no (le_lsm e)"
  define e1 where "e1 = e\<lparr>le_lsm := (le_lsm e)\<lparr>lsm_next_seq_no := ?n + 1\<rparr>\<rparr>"
  define e2 where "e2 = e\<lparr>le_lsm := lsm_DoPut ((le_lsm e)\<lparr>lsm_next_seq_no := ?n + 2\<rparr>) (?n + 1) (row_key r1) (row_value r1)\<rparr>"
  define e3 where "e3 = e2\<lparr>le_lsm := lsm_DoPut (le_lsm e2) ?n (row_key r0) (row_value r0)\<rparr>"
  let ?ev1 = "LsmStorageUpsertEvent (le_id e) (?n + 1) (row_key r1) (row_value r1)"
  let ?ev0 = "LsmStorageUpsertEvent (le_id e) ?n (row_key r0) (row_value r0)"
  let ?us = "\<lambda>e st ws pc0 pc1 log. \<lparr>us_engine = e, us_mutex = \<lparr>sm_state = st, sm_waiters = ws\<rparr>,
    us_pc = (\<lambda>t. Idle)(0 := pc0, 1 := pc1), us_log = log\<rparr>"
  let ?a = "?us e 1 [] Idle Idle []" and ?b = "?us e1 1 [0] (Suspended r0 ?n) Idle []" and ?c = "?us e1 0 [] (Woken r0 ?n) Idle []"
  let ?d = "?us e2 0 [] (Woken r0 ?n) (Logging r1 (?n + 1)) []" and ?f = "?us e2 0 [] (Woken r0 ?n) Replied [?ev1]"
  let ?g = "?us e3 0 [] (Logging r0 ?n) Replied [?ev1]" and ?h = "?us e3 0 [] Replied Replied [?ev1, ?ev0]"
  note mx = sm_LockExclusive_def sm_LockShared_def sm_TryLock_def sm_Unlock_eq
  have "upsert_step (upserts_init e) ?a"
    by (rule step_to [OF reader_locks [of 9 _ "\<lparr>sm_state = 1, sm_waiters = []\<rparr>"]]) (auto simp: upserts_init_def SharedMutex_def mx fun_eq_iff)
  moreover have "upsert_step ?a ?b"
    by (rule step_to [OF begin_upsert [of _ 0 r0]]) (auto simp: run_Upsert_def run_DoPut_def Let_def mx e1_def fun_eq_iff)
  moreover have "upsert_step ?b ?c"
    by (rule step_to [OF reader_unlocks [of _ "[0]" "\<lparr>sm_state = 0, sm_waiters = []\<rparr>"]]) (auto simp: mx fun_eq_iff)
  moreover have "upsert_step ?c ?d"
    by (rule step_to [OF begin_upsert [of _ 1 r1]]) (auto simp: run_Upsert_def run_DoPut_def Let_def mx e1_def e2_def fun_eq_iff add.commute)
  moreover have "upsert_step ?d ?f"
    by (rule step_to [OF write_event [of _ 1 r1 "?n + 1"]]) (auto simp: e2_def fun_eq_iff)
  moreover have "upsert_step ?f ?g"
    by (rule step_to [OF resume_upsert [of _ 0 r0 ?n]]) (auto simp: run_DoPut_def Let_def mx e3_def fun_eq_iff)
  moreover have "upsert_step ?g ?h"
    by (rule step_to [OF write_event [of _ 0 r0 ?n]]) (auto simp: e3_def e2_def fun_eq_iff)
  ultimately have "upsert_step\<^sup>*\<^sup>* (upserts_init e) ?h" by (meson rtranclp.rtrancl_into_rtrancl rtranclp.rtrancl_refl)
  then show thesis by (rule that) (simp_all add: e3_def e2_def)
qed

theorem concurrent_upserts_distinct_witness:
  "\<exists>s. upsert_step\<^sup>*\<^sup>* (upserts_init (LsmEngine ''d'' ''t'' default_options)) s \<and> length (us_log s) = 2 \<and> distinct (map ev_seq (us_log s))"
proof -
  let ?e = "LsmEngine ''d'' ''t'' default_options" and ?r = "\<lparr>row_key = ''k'', row_value = ''v''\<rparr>"
  obtain s where s: "upsert_step\<^sup>*\<^sup>* (upserts_init ?e) s"
    "us_log s = [LsmStorageUpsertEvent (le_id ?e) (lsm_next_seq_no (le_lsm ?e) + 1) (row_key ?r) (row_value ?r),
      LsmStorageUpsertEvent (le_id ?e) (lsm_next_seq_no (le_lsm ?e)) (row_key ?r) (row_value ?r)]" by (rule overtaking_run)
  from concurrent_upserts_distinct [OF s(1)] s show ?thesis by (intro exI [of _ s]) simp
qed


end
