(* ===== verification/Database_Runs.thy ===== *)
theory Database_Runs
  imports Database_Recovery "HOL-Library.Sublist"
begin

section \<open>Runs of a server with crashes\<close>

text \<open>
  A run of the server: sessions and the flush job in any interleaving, and at any point a crash, after
  which the server starts again on the files as they are. The guard of a restart bounds the
  number of files, beyond which their names do not sort any more; a log that cannot be read does
  not let \<open>Init\<close> return.
\<close>

definition few_files :: "database \<Rightarrow> bool" where
  "few_files db \<longleftrightarrow> (case db_wal_writer db of None \<Rightarrow> True | Some w \<Rightarrow> ww_segment_no w < 10000) \<and> few_tables db"

inductive server_step :: "crc32 \<Rightarrow> database \<Rightarrow> database \<Rightarrow> bool" for crc where
  step_run: "db_step crc db db' \<Longrightarrow> server_step crc db db'"
| step_restart: "few_files db \<Longrightarrow> Restart db = Inr db' \<Longrightarrow> server_step crc db db'"

lemma recoverable_if_restarts:
  assumes inv: "db_inv_at (n, old) crc db logs (old @ new)" and few: "few_files db" and re: "Restart db = Inr db'"
  shows "recoverable db n new"
proof -
  have ft: "few_tables db" using few by (simp add: few_files_def)
  let ?wal = "db_base_dir db @ ''/wal''"
  from inv obtain w where w: "db_wal_writer db = Some w" "wal_at (db_disk db) w ?wal n old new" by (auto simp: db_inv_at_def log_at_def)
  from wal_at_segment_no [OF w(2)] few w(1) have pages: "n + length (wal_pages [] new) \<le> 10000" by (simp add: few_files_def)
  obtain names st ts where
    all: "handle_all ev_Apply (old @ new) (all_opened db names) = (all_opened db names\<lparr>db_storages := st, db_tx_storage := ts\<rparr>, None)"
    and ini: "Restart db = bindE (Recover ev_Apply (db_disk db) ?wal (all_opened db names)) (\<lambda>db1.
      let (d, w) = Writer_Open (db_disk db1) ?wal
      in Inr (db1\<lparr>db_disk := d, db_wal_writer := Some w, db_tx_storage := ts_StartLogInto (db_tx_storage db1),
        db_storages := map (\<lambda>(sid, e). (sid, le_StartLogInto e)) (db_storages db1), db_is_initialized := True\<rparr>))"
    by (rule db_Init_replays [OF db_invI [OF inv] ft])
  from re ini obtain t where "Recover ev_Apply (db_disk db) ?wal (all_opened db names) = Inr t"
    by (cases "Recover ev_Apply (db_disk db) ?wal (all_opened db names)") auto
  from wal_at_padded [OF w(2) pages all this] pages ft show ?thesis by (simp add: recoverable_def)
qed

lemma db_inv_restart:
  assumes inv: "db_inv crc db logs evs" and few: "few_files db" and re: "Restart db = Inr db'"
  shows "\<exists>logs'. db_inv crc db' logs' evs \<and> map_of logs' = map_of logs \<and>
    ts_IsCommited (db_tx_storage db') = ts_IsCommited (db_tx_storage db)"
proof -
  from inv obtain n old new where evs: "evs = old @ new" and inv0: "db_inv_at (n, old) crc db logs (old @ new)"
    by (auto simp: db_inv_def db_inv_at_def log_at_def)
  from restart_inv [OF inv0 recoverable_if_restarts [OF inv0 few re]] obtain logs' n' where
    "db_inv_at (n', old @ new) crc db' logs' (old @ new)" "map_of logs' = map_of logs"
    "ts_IsCommited (db_tx_storage db') = ts_IsCommited (db_tx_storage db)" using re by auto
  then show ?thesis unfolding evs using db_invI by blast
qed

lemma server_step_after:
  assumes "server_step crc db db'" "db_inv crc db logs evs"
  shows "db_after crc logs evs db'"
  using assms
proof (induction rule: server_step.induct)
  case (step_restart db db')
  from db_inv_restart [OF step_restart(3,1,2)] obtain logs' where "db_inv crc db' logs' evs" "map_of logs' = map_of logs" by blast
  then show ?case
    using db_afterI [of crc db' logs' evs "[]" logs] by (metis append_Nil2 dom_map_of_conv_image_fst order_refl)
qed (rule db_step_after)

lemma server_run_after:
  assumes "(server_step crc)\<^sup>*\<^sup>* db db'" "db_inv crc db logs evs"
  shows "db_after crc logs evs db'"
  using assms
proof (induction rule: rtranclp_induct)
  case (step y z)
  then obtain logs1 evs1 where 1: "db_inv crc y logs1 (evs @ evs1)" "fst ` set logs \<subseteq> fst ` set logs1" unfolding db_after_def by blast
  from server_step_after [OF step(2) 1(1)] 1(2) show ?case unfolding db_after_def append_assoc by (meson subset_trans)
qed (rule db_after_refl)


lemma recoverable_few_files:
  assumes inv: "db_inv_at (n, old) crc db logs (old @ new)" and rec: "recoverable db n new"
  shows "few_files db"
proof -
  from inv obtain w where "db_wal_writer db = Some w" "wal_at (db_disk db) w (db_base_dir db @ ''/wal'') n old new"
    by (auto simp: db_inv_at_def log_at_def)
  with wal_at_segment_no rec show ?thesis by (fastforce simp: few_files_def recoverable_def)
qed

text \<open>A session writes a row, the server crashes before it commits, and starts again.\<close>

lemma crashed_write:
  "\<exists>db0 db1 db2 db3. db_Init (Database [] [] ''db'' default_options) = Inr db0 \<and>
    tx_Upsert db1 kSysTables 10 ''a'' ''1'' = Some (Inr db2) \<and> Restart db2 = Inr db3 \<and>
    db_inv (\<lambda>_. 0) db2 [(kSysTables, (2, [Record ''a'' 1 (tv_bytes (new_version 10 (Some ''1'')))]))]
      [upsert_event kSysTables (Record ''a'' 1 (tv_bytes (new_version 10 (Some ''1''))))] \<and>
    (server_step (\<lambda>_. 0))\<^sup>*\<^sup>* db0 db3 \<and> (server_step (\<lambda>_. 0))\<^sup>*\<^sup>* db2 db3"
proof -
  let ?v = "new_version 10 (Some ''1'')" let ?r = "Record ''a'' 1 (tv_bytes ?v)" let ?s = "\<lparr>ses_tx = 10, ses_is_autocommit = True\<rparr>"
  from uncommitted_write obtain db0 db1 db2 where db0: "db_Init (Database [] [] ''db'' default_options) = Inr db0"
    and s: "db_StartSession db0 None = Inr (?s, db1)" and up: "tx_Upsert db1 kSysTables 10 ''a'' ''1'' = Some (Inr db2)"
    and fits: "write_fits db1 kSysTables ''a'' ?v"
    and inv: "db_inv_at (0, []) (\<lambda>_. 0) db2 [(kSysTables, (2, [?r]))] ([] @ [upsert_event kSysTables ?r])"
      "recoverable db2 0 [upsert_event kSysTables ?r]" by auto
  from restart_inv [OF inv] obtain db3 where re: "Restart db2 = Inr db3" by blast
  from step_restart [OF recoverable_few_files [OF inv] re] have crash: "server_step (\<lambda>_. 0) db2 db3" .
  moreover have "server_step (\<lambda>_. 0) db0 db1" "server_step (\<lambda>_. 0) db1 db2"
    using step_begin [OF s] step_upsert [OF up fits] by (simp_all add: step_run)
  ultimately have "(server_step (\<lambda>_. 0))\<^sup>*\<^sup>* db0 db3" by (meson converse_rtranclp_into_rtranclp r_into_rtranclp)
  with db0 up re crash db_invI [OF inv(1)] show ?thesis by (auto intro!: exI)
qed


lemma log_ok_extends:
  assumes "log_ok opts sid (m, log) evs" "log_ok opts' sid (m', log') (evs @ evs')"
  shows "suffix log log'"
proof -
  have inj: "inj (upsert_event sid)"
  proof (rule injI)
    fix a b
    assume "upsert_event sid a = upsert_event sid b"
    then show "a = b" by (cases a; cases b) (simp add: upsert_event_def)
  qed
  have "map (upsert_event sid) (rev log') = map (upsert_event sid) (rev log) @ filter (upsert_of sid) evs'"
    using assms by (simp add: log_ok_def)
  then obtain ys where "rev log' = rev log @ ys" using inj by (metis append_eq_map_conv map_injective)
  then show ?thesis by (metis suffix_to_prefix prefixI)
qed



end
