(* ===== verification/Client_Transactions.thy ===== *)
theory Client_Transactions
  imports Client Service_Calls
begin

section \<open>Transactions of the client library on the services\<close>

text \<open>
  What a transaction of the client library does to the database of the server it talks to: \<open>Begin\<close>, a
  callback that writes rows through the transaction's table, and \<open>Commit\<close>, or \<open>Rollback\<close> when the
  callback throws.
\<close>

subsection \<open>Requests of a running transaction\<close>

lemma start_running:
  assumes "db_is_initialized db" "is_int64 tx" "ts_tx_status (db_tx_storage db) tx = Some kStarted"
  shows "bindE (ParseTx (Some (tx_ToString tx))) (db_StartSession db) = Inr (\<lparr>ses_tx = tx, ses_is_autocommit = False\<rparr>, db)"
  using assms by (simp add: ParseTx_def tx_roundtrip db_StartSession_def ses_Start_def ts_IsStarted_def)

lemma svc_Begin_runs:
  assumes inv: "db_inv crc db logs evs"
  defines "tx \<equiv> ts_next_tx_id (db_tx_storage db)"
  obtains ts where "svc_Begin db = Some (Inr (Finish_OK (tx_ToString tx), db\<lparr>db_tx_storage := ts\<rparr>))"
    "db_inv crc (db\<lparr>db_tx_storage := ts\<rparr>) logs evs" "ts_IsCommited ts = ts_IsCommited (db_tx_storage db)"
    "ts_row_locks ts = ts_row_locks (db_tx_storage db)" "ts_tx_status ts tx = Some kStarted"
proof -
  from inv_StartSession [OF inv] obtain ts where ts: "db_StartSession db None = Inr (\<lparr>ses_tx = tx, ses_is_autocommit = True\<rparr>, db\<lparr>db_tx_storage := ts\<rparr>)"
    "db_inv crc (db\<lparr>db_tx_storage := ts\<rparr>) logs evs" "ts_IsCommited ts = ts_IsCommited (db_tx_storage db)"
    "ts_row_locks ts = ts_row_locks (db_tx_storage db)" "ts_tx_status ts tx = Some kStarted" unfolding tx_def by metis
  from ts(1) have "svc_Begin db = Some (Inr (Finish_OK (tx_ToString tx), db\<lparr>db_tx_storage := ts\<rparr>))"
    by (simp add: svc_Begin_def with_session_def Begin_coro_def catch_exception_def ses_GetTx_def)
  from that [OF this ts(2-5)] show thesis .
qed

lemma svc_Upsert_runs:
  assumes inv: "db_inv crc db logs evs" and sys: "map_of logs kSysTables = Some (m, log)"
    and tab: "table_committed (db_tx_storage db) (versions_of log) name sid" and st: "map_of logs sid = Some (m', log')"
    and tx: "is_int64 tx" "ts_tx_status (db_tx_storage db) tx = Some kStarted"
    and free: "ts_row_locks (db_tx_storage db) key = None" and fits: "write_fits db sid key (new_version tx (Some val))"
  defines "r \<equiv> Record key m' (tv_bytes (new_version tx (Some val)))"
  obtains db' evs' where
    "svc_Upsert crc False db \<lparr>uq_tx = Some (tx_ToString tx), uq_table = name, uq_key = key, uq_value = val\<rparr> =
      Some (Inr (Finish_OK (tx_ToString tx), db'))"
    "db_inv crc db' (AList.update sid (m' + 1, r # log') logs) evs'"
    "ts_tx_status (db_tx_storage db') = ts_tx_status (db_tx_storage db)"
    "\<forall>k. k \<noteq> key \<longrightarrow> ts_row_locks (db_tx_storage db') k = ts_row_locks (db_tx_storage db) k" "db_lsm_options db' = db_lsm_options db"
proof -
  let ?s = "\<lparr>ses_tx = tx, ses_is_autocommit = False\<rparr>"
  have ini: "db_is_initialized db" using inv by (auto simp: db_inv_def db_inv_at_def)
  from inv_tx_Upsert [OF inv st free fits] obtain db' where db': "tx_Upsert db sid tx key val = Some (Inr db')"
    "db_inv crc db' (AList.update sid (m' + 1, r # log') logs) (evs @ [upsert_event sid r])"
    "ts_tx_status (db_tx_storage db') = ts_tx_status (db_tx_storage db)"
    "\<forall>k. k \<noteq> key \<longrightarrow> ts_row_locks (db_tx_storage db') k = ts_row_locks (db_tx_storage db) k" "db_lsm_options db' = db_lsm_options db"
    unfolding r_def by metis
  have "svc_Upsert crc False db \<lparr>uq_tx = Some (tx_ToString tx), uq_table = name, uq_key = key, uq_value = val\<rparr> =
      Some (Inr (Finish_OK (tx_ToString tx), db'))"
    using start_running [OF ini tx] inv_GetTable [OF inv sys tab st, of ?s] db'(1)
    by (simp add: svc_Upsert_def with_session_def catch_exception_def Upsert_coro_def with_table_def finish_session_def ses_Finish_def)
  from that [OF this db'(2-5)] show thesis .
qed

lemma svc_Commit_runs:
  assumes inv: "db_inv crc db logs evs" and tx: "is_int64 tx" "ts_tx_status (db_tx_storage db) tx = Some kStarted"
  obtains db' where "svc_Commit db (tx_ToString tx) = Some (Inr (Finish_OK (), db'))" "db_inv crc db' logs (evs @ [TxStorageCommitEvent tx])"
    "ts_IsCommited (db_tx_storage db') = (ts_IsCommited (db_tx_storage db))(tx := True)"
proof -
  let ?s = "\<lparr>ses_tx = tx, ses_is_autocommit = False\<rparr>"
  have ini: "db_is_initialized db" using inv by (auto simp: db_inv_def db_inv_at_def)
  have "svc_Commit db (tx_ToString tx) = Some (Inr (Finish_OK (), ses_Commit db ?s))"
    using start_running [OF ini tx]
    by (simp add: svc_Commit_def with_session_def ParseTx_def catch_exception_def Commit_coro_def ses_Finish_def)
  moreover have "db_inv crc (ses_Commit db ?s) logs (evs @ [TxStorageCommitEvent tx])" using db_inv_Commit [OF inv, of ?s] tx by simp
  moreover have "ts_IsCommited (db_tx_storage (ses_Commit db ?s)) = (ts_IsCommited (db_tx_storage db))(tx := True)"
    by (auto simp: ses_Commit_def db_set_env_def split_beta status_frame fun_eq_iff)
  ultimately show thesis by (rule that)
qed

subsection \<open>A callback that writes rows\<close>

fun upsert_rows :: "'s connection \<Rightarrow> table_client \<Rightarrow> (string \<times> string) list \<Rightarrow> ('s, unit) client" where
  "upsert_rows con t [] s = Some (Inr (Inr (), s))"
| "upsert_rows con t ((key, val) # rows) s = then_client (tc_Upsert con t key val) (\<lambda>_. upsert_rows con t rows) s"

text \<open>The rows fit into the pages of the table and of the log, and sequence numbers are left.\<close>

definition rows_fit :: "lsm_options \<Rightarrow> string \<Rightarrow> int \<Rightarrow> int \<Rightarrow> (string \<times> string) list \<Rightarrow> bool" where
  "rows_fit opts sid tx m rows \<longleftrightarrow>
     list_all (\<lambda>(key, val). valid_tv (new_version tx (Some val)) \<and> 58 + length key + length val \<le> nat (page_size opts) \<and>
       58 + length sid + length key + length val \<le> 4096) rows \<and>
     m + int (length rows) \<le> kMaxSequence"

abbreviation row_versions :: "int \<Rightarrow> (string \<times> string) list \<Rightarrow> versions" where
  "row_versions tx rows \<equiv> rev (map (\<lambda>(key, val). (key, new_version tx (Some val))) rows)"

lemma rows_fit_Cons:
  assumes "rows_fit opts sid tx m ((key, val) # rows)"
  shows "rows_fit opts sid tx (m + 1) rows" "valid_tv (new_version tx (Some val))"
  using assms by (simp_all add: rows_fit_def)

lemma rows_fit_write:
  assumes inv: "db_inv crc db logs evs" and st: "map_of logs sid = Some (m, log)"
    and fit: "rows_fit (db_lsm_options db) sid tx m ((key, val) # rows)"
  shows "write_fits db sid key (new_version tx (Some val))"
proof -
  from db_inv_storage [OF inv st] obtain e where "map_of (db_storages db) sid = Some e" "engine_ok crc db sid e (m, log)" by metis
  with fit show ?thesis by (auto simp: rows_fit_def write_fits_def engine_ok_def plain_rep_def new_version_def)
qed

lemma upsert_rows_run:
  assumes "db_inv crc db logs evs" and "map_of logs kSysTables = Some (m, log)"
    and "table_committed (db_tx_storage db) (versions_of log) name sid" and "map_of logs sid = Some (m', log')" and "sid \<noteq> kSysTables"
    and "is_int64 tx" "ts_tx_status (db_tx_storage db) tx = Some kStarted"
    and "\<forall>key \<in> fst ` set rows. ts_row_locks (db_tx_storage db) key = None" and "distinct (map fst rows)"
    and "rows_fit (db_lsm_options db) sid tx m' rows"
  shows "\<exists>db' logs' evs' m'' log''. upsert_rows (server_connection crc False uuid) (ctx_Table (tx_ToString tx) name) rows db = Some (Inr (Inr (), db')) \<and>
    db_inv crc db' logs' evs' \<and> map_of logs' sid = Some (m'', log'') \<and> versions_of log'' = row_versions tx rows @ versions_of log' \<and>
    ts_tx_status (db_tx_storage db') = ts_tx_status (db_tx_storage db)"
  using assms
proof (induction rows arbitrary: db logs evs m' log')
  case Nil
  then show ?case by (intro exI conjI) simp_all
next
  case (Cons row rows)
  obtain key val where row: "row = (key, val)" by fastforce
  let ?con = "server_connection crc False uuid" let ?v = "new_version tx (Some val)" let ?r = "Record key m' (tv_bytes ?v)"
  note prems = Cons.prems [unfolded row]
  from svc_Upsert_runs [OF prems(1-4,6,7)] prems(8) rows_fit_write [OF prems(1,4,10)] obtain db1 evs1 where
    up: "svc_Upsert crc False db \<lparr>uq_tx = Some (tx_ToString tx), uq_table = name, uq_key = key, uq_value = val\<rparr> =
      Some (Inr (Finish_OK (tx_ToString tx), db1))"
    and inv1: "db_inv crc db1 (AList.update sid (m' + 1, ?r # log') logs) evs1" (is "db_inv _ _ ?logs _")
    and s1: "ts_tx_status (db_tx_storage db1) = ts_tx_status (db_tx_storage db)"
    and locks: "\<forall>k. k \<noteq> key \<longrightarrow> ts_row_locks (db_tx_storage db1) k = ts_row_locks (db_tx_storage db) k" and op: "db_lsm_options db1 = db_lsm_options db"
    by (metis fst_conv image_eqI list.set_intros(1))
  have "ts_IsCommited (db_tx_storage db1) = ts_IsCommited (db_tx_storage db)" using s1 by (simp add: ts_IsCommited_def fun_eq_iff)
  then have tab1: "table_committed (db_tx_storage db1) (versions_of log) name sid" using prems(3) by (simp add: table_committed_def cong: option.case_cong)
  have sys1: "map_of ?logs kSysTables = Some (m, log)" and st1: "map_of ?logs sid = Some (m' + 1, ?r # log')"
    using prems(2,5) by (simp_all add: update_conv')
  have free1: "\<forall>k \<in> fst ` set rows. ts_row_locks (db_tx_storage db1) k = None"
  proof
    fix k
    assume k: "k \<in> fst ` set rows"
    then have "k \<noteq> key" using prems(9) by auto
    with locks prems(8) k show "ts_row_locks (db_tx_storage db1) k = None" by auto
  qed
  have fit1: "rows_fit (db_lsm_options db1) sid tx (m' + 1) rows" using rows_fit_Cons(1) [OF prems(10)] by (simp add: op)
  have st2: "ts_tx_status (db_tx_storage db1) tx = Some kStarted" "distinct (map fst rows)" using prems(7,9) s1 by simp_all
  from Cons.IH [OF inv1 sys1 tab1 st1 prems(5,6) st2(1) free1 st2(2) fit1] obtain db' logs' evs' m'' log'' where
    run: "upsert_rows ?con (ctx_Table (tx_ToString tx) name) rows db1 = Some (Inr (Inr (), db'))" "db_inv crc db' logs' evs'"
      "map_of logs' sid = Some (m'', log'')" "versions_of log'' = row_versions tx rows @ versions_of (?r # log')"
      "ts_tx_status (db_tx_storage db') = ts_tx_status (db_tx_storage db1)" by metis
  have "upsert_rows ?con (ctx_Table (tx_ToString tx) name) (row # rows) db = Some (Inr (Inr (), db'))"
    using up run(1) by (simp add: row then_client_def tc_Upsert_def checked_def ctx_Table_def server_connection_def CheckStatus_def)
  moreover have "versions_of log'' = row_versions tx (row # rows) @ versions_of log'"
    using run(4) rows_fit_Cons(2) [OF prems(10)] by (simp add: row versions_of_def)
  moreover have "ts_tx_status (db_tx_storage db') = ts_tx_status (db_tx_storage db)" using run(5) s1 by simp
  ultimately show ?case using run(2,3) by blast
qed

subsection \<open>All or nothing\<close>

lemma vs_lookup_skip:
  assumes "\<forall>(k, v) \<in> set vs. k = key \<longrightarrow> \<not> tt_sees ts tx v"
  shows "vs_lookup ts tx (vs @ vs') key = vs_lookup ts tx vs' key"
  using assms by (induction vs) auto

lemma vs_lookup_rows:
  assumes d: "distinct (map fst rows)" and com: "ts_IsCommited ts tx"
  shows "vs_lookup ts tx' (row_versions tx rows @ vs) key =
    (case map_of rows key of Some val \<Rightarrow> Some val | None \<Rightarrow> vs_lookup ts tx' vs key)"
  using d
proof (induction rows arbitrary: vs)
  case (Cons row rows)
  obtain k val where row: "row = (k, val)" by fastforce
  have "map_of rows k = None" using Cons.prems by (simp add: row map_of_eq_None_iff)
  with Cons.IH [of "(k, new_version tx (Some val)) # vs"] Cons.prems com show ?case
    by (auto simp: row tt_sees_def new_version_def split: option.splits)
qed simp

lemma rows_hidden:
  assumes "db_inv crc db logs evs" "map_of logs sid = Some (m, log)" "db_inv crc db' logs' evs'" "map_of logs' sid = Some (m', log')"
    and "versions_of log' = row_versions tx rows @ versions_of log" and com: "ts_IsCommited (db_tx_storage db') = ts_IsCommited (db_tx_storage db)"
    and "\<not> ts_IsCommited (db_tx_storage db) tx" "tx' \<noteq> tx"
  shows "tx_Lookup crc db' sid tx' key = tx_Lookup crc db sid tx' key"
proof -
  have "vs_lookup (db_tx_storage db') tx' (row_versions tx rows @ versions_of log) key = vs_lookup (db_tx_storage db') tx' (versions_of log) key"
    using assms(7,8) com by (intro vs_lookup_skip) (auto simp: tt_sees_def new_version_def)
  then show ?thesis
    by (simp add: inv_tx_Lookup [OF assms(1,2)] inv_tx_Lookup [OF assms(3,4)] assms(5) versions_cong [OF com])
qed

lemma rows_shown:
  assumes "db_inv crc db logs evs" "map_of logs sid = Some (m, log)" "db_inv crc db' logs' evs'" "map_of logs' sid = Some (m', log')"
    and "versions_of log' = row_versions tx rows @ versions_of log" and com: "ts_IsCommited (db_tx_storage db') = (ts_IsCommited (db_tx_storage db))(tx := True)"
    and "list_all (\<lambda>(k, v). tv_tx v \<noteq> tx) (versions_of log)" "distinct (map fst rows)"
  shows "tx_Lookup crc db' sid tx' key =
    (case map_of rows key of Some val \<Rightarrow> Some (Inr (Some val)) | None \<Rightarrow> tx_Lookup crc db sid tx' key)"
proof -
  have "vs_lookup (db_tx_storage db') tx' (versions_of log) key = vs_lookup (db_tx_storage db) tx' (versions_of log) key"
    using assms(7) com by (intro vs_lookup_cong) (auto simp: tt_sees_def list_all_iff)
  then show ?thesis
    using vs_lookup_rows [OF assms(8), of "db_tx_storage db'" tx] com
    by (simp add: inv_tx_Lookup [OF assms(1,2)] inv_tx_Lookup [OF assms(3,4)] assms(5) split: option.splits)
qed

text \<open>The callback writes the rows and then returns or throws.\<close>

definition write_rows :: "'s connection \<Rightarrow> string \<Rightarrow> (string \<times> string) list \<Rightarrow> thrown option \<Rightarrow> string \<Rightarrow> ('s, unit) client" where
  "write_rows con name rows thrown tx =
     then_client (upsert_rows con (ctx_Table tx name) rows) (\<lambda>_ s. Some (Inr (case thrown of None \<Rightarrow> Inr () | Some e \<Rightarrow> Inl e, s)))"

text \<open>
  C11. A transaction of the client library takes effect as a whole or not at all: on the services of a
  leader, \<open>WithTransaction\<close> with a callback that writes rows of distinct keys nobody has locked returns
  and every other transaction reads all of the rows, or throws what the callback throws and every
  other transaction reads what it read before. No version may carry the new transaction's id already, as one can after
  a restart.
\<close>

theorem transaction_is_all_or_nothing:
  assumes "db_inv crc db logs evs" and "map_of logs kSysTables = Some (m, log)"
    and "table_committed (db_tx_storage db) (versions_of log) name sid" and "map_of logs sid = Some (m', log')" and "sid \<noteq> kSysTables"
    and "tx = ts_next_tx_id (db_tx_storage db)" "is_int64 tx" and "list_all (\<lambda>(k, v). tv_tx v \<noteq> tx) (versions_of log')"
    and "list_all (\<lambda>(key, val). ts_row_locks (db_tx_storage db) key = None) rows" and "distinct (map fst rows)"
    and "rows_fit (db_lsm_options db) sid tx m' rows"
  shows "\<exists>db'. adb_WithTransaction (server_connection crc False uuid) (write_rows (server_connection crc False uuid) name rows thrown) db =
      Some (Inr (case thrown of None \<Rightarrow> Inr () | Some e \<Rightarrow> Inl e, db')) \<and>
    (\<forall>tx' key. tx' \<noteq> tx \<longrightarrow> tx_Lookup crc db' sid tx' key =
      (case if thrown = None then map_of rows key else None of
         Some val \<Rightarrow> Some (Inr (Some val)) | None \<Rightarrow> tx_Lookup crc db sid tx' key))"
proof -
  let ?con = "server_connection crc False uuid" let ?out = "case thrown of None \<Rightarrow> Inr () | Some e \<Rightarrow> Inl e"
  from svc_Begin_runs [OF assms(1)] assms(6) obtain ts where
    beg: "svc_Begin db = Some (Inr (Finish_OK (tx_ToString tx), db\<lparr>db_tx_storage := ts\<rparr>))" (is "_ = Some (Inr (_, ?db1))")
    and inv1: "db_inv crc (db\<lparr>db_tx_storage := ts\<rparr>) logs evs" and ts: "ts_IsCommited ts = ts_IsCommited (db_tx_storage db)"
    "ts_row_locks ts = ts_row_locks (db_tx_storage db)" "ts_tx_status ts tx = Some kStarted" by metis
  have tab1: "table_committed (db_tx_storage ?db1) (versions_of log) name sid"
    using assms(3) ts(1) by (simp add: table_committed_def cong: option.case_cong)
  have "\<forall>key \<in> fst ` set rows. ts_row_locks (db_tx_storage ?db1) key = None" using assms(9) ts(2) by (auto simp: list_all_iff)
  from upsert_rows_run [OF inv1 assms(2) tab1 assms(4,5,7) _ this assms(10), of uuid] ts(3) assms(11) obtain db2 logs2 evs2 m2 log2 where
    run: "upsert_rows ?con (ctx_Table (tx_ToString tx) name) rows ?db1 = Some (Inr (Inr (), db2))" and inv2: "db_inv crc db2 logs2 evs2"
    and log2: "map_of logs2 sid = Some (m2, log2)" "versions_of log2 = row_versions tx rows @ versions_of log'"
    and s2: "ts_tx_status (db_tx_storage db2) = ts_tx_status ts" by simp blast
  have com2: "ts_IsCommited (db_tx_storage db2) = ts_IsCommited (db_tx_storage db)" using s2 ts(1) by (simp add: ts_IsCommited_def fun_eq_iff)
  have nc: "\<not> ts_IsCommited (db_tx_storage db) tx" using ts(3) unfolding ts(1) [symmetric] by (simp add: ts_IsCommited_def kStarted_def kCommited_def)
  have cb: "write_rows ?con name rows thrown (tx_ToString tx) ?db1 = Some (Inr (?out, db2))"
    by (simp add: write_rows_def then_client_def run)
  have with_tx: "adb_WithTransaction ?con (write_rows ?con name rows thrown) db =
      (case thrown of None \<Rightarrow> ctx_Commit ?con (tx_ToString tx) db2 | Some e \<Rightarrow> Some (Inr (Inl e, db2)))"
    using beg cb by (simp add: adb_WithTransaction_def then_client_def adb_Begin_def server_connection_def ctx_Rollback_def split: option.splits)
  show ?thesis
  proof (cases thrown)
    case None
    have "ts_tx_status (db_tx_storage db2) tx = Some kStarted" using s2 ts(3) by simp
    from svc_Commit_runs [OF inv2 assms(7) this] obtain db3 where
      cm: "svc_Commit db2 (tx_ToString tx) = Some (Inr (Finish_OK (), db3))" "db_inv crc db3 logs2 (evs2 @ [TxStorageCommitEvent tx])"
      "ts_IsCommited (db_tx_storage db3) = (ts_IsCommited (db_tx_storage db2))(tx := True)" .
    with com2 rows_shown [OF assms(1,4) cm(2) log2 _ assms(8,10)] with_tx None show ?thesis
      by (simp add: ctx_Commit_def checked_def server_connection_def CheckStatus_def)
  next
    case (Some e)
    with with_tx rows_hidden [OF assms(1,4) inv2 log2 com2 nc] show ?thesis by simp
  qed
qed

theorem transaction_is_all_or_nothing_witness:
  "\<exists>db db1 db2. adb_WithTransaction (server_connection (\<lambda>_. 0) False ''v'') (write_rows (server_connection (\<lambda>_. 0) False ''v'') ''t''
      [(''k'', ''1''), (''l'', ''2'')] None) db = Some (Inr (Inr (), db1)) \<and>
    tx_Lookup (\<lambda>_. 0) db1 ''u'' 12 ''k'' = Some (Inr (Some ''1'')) \<and> tx_Lookup (\<lambda>_. 0) db1 ''u'' 12 ''l'' = Some (Inr (Some ''2'')) \<and>
    adb_WithTransaction (server_connection (\<lambda>_. 0) False ''v'') (write_rows (server_connection (\<lambda>_. 0) False ''v'') ''t''
      [(''k'', ''1''), (''l'', ''2'')] (Some (Thrown NoSuchFile))) db = Some (Inr (Inl (Thrown NoSuchFile), db2)) \<and>
    tx_Lookup (\<lambda>_. 0) db2 ''u'' 12 ''k'' = tx_Lookup (\<lambda>_. 0) db ''u'' 12 ''k''"
proof -
  let ?rows = "[(''k'', ''1''), (''l'', ''2'')]"
  obtain db logs evs m log where t: "db_inv (\<lambda>_. 0) db logs evs" "map_of logs kSysTables = Some (m, log)"
    "table_committed (db_tx_storage db) (versions_of log) ''t'' ''u''" "map_of logs ''u'' = Some (1, [])" "''u'' \<noteq> kSysTables"
    "ts_next_tx_id (db_tx_storage db) = 11" "\<forall>k. k \<noteq> ''t'' \<longrightarrow> ts_row_locks (db_tx_storage db) k = None" "db_lsm_options db = default_options"
    by (rule ready_table) (rule that)
  have p: "11 = ts_next_tx_id (db_tx_storage db)" "is_int64 11" "list_all (\<lambda>(k, v). tv_tx v \<noteq> 11) (versions_of [])"
    "list_all (\<lambda>(key, val). ts_row_locks (db_tx_storage db) key = None) ?rows" "distinct (map fst ?rows)"
    "rows_fit (db_lsm_options db) ''u'' 11 1 ?rows"
    using t(6,7,8) by (simp_all add: versions_of_def rows_fit_def default_options_def kMaxSequence_def valid_tv_def new_version_def)
  note run = transaction_is_all_or_nothing [OF t(1-5) p, of "''v''"]
  from run [of None] run [of "Some (Thrown NoSuchFile)"] show ?thesis
    by (elim exE conjE, intro exI conjI) (assumption | simp)+
qed

end
