(* ===== verification/Jobs.thy ===== *)
theory Jobs
  imports Database_Model
begin

section \<open>The job launcher\<close>

text \<open>
  \<open>src/src/server/database/jobs/job_launcher.cpp\<close>: the loop that repeats a job. The timer of the event loop
  is a parameter: how it is made, set again, and at what time a wait for it returns. A
  step takes some time and may throw.
\<close>

record 'tm timer =
  steady_timer :: "int \<Rightarrow> int \<Rightarrow> 'tm"
  expires_after :: "'tm \<Rightarrow> int \<Rightarrow> int \<Rightarrow> 'tm"
  async_wait :: "'tm \<Rightarrow> int \<Rightarrow> int"

text \<open>A timer set at a time for an interval: a wait returns when the interval is over, at once if it is over already.\<close>

definition waits_for_expiry :: "'tm timer \<Rightarrow> bool" where
  "waits_for_expiry T \<longleftrightarrow>
     (\<forall>now interval t. async_wait T (steady_timer T now interval) t = max t (now + interval)) \<and>
     (\<forall>tm now interval t. async_wait T (expires_after T tm now interval) t = max t (now + interval))"

text \<open>The result of a step is what it threw, how long it took and what it left; \<open>None\<close> is a step that never ends.\<close>

record 's job =
  GetInterval :: int
  Step :: "'s \<Rightarrow> (error option \<times> int \<times> 's) option"

text \<open>What an iteration of the loop did: when its step began and ended and what it threw.\<close>

record job_run =
  jr_begin :: int
  jr_end :: int
  jr_thrown :: "error option"

definition launch_iteration :: "'tm timer \<Rightarrow> 's job \<Rightarrow> 'tm \<Rightarrow> int \<Rightarrow> 's \<Rightarrow> (job_run \<times> 'tm \<times> 's) option" where
  "launch_iteration T jb tm now s =
     (let start = async_wait T tm now
      in map_option (\<lambda>(thrown, took, s).
           (\<lparr>jr_begin = start, jr_end = start + took, jr_thrown = thrown\<rparr>,
            if thrown = None then expires_after T tm (start + took) (GetInterval jb) else tm, s)) (Step jb s))"

fun launch_loop :: "nat \<Rightarrow> 'tm timer \<Rightarrow> 's job \<Rightarrow> 'tm \<Rightarrow> int \<Rightarrow> 's \<Rightarrow> job_run list \<times> 's" where
  "launch_loop 0 T jb tm now s = ([], s)"
| "launch_loop (Suc n) T jb tm now s =
     (case launch_iteration T jb tm now s of
        None \<Rightarrow> ([], s)
      | Some (r, tm, s) \<Rightarrow> let (rs, s) = launch_loop n T jb tm (jr_end r) s in (r # rs, s))"

text \<open>The first \<open>n\<close> iterations of a job that is launched at a time.\<close>

definition Launch :: "nat \<Rightarrow> 'tm timer \<Rightarrow> 's job \<Rightarrow> int \<Rightarrow> 's \<Rightarrow> job_run list \<times> 's" where
  "Launch n T jb now s = launch_loop n T jb (steady_timer T now (GetInterval jb)) now s"

text \<open>
  The jobs of the server. A step that throws counts as having changed nothing; undefined behaviour is not caught and
  has no next iteration.
\<close>

definition job_step :: "(database \<Rightarrow> int) \<Rightarrow> (database \<Rightarrow> database result option) \<Rightarrow> database \<Rightarrow> (error option \<times> int \<times> database) option" where
  "job_step took step db =
     (case step db of
        None \<Rightarrow> None
      | Some (Inl e) \<Rightarrow> if is_exception e then Some (Some e, took db, db) else None
      | Some (Inr db') \<Rightarrow> Some (None, took db, db'))"

definition Flush_job :: "crc32 \<Rightarrow> int \<Rightarrow> (database \<Rightarrow> int) \<Rightarrow> database job" where
  "Flush_job crc interval took = \<lparr>GetInterval = interval, Step = job_step took (\<lambda>db. Some (Flush_Step crc db))\<rparr>"

definition Compaction_job :: "crc32 \<Rightarrow> int \<Rightarrow> (database \<Rightarrow> int) \<Rightarrow> database job" where
  "Compaction_job crc interval took = \<lparr>GetInterval = interval, Step = job_step took (Compaction_Step crc)\<rparr>"

definition WalCleaner_job :: "string \<Rightarrow> (database \<Rightarrow> int option) \<Rightarrow> int \<Rightarrow> (database \<Rightarrow> int) \<Rightarrow> database job" where
  "WalCleaner_job wal_dir_path min_retained_segment interval took =
     \<lparr>GetInterval = interval, Step = job_step took (\<lambda>db. Some (WalCleaner_Step db wal_dir_path (min_retained_segment db)))\<rparr>"

text \<open>The timer a loop holds has expired at the time a step begins.\<close>

fun paced :: "int \<Rightarrow> job_run list \<Rightarrow> bool" where
  "paced interval (r # r' # rs) \<longleftrightarrow>
     jr_begin r' = jr_end r + (if jr_thrown r = None then interval else 0) \<and> paced interval (r' # rs)"
| "paced interval rs \<longleftrightarrow> True"

lemma launch_loop_paced:
  assumes T: "waits_for_expiry T" and pos: "0 \<le> GetInterval jb" "\<And>s thrown took s'. Step jb s = Some (thrown, took, s') \<Longrightarrow> 0 \<le> took"
    and tm: "\<And>t. async_wait T tm t = max t due" and run: "launch_loop n T jb tm now s = (rs, s')"
  shows "paced (GetInterval jb) rs \<and> (\<forall>r rs'. rs = r # rs' \<longrightarrow> jr_begin r = max now due)"
  using tm run
proof (induction n arbitrary: tm now due s rs s')
  case (Suc n)
  show ?case
  proof (cases "Step jb s")
    case None
    then show ?thesis using Suc.prems(2) by (simp add: launch_iteration_def Let_def)
  next
    case (Some x)
    then obtain thrown took s1 where st: "Step jb s = Some (thrown, took, s1)" by (metis prod_cases3)
    let ?now = "max now due + took" and ?tm = "if thrown = None then expires_after T tm (max now due + took) (GetInterval jb) else tm"
    let ?r = "\<lparr>jr_begin = max now due, jr_end = ?now, jr_thrown = thrown\<rparr>"
    have it: "launch_iteration T jb tm now s = Some (?r, ?tm, s1)" using Suc.prems(1) st by (simp add: launch_iteration_def Let_def)
    obtain rs1 where rs1: "launch_loop n T jb ?tm ?now s1 = (rs1, s')" "rs = ?r # rs1"
      using Suc.prems(2) it by (auto split: prod.splits)
    let ?due = "if thrown = None then ?now + GetInterval jb else due"
    have "async_wait T ?tm t = max t ?due" for t using T Suc.prems(1) by (simp add: waits_for_expiry_def)
    from Suc.IH [OF this rs1(1)] have "paced (GetInterval jb) rs1" "\<forall>r rs'. rs1 = r # rs' \<longrightarrow> jr_begin r = max ?now ?due" by auto
    moreover have "max ?now ?due = ?now + (if thrown = None then GetInterval jb else 0)" using pos(1) pos(2) [OF st] by auto
    ultimately show ?thesis using rs1(2) by (cases rs1) auto
  qed
qed simp

text \<open>
  A step begins one interval after the end of the step before it when that one has succeeded, and
  at once when it has thrown: a job that fails is repeated without a pause.
\<close>

lemma Launch_paced:
  assumes "waits_for_expiry T" "0 \<le> GetInterval jb" "\<And>s thrown took s'. Step jb s = Some (thrown, took, s') \<Longrightarrow> 0 \<le> took"
  shows "paced (GetInterval jb) (fst (Launch n T jb now s))"
proof -
  obtain rs s' where run: "launch_loop n T jb (steady_timer T now (GetInterval jb)) now s = (rs, s')" by fastforce
  have "async_wait T (steady_timer T now (GetInterval jb)) t = max t (now + GetInterval jb)" for t
    using assms(1) by (simp add: waits_for_expiry_def)
  from launch_loop_paced [OF assms this run] run show ?thesis by (simp add: Launch_def)
qed

end
