(* ===== verification/Sync_Facade.thy ===== *)
theory Sync_Facade
  imports Service_Calls
begin

section \<open>The synchronous facade\<close>

text \<open>
  \<open>src/src/server/database/sync\<close> and \<open>src/src/server/table/sync\<close>: the classes that run the coroutines of
  the database, of sessions, tables and iterators to their end. \<open>RunSync\<close> waits for the coroutine and
  returns its value or rethrows what it threw; of a coroutine that waits for ever it does not
  return.
\<close>

definition RunSync :: "'a result option \<Rightarrow> 'a result option" where
  "RunSync coro = coro"

subsection \<open>Database and sessions\<close>

definition sdb_Init :: "database \<Rightarrow> database result option" where
  "sdb_Init db = RunSync (Some (db_Init db))"

definition sdb_GetStorageForRecover :: "database \<Rightarrow> string \<Rightarrow> lsm_engine result" where
  "sdb_GetStorageForRecover db sid = db_GetStorageForRecover db sid"

definition sdb_StartSession :: "database \<Rightarrow> int option \<Rightarrow> (session \<times> database) result option" where
  "sdb_StartSession db tx = RunSync (Some (db_StartSession db tx))"

definition sss_Start :: "database \<Rightarrow> int option \<Rightarrow> (session \<times> database) result option" where
  "sss_Start db tx = RunSync (Some (ses_Start db tx))"

definition sss_Finish :: "database \<Rightarrow> session \<Rightarrow> (int \<times> database) result option" where
  "sss_Finish db s = RunSync (Some (Inr (ses_Finish db s)))"

definition sss_GetTx :: "session \<Rightarrow> int" where
  "sss_GetTx s = ses_GetTx s"

definition sss_CreateTable :: "crc32 \<Rightarrow> database \<Rightarrow> session \<Rightarrow> string \<Rightarrow> string \<Rightarrow> database result option" where
  "sss_CreateTable crc db s uuid name = RunSync (ses_CreateTable crc db s uuid name)"

definition sss_DropTable :: "crc32 \<Rightarrow> database \<Rightarrow> session \<Rightarrow> string \<Rightarrow> database result option" where
  "sss_DropTable crc db s name = RunSync (ses_DropTable crc db s name)"

definition sss_Begin :: "database \<Rightarrow> (session \<times> database) result option" where
  "sss_Begin db = RunSync (Some (ses_Begin db))"

definition sss_Commit :: "database \<Rightarrow> session \<Rightarrow> database result option" where
  "sss_Commit db s = RunSync (Some (Inr (ses_Commit db s)))"

definition sss_CountSSTables :: "crc32 \<Rightarrow> database \<Rightarrow> session \<Rightarrow> string \<Rightarrow> nat result option" where
  "sss_CountSSTables crc db s name = RunSync (ses_CountSSTables crc db s name)"

text \<open>A table of a session: the table it stands for and the transaction it reads and writes in.\<close>

record sync_table =
  stb_impl :: table_ref
  stb_tx :: int

definition sss_GetTable :: "crc32 \<Rightarrow> database \<Rightarrow> session \<Rightarrow> string \<Rightarrow> sync_table option result option" where
  "sss_GetTable crc db s name =
     bindM (RunSync (ses_GetTable crc db s name)) (\<lambda>async_table.
       Some (Inr (case async_table of None \<Rightarrow> None | Some t \<Rightarrow> Some \<lparr>stb_impl = t, stb_tx = ses_tx s\<rparr>)))"

subsection \<open>Tables and iterators\<close>

definition stb_Upsert :: "database \<Rightarrow> sync_table \<Rightarrow> string \<Rightarrow> string \<Rightarrow> database result option" where
  "stb_Upsert db t key val = RunSync (tbl_Upsert db (stb_tx t) (stb_impl t) key val)"

definition stb_Lookup :: "crc32 \<Rightarrow> database \<Rightarrow> sync_table \<Rightarrow> string \<Rightarrow> string option result option" where
  "stb_Lookup crc db t key = RunSync (tbl_Lookup crc db (stb_tx t) (stb_impl t) key)"

definition stb_Delete :: "crc32 \<Rightarrow> database \<Rightarrow> sync_table \<Rightarrow> string \<Rightarrow> (bool \<times> database) result option" where
  "stb_Delete crc db t key = RunSync (tbl_Delete crc db (stb_tx t) (stb_impl t) key)"

definition stb_Scan :: "crc32 \<Rightarrow> database \<Rightarrow> sync_table \<Rightarrow> string option \<Rightarrow> string option \<Rightarrow> transform_iterator result option" where
  "stb_Scan crc db t lower upper = RunSync (tbl_Scan crc db (stb_tx t) (stb_impl t) lower upper)"

definition stb_Compact :: "crc32 \<Rightarrow> database \<Rightarrow> sync_table \<Rightarrow> database result option" where
  "stb_Compact crc db t = RunSync (tbl_Compact crc db (stb_impl t))"

definition sit_HasMore :: "transform_iterator \<Rightarrow> bool" where
  "sit_HasMore it = tri_HasMore it"

definition sit_Next :: "transform_iterator \<Rightarrow> (row \<times> transform_iterator) result option" where
  "sit_Next it = RunSync (Some (tri_Next it))"

subsection \<open>A session of its own\<close>

text \<open>The session of a caller that writes a row, reads it back and finishes.\<close>

definition write_and_read :: "crc32 \<Rightarrow> database \<Rightarrow> string \<Rightarrow> string \<Rightarrow> string \<Rightarrow> (string option \<times> int \<times> database) result option" where
  "write_and_read crc db name key val =
     bindM (sdb_StartSession db None) (\<lambda>(s, db).
     bindM (sss_GetTable crc db s name) (\<lambda>table.
       case table of
         None \<Rightarrow> Some (Inr (None, ses_tx s, db))
       | Some t \<Rightarrow>
           bindM (stb_Upsert db t key val) (\<lambda>db.
           bindM (stb_Lookup crc db t key) (\<lambda>r.
           bindM (sss_Finish db s) (\<lambda>(tx, db). Some (Inr (r, tx, db)))))))"

text \<open>
  The caller reads what it has written before it finishes, and the transaction that \<open>Finish\<close> returns is
  committed.
\<close>

lemma write_and_read_returns:
  assumes inv: "db_inv crc db logs evs" and sys: "map_of logs kSysTables = Some (m, log)"
    and tab: "table_committed (db_tx_storage db) (versions_of log) name sid" and st: "map_of logs sid = Some (m', log')"
    and free: "ts_row_locks (db_tx_storage db) key = None"
    and fits: "write_fits db sid key (new_version (ts_next_tx_id (db_tx_storage db)) (Some val))"
  shows "\<exists>db'. write_and_read crc db name key val = Some (Inr (Some val, ts_next_tx_id (db_tx_storage db), db')) \<and>
    ts_IsCommited (db_tx_storage db') (ts_next_tx_id (db_tx_storage db))"
proof -
  let ?tx = "ts_next_tx_id (db_tx_storage db)" let ?s = "\<lparr>ses_tx = ?tx, ses_is_autocommit = True\<rparr>"
  let ?v = "new_version ?tx (Some val)" let ?r = "Record key m' (tv_bytes ?v)"
  from inv_StartSession [OF inv] obtain ts where start: "db_StartSession db None = Inr (?s, db\<lparr>db_tx_storage := ts\<rparr>)"
    and inv1: "db_inv crc (db\<lparr>db_tx_storage := ts\<rparr>) logs evs" and com: "ts_IsCommited ts = ts_IsCommited (db_tx_storage db)"
    and ts: "ts_row_locks ts = ts_row_locks (db_tx_storage db)" by metis
  let ?db1 = "db\<lparr>db_tx_storage := ts\<rparr>"
  have tab1: "table_committed (db_tx_storage ?db1) (versions_of log) name sid" using tab by (simp add: table_committed_def com cong: option.case_cong)
  note get = inv_GetTable [OF inv1 sys tab1 st, of ?s]
  have "write_fits ?db1 sid key ?v" "ts_row_locks (db_tx_storage ?db1) key = None" using fits free ts by (simp_all add: write_fits_def)
  with inv_tx_Upsert [OF inv1 st] obtain db2 evs2 where up: "tx_Upsert ?db1 sid ?tx key val = Some (Inr db2)"
    and inv2: "db_inv crc db2 (AList.update sid (m' + 1, ?r # log') logs) evs2" by metis
  have "valid_tv ?v" using fits by (simp add: write_fits_def)
  then have "versions_of (?r # log') = (key, ?v) # versions_of log'" by (simp add: versions_of_def)
  moreover have "map_of (AList.update sid (m' + 1, ?r # log') logs) sid = Some (m' + 1, ?r # log')" by (simp add: update_conv')
  ultimately have look: "tx_Lookup crc db2 sid ?tx key = Some (Inr (Some val))"
    using inv_tx_Lookup [OF inv2] by (simp add: tt_sees_def new_version_def)
  have "ts_IsCommited (db_tx_storage (ses_Commit db2 ?s)) ?tx" by (simp add: ses_Commit_def split_beta db_set_env_def status_frame)
  with start get up look show ?thesis
    by (simp add: write_and_read_def sdb_StartSession_def sss_GetTable_def stb_Upsert_def stb_Lookup_def sss_Finish_def RunSync_def ses_Finish_def)
qed

end
