(* ===== verification/Spec2Isabelle.thy ===== *)
theory Spec2Isabelle
  imports Cli Server_Start Sdb_Viewer Replication_Restart Follower_Restart Log_Retention Row_Lock_Waiting Upsert_Races Database_Runs
    Client_Transactions Jobs Sync_Facade
begin

text \<open>
  StructureDB is a database server on log-structured merge trees, with transactions, a write-ahead
  log and replication of that log, a client library, a command line client and a viewer of table files. This
  library models the program under \<open>src/src\<close> and proves what its parts promise.

  \<^bold>\<open>Parts and how they work together.\<close> A request reaches a handler of the services
  (\<open>server/services\<close>), which opens a session (\<open>server/database/session.cpp\<close>) on the database. A session
  reads and writes transactional tables (\<open>server/table/transactional_table.cpp\<close>): versions of
  rows, whose visibility the storage of transactions decides
  (\<open>server/transaction/storage.cpp\<close>). A table keeps its versions in a storage engine
  (\<open>server/table/storage/lsm_storage.cpp\<close>), which puts them into an LSM tree (\<open>server/lsm\<close>) and writes an event to the
  log (\<open>server/wal\<close>). Jobs flush mem tables, compact tables and clean the log (\<open>server/database/jobs\<close>).
  A leader streams its log to followers (\<open>server/services/replication_service\<close>), which write the pages to
  their own log and apply the events (\<open>server/replication\<close>). \<open>server/main.cpp\<close> builds all this from a
  configuration file (\<open>server/cfg\<close>). The client library (\<open>client\<close>) builds requests; the command line
  client (\<open>cli\<close>) is its user.

  \<^bold>\<open>How the model reads.\<close> Every struct or class is a record, every function of the program a definition
  with its name, usually with a short prefix for its class (\<open>lsm_Put\<close> is \<open>Lsm::Put\<close>). State is passed
  explicitly; the disk is a list of named files. Functions that can fail return \<open>'a result\<close>, with
  \<open>Inl\<close> the exception; \<open>OutOfBounds\<close> and \<open>AssertionFailed\<close> are undefined behaviour and aborts, which no
  \<open>catch\<close> of the model catches. An operation of type \<open>'a result option\<close> may wait or run for ever, which is \<open>None\<close>:
  loops over iterators are partial functions into \<open>option\<close>, and the theorems show that they
  return. Coroutines that interleave are step relations, cut where the source suspends. Integers are 64
  bits wide where the code encodes or subtracts them; sequence numbers are bounded by
  \<open>kMaxSequence\<close> in the hypotheses that need it. The checksum \<open>crc\<close> (Boost), the YAML library,
  the levels of the logger and the UUIDs are parameters.

  \<^bold>\<open>Foundations.\<close> \<open>Prelude\<close>: results, errors, lists and 64-bit ranges. \<open>Decimal\<close>, \<open>File_Names\<close>:
  numbers in file names and the order of directory listings. \<open>Sdb_Format\<close>: the encoding of \<open>server/sdb\<close>, with the
  locale \<open>sdb_codec\<close> for every pair of \<open>Write\<close> and \<open>Read\<close>, interpreted for integers, strings,
  records, headers and events. \<open>Io\<close>: readers, writers and the file operations of \<open>io::Manager\<close>. \<open>Lru_Cache\<close>:
  \<open>cache/lru_cache.hpp\<close> with its nodes, refined to a list in order of use; the locale \<open>read_cache\<close>.

  \<^bold>\<open>LSM tree.\<close> \<open>Lsm_Types\<close>, \<open>Page\<close>, \<open>SSTable\<close>: records, pages with checksums, table files, their binary
  search; a written file is its image and is read back. \<open>Iterator\<close>, \<open>Mem_Table\<close>, \<open>Merge_Iterator\<close>:
  the locale \<open>iterator\<close>, interpreted for every iterator of the program. \<open>Lsm_Tree\<close>: \<open>lsm/lsm.cpp\<close>. \<open>Lsm_Correct\<close>,
  \<open>Lsm_Store\<close>, \<open>Lsm_Compact\<close>, \<open>Lsm_Restart\<close>: the tree refines the log of its puts,
  compaction keeps the contract of its strategy, \<open>Init\<close> recovers what was flushed.

  \<^bold>\<open>Log.\<close> \<open>Wal_Event\<close>, \<open>Wal\<close>: events, writer, reader, recovery, cleaner and tail of \<open>server/wal\<close>.
  \<open>Wal_Correct\<close>, \<open>Wal_Tail\<close>: what is written is recovered, cleaning removes exactly the obsolete
  segments, replication collects every page and finds where to resume.

  \<^bold>\<open>Tables and transactions.\<close> \<open>Transactions\<close>: ids, statuses, row locks. \<open>Lsm_Engine\<close>,
  \<open>Transactional_Table\<close>: the engine and the table. \<open>Table_Sessions\<close>: tables refine lists of
  versions; isolation, deletion, scans. \<open>Table_Compaction\<close>: when compaction keeps lookups, and the
  cases in which it does not.

  \<^bold>\<open>Database and services.\<close> \<open>Database_Model\<close>: database, catalog, sessions, system views and jobs. \<open>Database_Inv\<close>,
  \<open>Database_Steps\<close>: the invariant of a running database and that every operation keeps it. \<open>Database_Recovery\<close>:
  a stopped database reads the same after \<open>Init\<close>, which gives the invariant back. \<open>Database_Runs\<close>: runs in which the
  server stops at any point and starts again, any number of times; they keep the invariant, every version
  and every commit. \<open>Jobs\<close>: the loop that repeats the jobs. \<open>Services\<close>, \<open>Service_Calls\<close>: every handler, and that
  requests are steps of the database. \<open>Sync_Facade\<close>: the classes that run sessions and tables to their end.

  \<^bold>\<open>Concurrency.\<close> \<open>Shared_Mutex\<close>: \<open>io/shared_mutex.cpp\<close> and \<open>io/condition_variable.cpp\<close>, with the locale \<open>monitor_laws\<close>
  for both kinds of waiting; exclusion, and that no wake-up is lost. \<open>Row_Lock_Waiting\<close>: row locks with
  their condition variable. \<open>Upsert_Races\<close>: upserts that overtake each other between the mutex and
  the log.

  \<^bold>\<open>Replication.\<close> \<open>Replication\<close>: registry, reactor and follower. \<open>Replication_Correct\<close>: a follower is a prefix of
  its leader, whatever pages overlap. \<open>Replication_Stream\<close>, \<open>Replication_Runs\<close>: the system of writer,
  coroutine, channel and follower, and its invariant in every interleaving. \<open>Follower_Restart\<close>: the same with
  crashes of the follower, which has after a restart what it had before, and reads as its leader when the
  stream is idle. \<open>Replication_Restart\<close>: the
  stream after a restart of the leader. \<open>Log_Retention\<close>: what the cleaner leaves for followers.

  \<^bold>\<open>Programs.\<close> \<open>Server_Start\<close>: configuration and \<open>main\<close> of the server. \<open>Client\<close>: the client library over a
  connection, of which \<open>server_connection\<close> is the one to the modelled services. \<open>Client_Transactions\<close>:
  \<open>WithTransaction\<close> on those services takes effect as a whole or not at all. \<open>Cli_Text\<close>, \<open>Cli\<close>: trie, splitting and
  printing; commands, parser and loop; from a typed line to the files and back. \<open>Sdb_Viewer\<close>: the
  viewer.

  \<^bold>\<open>Bounds.\<close> Files are named with four digits, so the order of names is the order of numbers up to 9999; the
  theorems about restarts assume no more files than that (\<open>few_tables\<close>, \<open>few_files\<close>, the guard of \<open>crash_step\<close>). The runs of
  \<open>server_step\<close> have the flush job and neither compaction nor cleaning, which do not keep what is read. A record fits into a page and its event
  into a page of the log where the hypotheses \<open>storable\<close>, \<open>op_fits\<close>, \<open>write_fits\<close> say so: the code writes longer ones
  across the boundary. \<open>padded_log\<close> says that no page of the log ends with a padding of one to seven
  bytes, which the reader takes for an event. The rounds of a loop that are counted in an argument (as in
  \<open>view_pages\<close>) are those the source counts.

  \<^bold>\<open>Not modelled.\<close> The event loop, the thread pool and the threads (Boost.Asio), the gRPC channel beyond the order of
  its messages and that it breaks, the lengths of pauses other than those of the job loop, logging, the
  line editor and what it does with its history file. A step of a job that throws counts as
  having changed nothing. Crashes stop a server between two operations of the model; a write that is cut in the middle of a
  file is not modelled, nor is the loss of what was written and not synced. The followers of \<open>Follower_Restart\<close> have not
  flushed, compacted or cleaned. Memory is unlimited, and a file system call on an existing file succeeds.
\<close>

end
